(* ===== verification/Prelude.thy ===== *)
theory Prelude
  imports Main "HOL-Library.Word" "HOL-Library.List_Lexorder" "HOL-Library.Sublist" "HOL-Library.AList" "HOL-Library.Multiset"
begin

text \<open>
  Types and generic facts shared by every component of the cloud-etcd development.

  \<^item> Go's \<^verbatim>\<open>byte\<close>, \<^verbatim>\<open>[]byte\<close>, \<^verbatim>\<open>uint64\<close> and \<^verbatim>\<open>int64\<close> as HOL types.  Byte strings are ordered
    lexicographically (theory \<^verbatim>\<open>List_Lexorder\<close>), which is \<^verbatim>\<open>bytes.Compare\<close>; a 64-bit integer is a
    \<^verbatim>\<open>64 word\<close>, so that a conversion between \<^verbatim>\<open>int64\<close> and \<^verbatim>\<open>uint64\<close> is the identity on the bits and a
    signed comparison is written \<^verbatim>\<open><s\<close> or \<^verbatim>\<open>\<le>s\<close>.
  \<^item> The two pieces of Go's standard library the index and the log lean on: \<^verbatim>\<open>sort.Search\<close> (a binary
    search) and the lookup of a missing map key (the zero value).
  \<^item> The collections \<^verbatim>\<open>go_simps\<close> and \<^verbatim>\<open>rev_simps\<close> and lemmas on sorted lists and words.
\<close>

named_theorems go_simps \<open>defining facts of the standard-library models\<close>
named_theorems rev_simps \<open>facts about revisions (64-bit counters)\<close>

type_synonym byte = "8 word"
type_synonym bytes = "byte list"
type_synonym key = bytes
type_synonym revision = "64 word"
type_synonym int64 = "64 word"

text \<open>A Go slice that the code compares with \<^verbatim>\<open>nil\<close>: \<^verbatim>\<open>None\<close> is \<^verbatim>\<open>nil\<close>.\<close>

type_synonym slice = "bytes option"

definition slice_bytes :: "slice \<Rightarrow> bytes" where
  "slice_bytes s = (case s of None \<Rightarrow> [] | Some bs \<Rightarrow> bs)"

text \<open>The bytes of a Go string literal.\<close>

definition bytes_of :: "string \<Rightarrow> bytes" where
  "bytes_of s = map of_char s"

text \<open>\<^verbatim>\<open>m[k]\<close> for a \<^verbatim>\<open>map[string]Revision\<close>: a missing key reads as the zero value.\<close>

definition map_get :: "('k \<rightharpoonup> revision) \<Rightarrow> 'k \<Rightarrow> revision" where
  "map_get m k = (case m k of None \<Rightarrow> 0 | Some r \<Rightarrow> r)"

text \<open>\<^verbatim>\<open>sort.Search(n, f)\<close>: the loop of Go's standard library.\<close>

function go_search_loop :: "(nat \<Rightarrow> bool) \<Rightarrow> nat \<Rightarrow> nat \<Rightarrow> nat" where
  "go_search_loop f i j =
     (if i < j
      then let h = (i + j) div 2
           in if \<not> f h then go_search_loop f (h + 1) j else go_search_loop f i h
      else i)"
  by pat_completeness auto
termination
  by (relation "measure (\<lambda>(f, i, j). j - i)") auto

declare go_search_loop.simps [simp del]

definition go_search :: "nat \<Rightarrow> (nat \<Rightarrow> bool) \<Rightarrow> nat" where
  "go_search n f = go_search_loop f 0 n"

subsection \<open>Binary search\<close>

lemma go_search_loop_correct:
  assumes "\<forall>a b. a \<le> b \<and> b < n \<and> f a \<longrightarrow> f b" and "i \<le> j" and "j \<le> n"
    and "\<forall>a < i. \<not> f a" and "\<forall>a. j \<le> a \<and> a < n \<longrightarrow> f a"
  shows "go_search_loop f i j \<le> n
    \<and> (\<forall>a < go_search_loop f i j. \<not> f a) \<and> (\<forall>a. go_search_loop f i j \<le> a \<and> a < n \<longrightarrow> f a)"
  using assms
proof (induction f i j rule: go_search_loop.induct)
  case (1 f i j)
  show ?case
  proof (cases "i < j")
    case False
    then have "go_search_loop f i j = i" by (subst go_search_loop.simps) simp
    with False "1.prems" show ?thesis by simp
  next
    case True
    define h where "h = (i + j) div 2"
    have h: "i \<le> h" "h < j" using True by (auto simp: h_def)
    show ?thesis
    proof (cases "f h")
      case True
      have eq: "go_search_loop f i j = go_search_loop f i h"
        using \<open>i < j\<close> True by (subst go_search_loop.simps) (simp add: h_def Let_def)
      have up: "\<forall>a. h \<le> a \<and> a < n \<longrightarrow> f a" using "1.prems"(1) True by blast
      have "h \<le> n" "\<not> \<not> f h" using h "1.prems"(3) True by auto
      then show ?thesis unfolding eq
        using "1.IH"(2)[OF \<open>i < j\<close> h_def _ "1.prems"(1) h(1) _ "1.prems"(4) up] by blast
    next
      case False
      have eq: "go_search_loop f i j = go_search_loop f (h + 1) j"
        using \<open>i < j\<close> False by (subst go_search_loop.simps) (simp add: h_def Let_def)
      have "h < n" using h "1.prems"(3) by simp
      then have low: "\<forall>a < h + 1. \<not> f a" using "1.prems"(1) False by (metis Suc_eq_plus1 less_Suc_eq_le)
      have "h + 1 \<le> j" using h by simp
      then show ?thesis unfolding eq
        using "1.IH"(1)[OF \<open>i < j\<close> h_def False "1.prems"(1) _ "1.prems"(3) low "1.prems"(5)] by blast
    qed
  qed
qed

lemma go_search_correct:
  assumes "\<forall>a b. a \<le> b \<and> b < n \<and> f a \<longrightarrow> f b"
  shows "go_search n f \<le> n" and "\<forall>a < go_search n f. \<not> f a"
    and "\<forall>a. go_search n f \<le> a \<and> a < n \<longrightarrow> f a"
proof -
  have "go_search n f \<le> n \<and> (\<forall>a < go_search n f. \<not> f a) \<and> (\<forall>a. go_search n f \<le> a \<and> a < n \<longrightarrow> f a)"
    unfolding go_search_def by (rule go_search_loop_correct[OF assms]) auto
  then show "go_search n f \<le> n" and "\<forall>a < go_search n f. \<not> f a"
    and "\<forall>a. go_search n f \<le> a \<and> a < n \<longrightarrow> f a" by blast+
qed

text \<open>The search over a sorted list splits it where the predicate turns true.\<close>

lemma go_search_takeWhile:
  assumes mono: "\<forall>a b. a \<le> b \<and> b < length xs \<and> P (xs ! a) \<longrightarrow> P (xs ! b)"
  shows "go_search (length xs) (\<lambda>i. P (xs ! i)) = length (takeWhile (\<lambda>x. \<not> P x) xs)"
    (is "?s = ?t")
proof (rule antisym)
  have s: "?s \<le> length xs" "\<And>a. a < ?s \<Longrightarrow> \<not> P (xs ! a)"
    "\<And>a. ?s \<le> a \<Longrightarrow> a < length xs \<Longrightarrow> P (xs ! a)"
    using go_search_correct[of "length xs" "\<lambda>i. P (xs ! i)"] mono by blast+
  show "?s \<le> ?t"
  proof (rule ccontr)
    assume "\<not> ?s \<le> ?t"
    then have lt: "?t < ?s" by simp
    then have "?t < length xs" using s(1) by simp
    then have "P (xs ! ?t)" using nth_length_takeWhile[of "\<lambda>x. \<not> P x" xs] by simp
    then show False using s(2)[OF lt] by simp
  qed
  show "?t \<le> ?s"
  proof (rule ccontr)
    assume "\<not> ?t \<le> ?s"
    then have lt: "?s < ?t" by simp
    then have "?s < length xs" using length_takeWhile_le[of "\<lambda>x. \<not> P x" xs] by simp
    then have "P (xs ! ?s)" using s(3)[of ?s] by simp
    moreover have "takeWhile (\<lambda>x. \<not> P x) xs ! ?s = xs ! ?s" by (rule takeWhile_nth[OF lt])
    ultimately show False using nth_mem[OF lt] by (metis set_takeWhileD)
  qed
qed

lemma go_search_loop_le: "i \<le> j \<Longrightarrow> go_search_loop f i j \<le> j"
proof (induction f i j rule: go_search_loop.induct)
  case (1 f i j)
  define h where "h = (i + j) div 2"
  have h: "i < j \<Longrightarrow> i \<le> h \<and> h < j" by (auto simp: h_def)
  show ?case
    using "1.IH"(1)[OF _ h_def] "1.IH"(2)[OF _ h_def] h "1.prems"
    by (subst go_search_loop.simps) (auto simp: h_def[symmetric] Let_def)
qed

lemma go_search_le: "go_search n f \<le> n"
  by (simp add: go_search_def go_search_loop_le)

subsection \<open>Lists and byte strings\<close>

lemma map_filter_append [simp]: "List.map_filter f (xs @ ys) = List.map_filter f xs @ List.map_filter f ys"
  by (induction xs) (auto split: option.splits)

lemma less_append_self: "k \<noteq> [] \<Longrightarrow> (p :: bytes) < p @ k"
  by (induction p) (auto simp: neq_Nil_conv)

lemma append_less_append [simp]: "(p :: bytes) @ a < p @ b \<longleftrightarrow> a < b"
  by (induction p) auto

lemma append_le_append [simp]: "(p :: bytes) @ a \<le> p @ b \<longleftrightarrow> a \<le> b"
  by (induction p) auto

lemma hd_less_imp_less: "(p :: bytes) \<noteq> [] \<Longrightarrow> q \<noteq> [] \<Longrightarrow> hd p < hd q \<Longrightarrow> p < q"
  by (cases p; cases q) auto

lemma less_append_same_length:
  "length a = length b \<Longrightarrow> (a :: bytes) < b \<Longrightarrow> a @ x < b @ y"
  by (induction a b rule: list_induct2) auto

lemma take_min_less:
  assumes "take (min (length p) (length q)) p < take (min (length p) (length q)) (q :: bytes)"
  shows "p @ k < q"
  using less_append_same_length[OF _ assms, of "drop (min (length p) (length q)) p @ k" "drop (min (length p) (length q)) q"]
  by (simp flip: append_assoc)

lemma take_min_ge:
  assumes "\<not> take (min (length p) (length q)) p < take (min (length p) (length q)) (q :: bytes)"
    and "\<not> (take (min (length p) (length q)) p = take (min (length p) (length q)) q \<and> length p < length q)"
  shows "q \<le> p @ k"
proof (cases "take (min (length p) (length q)) q < take (min (length p) (length q)) p")
  case True
  then show ?thesis
    using less_append_same_length[OF _ True, of "drop (min (length p) (length q)) q" "drop (min (length p) (length q)) p @ k"]
    by (simp flip: append_assoc)
next
  case False
  then have "take (length q) p = q" using assms by (auto simp: min_def split: if_splits)
  then obtain r where r: "p = q @ r" by (metis append_take_drop_id)
  show ?thesis unfolding r append_assoc using append_le_append[of q "[]" "r @ k"] by simp
qed

end
