(* ===== verification/Mvcc.thy ===== *)
theory Mvcc
  imports Prelude
begin

text \<open>
  The data the components exchange.

  \<^item> The protocol messages of etcd the code uses (\<^verbatim>\<open>mvccpb\<close> and \<^verbatim>\<open>etcdserverpb\<close>), as records with the
    fields the code reads or writes.  A \<^verbatim>\<open>bytes\<close> field that the code compares with \<^verbatim>\<open>nil\<close> is a \<^verbatim>\<open>slice\<close>.
  \<^item> \<^verbatim>\<open>persistence.LogRecord\<close> and \<^verbatim>\<open>persistence.TxnMeta\<close> (\<^verbatim>\<open>src/pkg/persistence/log.go\<close>,
    \<^verbatim>\<open>txn_meta.go\<close>), and the internal keyspace (\<^verbatim>\<open>src/pkg/storage/keys.go\<close>).
  \<^item> The errors of the program.  \<^verbatim>\<open>Wrap\<close> is \<^verbatim>\<open>fmt.Errorf("...: %w", err)\<close>; \<^verbatim>\<open>Fatal\<close> is \<^verbatim>\<open>klog.Fatalf\<close> and
    \<^verbatim>\<open>Panic\<close> a Go panic: both end the process, and are kept apart from ordinary errors so that a
    theorem can say that they do not happen.
\<close>

subsection \<open>Errors\<close>

datatype error =
    ErrCompacted | ErrFutureRev | ErrLeaseNotFound | ErrLeaseExist | ErrRevisionConflict
  | Errorf string | Wrap string error | Fatal string | Panic string

text \<open>\<^verbatim>\<open>errors.Is\<close> on the sentinel errors: look through the wrapping.\<close>

fun unwrap :: "error \<Rightarrow> error" where
  "unwrap (Wrap m e) = unwrap e"
| "unwrap e = e"

fun crashes :: "error \<Rightarrow> bool" where
  "crashes (Fatal m) = True"
| "crashes (Panic m) = True"
| "crashes (Wrap m e) = crashes e"
| "crashes e = False"

subsection \<open>mvccpb\<close>

record KeyValue =
  kv_key :: bytes
  kv_createRevision :: int64
  kv_modRevision :: int64
  kv_version :: int64
  kv_value :: bytes
  kv_lease :: int64

datatype EventType = PUT | DELETE | UnknownType "32 word"

record Event =
  ev_type :: EventType
  ev_kv :: KeyValue
  ev_prevKv :: "KeyValue option"

subsection \<open>persistence: log records and transaction metadata\<close>

record LogRecord =
  lr_events :: "Event list"

text \<open>
  \<^verbatim>\<open>ReadSet\<close> and \<^verbatim>\<open>WriteSet\<close> are Go maps that the code ranges over: association lists with distinct
  keys, updated with \<^verbatim>\<open>AList.update\<close>.
\<close>

record TxnMeta =
  tm_snapshotRevision :: revision
  tm_readSet :: "(key \<times> revision) list"
  tm_writeSet :: "(key \<times> bool) list"
  tm_hasRangeRead :: bool

definition NewTxnMeta :: "revision \<Rightarrow> TxnMeta" where
  "NewTxnMeta snapshotRevision =
     \<lparr> tm_snapshotRevision = snapshotRevision, tm_readSet = [], tm_writeSet = [], tm_hasRangeRead = False \<rparr>"

definition AddRead :: "TxnMeta \<Rightarrow> key \<Rightarrow> revision \<Rightarrow> TxnMeta" where
  "AddRead t k modRevision = t \<lparr> tm_readSet := AList.update k modRevision (tm_readSet t) \<rparr>"

definition AddWrite :: "TxnMeta \<Rightarrow> key \<Rightarrow> TxnMeta" where
  "AddWrite t k = t \<lparr> tm_writeSet := AList.update k True (tm_writeSet t) \<rparr>"

definition AddList :: "TxnMeta \<Rightarrow> TxnMeta" where
  "AddList t = t \<lparr> tm_hasRangeRead := True \<rparr>"

text \<open>\<^verbatim>\<open>WriteSet[key]\<close>: a missing key reads as \<^verbatim>\<open>false\<close>.\<close>

definition in_writeSet :: "TxnMeta \<Rightarrow> key \<Rightarrow> bool" where
  "in_writeSet t k \<longleftrightarrow> map_of (tm_writeSet t) k = Some True"

text \<open>The keys a transaction writes.  Only \<^verbatim>\<open>AddWrite\<close> changes a write set, so it maps to \<^verbatim>\<open>true\<close> only.\<close>

definition writes :: "TxnMeta \<Rightarrow> key set" where
  "writes t = fst ` set (tm_writeSet t)"

definition meta_wf :: "TxnMeta \<Rightarrow> bool" where
  "meta_wf t \<longleftrightarrow> distinct (map fst (tm_readSet t)) \<and> distinct (map fst (tm_writeSet t)) \<and> (\<forall>v \<in> snd ` set (tm_writeSet t). v)"

lemma meta_wf_New [simp]: "meta_wf (NewTxnMeta s)"
  by (simp add: meta_wf_def NewTxnMeta_def)

lemma meta_wf_AddRead [simp]: "meta_wf t \<Longrightarrow> meta_wf (AddRead t k r)"
  by (simp add: meta_wf_def AddRead_def distinct_update)

lemma set_update_True: "\<forall>v \<in> snd ` set m. v \<Longrightarrow> \<forall>v \<in> snd ` set (AList.update k True m). v"
  by (induction m) auto

lemma meta_wf_AddWrite [simp]: "meta_wf t \<Longrightarrow> meta_wf (AddWrite t k)"
  using set_update_True[of "tm_writeSet t" k] by (auto simp: meta_wf_def AddWrite_def distinct_update)

lemma meta_wf_AddList [simp]: "meta_wf t \<Longrightarrow> meta_wf (AddList t)"
  by (simp add: meta_wf_def AddList_def)

lemma writes_New [simp]: "writes (NewTxnMeta s) = {}"
  by (simp add: writes_def NewTxnMeta_def)

lemma writes_AddRead [simp]: "writes (AddRead t k r) = writes t"
  by (simp add: writes_def AddRead_def)

lemma writes_AddList [simp]: "writes (AddList t) = writes t"
  by (simp add: writes_def AddList_def)

lemma writes_AddWrite [simp]: "writes (AddWrite t k) = insert k (writes t)"
  by (auto simp: writes_def AddWrite_def dom_update)

lemma in_writeSet_writes: "meta_wf t \<Longrightarrow> in_writeSet t k \<longleftrightarrow> k \<in> writes t"
  by (force simp: in_writeSet_def writes_def meta_wf_def map_of_eq_Some_iff)

subsection \<open>storage: the internal keyspace\<close>

definition InternalPrefix :: bytes where
  "InternalPrefix = 0 # bytes_of ''cloudetcd/''"

definition IsInternalKey :: "key \<Rightarrow> bool" where
  "IsInternalKey k \<longleftrightarrow> length k > 0 \<and> k ! 0 = 0 \<and> prefix InternalPrefix k"

text \<open>The guard on the first byte is only an optimisation.\<close>

lemma IsInternalKey_prefix: "IsInternalKey k \<longleftrightarrow> prefix InternalPrefix k"
  by (auto simp: IsInternalKey_def InternalPrefix_def prefix_def)

end
