(* ===== verification/Logcodec.thy ===== *)
theory Logcodec
  imports Mvcc
begin

text \<open>
  The on-disk encoding of a log file, \<^verbatim>\<open>src/pkg/persistence/logcodec/logcodec.go\<close>: a fixed header, then
  one length-prefixed protobuf message per record.

  The protobuf libraries the code calls (\<^verbatim>\<open>protowire\<close> and \<^verbatim>\<open>proto\<close>) are a parameter, the record
  \<^verbatim>\<open>Protowire\<close> of the functions used; the locales \<^verbatim>\<open>wire_format\<close> and \<^verbatim>\<open>proto_codec\<close> state the documented
  behaviour the code relies on.  The last section gives an implementation of the protobuf wire format
  for which these hold.  As in protowire, a negative count is an error code.

  The parsing loops of the code run while bytes are left, and every round takes at least the byte of a
  tag or of a length prefix off the front; the loops of the model take the number of bytes as fuel, and
  the round-trip theorems show that the fuel is enough.  A decoded event without a \<^verbatim>\<open>Kv\<close>, which no code of
  this program writes and the first use of which would dereference \<^verbatim>\<open>nil\<close>, is a panic of the decoder here.
\<close>

subsection \<open>The protobuf libraries\<close>

record Protowire =
  pw_AppendVarint :: "bytes \<Rightarrow> 64 word \<Rightarrow> bytes"
  pw_ConsumeVarint :: "bytes \<Rightarrow> 64 word \<times> int"
  pw_ConsumeBytes :: "bytes \<Rightarrow> bytes \<times> int"
  pw_ConsumeTag :: "bytes \<Rightarrow> nat \<times> nat \<times> int"
  pw_ConsumeFieldValue :: "nat \<Rightarrow> nat \<Rightarrow> bytes \<Rightarrow> int"
  pw_isUnexpectedEOF :: "int \<Rightarrow> bool"
  pb_Marshal :: "revision \<Rightarrow> Event list \<Rightarrow> error + bytes"
  pb_Unmarshal :: "bytes \<Rightarrow> error + Event list"

definition VarintType :: nat where "VarintType = 0"
definition BytesType :: nat where "BytesType = 2"

definition ParseError :: "int \<Rightarrow> error" where
  "ParseError n = Errorf ''parse error''"

subsection \<open>Encoding\<close>

record Span =
  sp_offset :: nat
  sp_length :: nat

definition magic :: bytes where
  "magic = bytes_of ''cloudetcd-log'' @ [0, 1]"

fun append_loop :: "Protowire \<Rightarrow> bytes \<Rightarrow> (revision \<times> LogRecord) list \<Rightarrow> error + bytes \<times> Span list" where
  "append_loop w buf [] = Inr (buf, [])"
| "append_loop w buf ((rv, r) # rs) =
     (case pb_Marshal w rv (lr_events r) of
        Inl e \<Rightarrow> Inl (Wrap ''encoding record'' e)
      | Inr msg \<Rightarrow>
          let buf1 = pw_AppendVarint w buf (of_nat (length msg))
          in case append_loop w (buf1 @ msg) rs of
               Inl e \<Rightarrow> Inl e
             | Inr (buf2, spans) \<Rightarrow>
                 Inr (buf2, \<lparr> sp_offset = length buf1, sp_length = length msg \<rparr> # spans))"

definition AppendRecordsAt :: "Protowire \<Rightarrow> bytes \<Rightarrow> revision list \<Rightarrow> LogRecord list \<Rightarrow> error + bytes \<times> Span list" where
  "AppendRecordsAt w buf revs rs =
     (if length revs \<noteq> length rs then Inl (Errorf ''revisions for records'') else append_loop w buf (zip revs rs))"

definition AppendRecords :: "Protowire \<Rightarrow> bytes \<Rightarrow> revision \<Rightarrow> LogRecord list \<Rightarrow> error + bytes \<times> Span list" where
  "AppendRecords w buf first rs = AppendRecordsAt w buf (map (\<lambda>i. first + of_nat i) [0..<length rs]) rs"

definition Encode :: "Protowire \<Rightarrow> revision \<Rightarrow> LogRecord list \<Rightarrow> error + bytes" where
  "Encode w first rs = (case AppendRecords w magic first rs of Inl e \<Rightarrow> Inl e | Inr (buf, spans) \<Rightarrow> Inr buf)"

text \<open>\<^verbatim>\<open>WriteRecord\<close>: the bytes written to the writer; the count returned is their number.\<close>

definition WriteRecord :: "Protowire \<Rightarrow> bytes \<Rightarrow> bytes \<Rightarrow> bytes" where
  "WriteRecord w out msg = out @ pw_AppendVarint w [] (of_nat (length msg)) @ msg"

definition span_bytes :: "Span \<Rightarrow> bytes \<Rightarrow> bytes" where
  "span_bytes s data = take (sp_length s) (drop (sp_offset s) data)"

subsection \<open>The revision of an encoded record\<close>

primrec header_revision :: "Protowire \<Rightarrow> nat \<Rightarrow> bytes \<Rightarrow> error + revision" where
  "header_revision w 0 h = (if h = [] then Inl (Errorf ''record header has no revision'') else Inl (Panic ''no progress''))"
| "header_revision w (Suc fuel) h =
     (if h = [] then Inl (Errorf ''record header has no revision'')
      else let (hnum, htyp, hn) = pw_ConsumeTag w h
           in if hn < 0 then Inl (ParseError hn)
              else let h1 = drop (nat hn) h
                   in if hnum = 3 \<and> htyp = VarintType
                      then let (v, vn) = pw_ConsumeVarint w h1
                           in if vn < 0 then Inl (ParseError vn) else Inr v
                      else let fn = pw_ConsumeFieldValue w hnum htyp h1
                           in if fn < 0 then Inl (ParseError fn) else header_revision w fuel (drop (nat fn) h1))"

primrec record_revision :: "Protowire \<Rightarrow> nat \<Rightarrow> bytes \<Rightarrow> error + revision" where
  "record_revision w 0 m = (if m = [] then Inl (Errorf ''record has no header'') else Inl (Panic ''no progress''))"
| "record_revision w (Suc fuel) m =
     (if m = [] then Inl (Errorf ''record has no header'')
      else let (num, typ, n) = pw_ConsumeTag w m
           in if n < 0 then Inl (ParseError n)
              else let m1 = drop (nat n) m
                   in if num = 1 \<and> typ = BytesType
                      then let (h, n1) = pw_ConsumeBytes w m1
                           in if n1 < 0 then Inl (ParseError n1) else header_revision w (length h) h
                      else let fn = pw_ConsumeFieldValue w num typ m1
                           in if fn < 0 then Inl (ParseError fn) else record_revision w fuel (drop (nat fn) m1))"

definition EncodedRecord_Revision :: "Protowire \<Rightarrow> bytes \<Rightarrow> error + revision" where
  "EncodedRecord_Revision w m = record_revision w (length m) m"

subsection \<open>Scanning a file\<close>

text \<open>\<^verbatim>\<open>scan_loop\<close> is the loop of \<^verbatim>\<open>Scan\<close> from position \<^verbatim>\<open>pos\<close>, with the rest of the file as an argument.\<close>

primrec scan_loop :: "Protowire \<Rightarrow> nat \<Rightarrow> nat \<Rightarrow> bytes \<Rightarrow> error + Span list \<times> revision list \<times> nat" where
  "scan_loop w 0 pos data = (if data = [] then Inr ([], [], pos) else Inl (Panic ''no progress''))"
| "scan_loop w (Suc fuel) pos data =
     (if data = [] then Inr ([], [], pos)
      else let (n, k) = pw_ConsumeVarint w data
           in if k < 0
              then if pw_isUnexpectedEOF w k then Inr ([], [], pos) else Inl (Wrap ''decoding record'' (ParseError k))
              else if length data - nat k < unat n then Inr ([], [], pos)
              else let m = take (unat n) (drop (nat k) data)
                   in case EncodedRecord_Revision w m of
                        Inl e \<Rightarrow> Inl (Wrap ''decoding record'' e)
                      | Inr rv \<Rightarrow>
                          (case scan_loop w fuel (pos + nat k + unat n) (drop (nat k + unat n) data) of
                             Inl e \<Rightarrow> Inl e
                           | Inr (spans, revs, complete) \<Rightarrow>
                               Inr (\<lparr> sp_offset = pos + nat k, sp_length = unat n \<rparr> # spans, rv # revs, complete)))"

definition Scan :: "Protowire \<Rightarrow> bytes \<Rightarrow> error + Span list \<times> revision list \<times> nat" where
  "Scan w data =
     (if \<not> prefix magic data then Inl (Errorf ''not a cloudetcd log file (bad header)'')
      else scan_loop w (length data) (length magic) (drop (length magic) data))"

definition Offsets :: "Protowire \<Rightarrow> bytes \<Rightarrow> error + Span list \<times> revision list" where
  "Offsets w data =
     (case Scan w data of
        Inl e \<Rightarrow> Inl e
      | Inr (spans, revs, complete) \<Rightarrow>
          if complete \<noteq> length data then Inl (Errorf ''decoding record: truncated'') else Inr (spans, revs))"

subsection \<open>Decoding\<close>

definition EncodedRecord_Decode :: "Protowire \<Rightarrow> bytes \<Rightarrow> error + LogRecord" where
  "EncodedRecord_Decode w m =
     (case pb_Unmarshal w m of Inl e \<Rightarrow> Inl e | Inr evs \<Rightarrow> Inr \<lparr> lr_events = evs \<rparr>)"

primrec decode_loop :: "Protowire \<Rightarrow> nat \<Rightarrow> bytes \<Rightarrow> error + LogRecord list" where
  "decode_loop w 0 data = (if data = [] then Inr [] else Inl (Panic ''no progress''))"
| "decode_loop w (Suc fuel) data =
     (if data = [] then Inr []
      else let (m, n) = pw_ConsumeBytes w data
           in if n < 0 then Inl (Wrap ''decoding record'' (ParseError n))
              else case pb_Unmarshal w m of
                     Inl e \<Rightarrow> Inl (Wrap ''decoding record'' e)
                   | Inr evs \<Rightarrow>
                       (case decode_loop w fuel (drop (nat n) data) of
                          Inl e \<Rightarrow> Inl e
                        | Inr rs \<Rightarrow> Inr (\<lparr> lr_events = evs \<rparr> # rs)))"

definition Decode :: "Protowire \<Rightarrow> bytes \<Rightarrow> error + LogRecord list" where
  "Decode w data =
     (if \<not> prefix magic data then Inl (Errorf ''not a cloudetcd log batch (bad header)'')
      else decode_loop w (length data) (drop (length magic) data))"

primrec decode_record_loop :: "Protowire \<Rightarrow> nat \<Rightarrow> nat \<Rightarrow> bytes \<Rightarrow> error + LogRecord" where
  "decode_record_loop w 0 i data = (if data = [] then Inl (Errorf ''record not in batch'') else Inl (Panic ''no progress''))"
| "decode_record_loop w (Suc fuel) i data =
     (if data = [] then Inl (Errorf ''record not in batch'')
      else let (m, k) = pw_ConsumeBytes w data
           in if k < 0 then Inl (Wrap ''decoding record'' (ParseError k))
              else case i of
                     0 \<Rightarrow> (case pb_Unmarshal w m of
                            Inl e \<Rightarrow> Inl (Wrap ''decoding record'' e)
                          | Inr evs \<Rightarrow> Inr \<lparr> lr_events = evs \<rparr>)
                   | Suc j \<Rightarrow> decode_record_loop w fuel j (drop (nat k) data))"

definition DecodeRecord :: "Protowire \<Rightarrow> bytes \<Rightarrow> nat \<Rightarrow> error + LogRecord" where
  "DecodeRecord w data i =
     (if \<not> prefix magic data then Inl (Errorf ''not a cloudetcd log batch (bad header)'')
      else decode_record_loop w (length data) i (drop (length magic) data))"

subsection \<open>Decoding without copying\<close>

definition zero_KeyValue :: KeyValue where
  "zero_KeyValue = \<lparr> kv_key = [], kv_createRevision = 0, kv_modRevision = 0, kv_version = 0, kv_value = [], kv_lease = 0 \<rparr>"

definition event_type_of :: "64 word \<Rightarrow> EventType" where
  "event_type_of v = (let t = ucast v :: 32 word in if t = 0 then PUT else if t = 1 then DELETE else UnknownType t)"

record wire_event =
  we_type :: EventType
  we_kv :: "KeyValue option"
  we_prevKv :: "KeyValue option"

primrec decodeKeyValue_loop :: "Protowire \<Rightarrow> nat \<Rightarrow> bytes \<Rightarrow> KeyValue \<Rightarrow> error + KeyValue" where
  "decodeKeyValue_loop w 0 m kv = (if m = [] then Inr kv else Inl (Panic ''no progress''))"
| "decodeKeyValue_loop w (Suc fuel) m kv =
     (if m = [] then Inr kv
      else let (num, typ, n) = pw_ConsumeTag w m
           in if n < 0 then Inl (ParseError n)
              else let m1 = drop (nat n) m
                   in if (num = 1 \<or> num = 5) \<and> typ = BytesType
                      then let (v, n1) = pw_ConsumeBytes w m1
                           in if n1 < 0 then Inl (ParseError n1)
                              else decodeKeyValue_loop w fuel (drop (nat n1) m1)
                                     (if num = 1 then kv \<lparr> kv_key := v \<rparr> else kv \<lparr> kv_value := v \<rparr>)
                      else if typ = VarintType \<and> 2 \<le> num \<and> num \<le> 6
                      then let (v, n1) = pw_ConsumeVarint w m1
                           in if n1 < 0 then Inl (ParseError n1)
                              else decodeKeyValue_loop w fuel (drop (nat n1) m1)
                                     (if num = 2 then kv \<lparr> kv_createRevision := v \<rparr>
                                      else if num = 3 then kv \<lparr> kv_modRevision := v \<rparr>
                                      else if num = 4 then kv \<lparr> kv_version := v \<rparr>
                                      else if num = 6 then kv \<lparr> kv_lease := v \<rparr>
                                      else kv)
                      else let fn = pw_ConsumeFieldValue w num typ m1
                           in if fn < 0 then Inl (ParseError fn)
                              else decodeKeyValue_loop w fuel (drop (nat fn) m1) kv)"

definition decodeKeyValueAlias :: "Protowire \<Rightarrow> bytes \<Rightarrow> error + KeyValue" where
  "decodeKeyValueAlias w m = decodeKeyValue_loop w (length m) m zero_KeyValue"

primrec decodeEvent_loop :: "Protowire \<Rightarrow> nat \<Rightarrow> bytes \<Rightarrow> wire_event \<Rightarrow> error + wire_event" where
  "decodeEvent_loop w 0 m ev = (if m = [] then Inr ev else Inl (Panic ''no progress''))"
| "decodeEvent_loop w (Suc fuel) m ev =
     (if m = [] then Inr ev
      else let (num, typ, n) = pw_ConsumeTag w m
           in if n < 0 then Inl (ParseError n)
              else let m1 = drop (nat n) m
                   in if num = 1 \<and> typ = VarintType
                      then let (v, n1) = pw_ConsumeVarint w m1
                           in if n1 < 0 then Inl (ParseError n1)
                              else decodeEvent_loop w fuel (drop (nat n1) m1) (ev \<lparr> we_type := event_type_of v \<rparr>)
                      else if (num = 2 \<or> num = 3) \<and> typ = BytesType
                      then let (v, n1) = pw_ConsumeBytes w m1
                           in if n1 < 0 then Inl (ParseError n1)
                              else (case decodeKeyValueAlias w v of
                                      Inl e \<Rightarrow> Inl e
                                    | Inr kv \<Rightarrow>
                                        decodeEvent_loop w fuel (drop (nat n1) m1)
                                          (if num = 2 then ev \<lparr> we_kv := Some kv \<rparr> else ev \<lparr> we_prevKv := Some kv \<rparr>))
                      else let fn = pw_ConsumeFieldValue w num typ m1
                           in if fn < 0 then Inl (ParseError fn)
                              else decodeEvent_loop w fuel (drop (nat fn) m1) ev)"

definition decodeEventAlias :: "Protowire \<Rightarrow> bytes \<Rightarrow> error + wire_event" where
  "decodeEventAlias w m = decodeEvent_loop w (length m) m \<lparr> we_type = PUT, we_kv = None, we_prevKv = None \<rparr>"

definition event_of_wire :: "wire_event \<Rightarrow> error + Event" where
  "event_of_wire we =
     (case we_kv we of
        None \<Rightarrow> Inl (Panic ''nil pointer dereference'')
      | Some kv \<Rightarrow> Inr \<lparr> ev_type = we_type we, ev_kv = kv, ev_prevKv = we_prevKv we \<rparr>)"

primrec decodeAlias_loop :: "Protowire \<Rightarrow> nat \<Rightarrow> bytes \<Rightarrow> Event list \<Rightarrow> error + Event list" where
  "decodeAlias_loop w 0 m evs = (if m = [] then Inr evs else Inl (Panic ''no progress''))"
| "decodeAlias_loop w (Suc fuel) m evs =
     (if m = [] then Inr evs
      else let (num, typ, n) = pw_ConsumeTag w m
           in if n < 0 then Inl (ParseError n)
              else let m1 = drop (nat n) m
                   in if num = 11 \<and> typ = BytesType
                      then let (v, n1) = pw_ConsumeBytes w m1
                           in if n1 < 0 then Inl (ParseError n1)
                              else (case decodeEventAlias w v of
                                      Inl e \<Rightarrow> Inl e
                                    | Inr we \<Rightarrow>
                                        (case event_of_wire we of
                                           Inl e \<Rightarrow> Inl e
                                         | Inr ev \<Rightarrow> decodeAlias_loop w fuel (drop (nat n1) m1) (evs @ [ev])))
                      else let fn = pw_ConsumeFieldValue w num typ m1
                           in if fn < 0 then Inl (ParseError fn)
                              else decodeAlias_loop w fuel (drop (nat fn) m1) evs)"

definition DecodeAlias :: "Protowire \<Rightarrow> bytes \<Rightarrow> error + LogRecord" where
  "DecodeAlias w m =
     (case decodeAlias_loop w (length m) m [] of Inl e \<Rightarrow> Inl e | Inr evs \<Rightarrow> Inr \<lparr> lr_events = evs \<rparr>)"

subsection \<open>What the code relies on in the protobuf libraries\<close>

text \<open>
  The encoding of the messages the log writes, in terms of the varint encoding: a field is its tag and
  its value; a field with the zero value is left out (proto3).
\<close>

definition enc_varint :: "Protowire \<Rightarrow> 64 word \<Rightarrow> bytes" where
  "enc_varint w v = pw_AppendVarint w [] v"

definition enc_tag :: "Protowire \<Rightarrow> nat \<Rightarrow> nat \<Rightarrow> bytes" where
  "enc_tag w num typ = enc_varint w (of_nat (8 * num + typ))"

definition enc_varint_field :: "Protowire \<Rightarrow> nat \<Rightarrow> 64 word \<Rightarrow> bytes" where
  "enc_varint_field w num v = (if v = 0 then [] else enc_tag w num VarintType @ enc_varint w v)"

definition enc_delimited :: "Protowire \<Rightarrow> bytes \<Rightarrow> bytes" where
  "enc_delimited w bs = enc_varint w (of_nat (length bs)) @ bs"

definition enc_bytes_field :: "Protowire \<Rightarrow> nat \<Rightarrow> bytes \<Rightarrow> bytes" where
  "enc_bytes_field w num bs = (if bs = [] then [] else enc_tag w num BytesType @ enc_delimited w bs)"

definition enc_message_field :: "Protowire \<Rightarrow> nat \<Rightarrow> bytes \<Rightarrow> bytes" where
  "enc_message_field w num bs = enc_tag w num BytesType @ enc_delimited w bs"

definition enc_KeyValue :: "Protowire \<Rightarrow> KeyValue \<Rightarrow> bytes" where
  "enc_KeyValue w kv = enc_bytes_field w 1 (kv_key kv) @ enc_varint_field w 2 (kv_createRevision kv)
     @ enc_varint_field w 3 (kv_modRevision kv) @ enc_varint_field w 4 (kv_version kv)
     @ enc_bytes_field w 5 (kv_value kv) @ enc_varint_field w 6 (kv_lease kv)"

definition event_type_value :: "EventType \<Rightarrow> 64 word" where
  "event_type_value t = (case t of PUT \<Rightarrow> 0 | DELETE \<Rightarrow> 1 | UnknownType x \<Rightarrow> scast x)"

definition enc_Event :: "Protowire \<Rightarrow> Event \<Rightarrow> bytes" where
  "enc_Event w ev = enc_varint_field w 1 (event_type_value (ev_type ev)) @ enc_message_field w 2 (enc_KeyValue w (ev_kv ev))
     @ (case ev_prevKv ev of None \<Rightarrow> [] | Some kv \<Rightarrow> enc_message_field w 3 (enc_KeyValue w kv))"

definition enc_WatchResponse :: "Protowire \<Rightarrow> revision \<Rightarrow> Event list \<Rightarrow> bytes" where
  "enc_WatchResponse w rv evs = enc_message_field w 1 (enc_varint_field w 3 rv)
     @ concat (map (\<lambda>ev. enc_message_field w 11 (enc_Event w ev)) evs)"

text \<open>The messages of the log: puts and deletes, small enough for their lengths to be 64-bit numbers.\<close>

definition fits :: "bytes \<Rightarrow> bool" where
  "fits bs \<longleftrightarrow> length bs < 2 ^ 64"

definition loggable :: "Protowire \<Rightarrow> revision \<Rightarrow> Event list \<Rightarrow> bool" where
  "loggable w rv evs \<longleftrightarrow> (\<forall>ev \<in> set evs. ev_type ev \<in> {PUT, DELETE}) \<and> fits (enc_WatchResponse w rv evs)"

locale wire_format =
  fixes w :: Protowire
  assumes AppendVarint: "pw_AppendVarint w b v = b @ enc_varint w v"
    and varint_nonempty: "enc_varint w v \<noteq> []"
    and ConsumeVarint: "pw_ConsumeVarint w (enc_varint w v @ rest) = (v, int (length (enc_varint w v)))"
    and ConsumeVarint_truncated: "strict_prefix p (enc_varint w v) \<Longrightarrow>
      snd (pw_ConsumeVarint w p) < 0 \<and> pw_isUnexpectedEOF w (snd (pw_ConsumeVarint w p))"
    and ConsumeBytes: "fits bs \<Longrightarrow>
      pw_ConsumeBytes w (enc_delimited w bs @ rest) = (bs, int (length (enc_delimited w bs)))"
    and ConsumeTag: "1 \<le> num \<Longrightarrow> num < 2 ^ 29 \<Longrightarrow> typ < 8 \<Longrightarrow>
      pw_ConsumeTag w (enc_tag w num typ @ rest) = (num, typ, int (length (enc_tag w num typ)))"
    and ConsumeFieldValue_varint: "pw_ConsumeFieldValue w num VarintType (enc_varint w v @ rest) = int (length (enc_varint w v))"
    and ConsumeFieldValue_bytes: "fits bs \<Longrightarrow>
      pw_ConsumeFieldValue w num BytesType (enc_delimited w bs @ rest) = int (length (enc_delimited w bs))"

locale proto_codec = wire_format +
  assumes Marshal: "loggable w rv evs \<Longrightarrow> pb_Marshal w rv evs = Inr (enc_WatchResponse w rv evs)"
    and Unmarshal: "loggable w rv evs \<Longrightarrow> pb_Unmarshal w (enc_WatchResponse w rv evs) = Inr evs"

subsection \<open>Parsing loops\<close>

text \<open>
  \<^verbatim>\<open>runs loop m s m' s'\<close>: with fuel for \<^verbatim>\<open>m\<close>, the loop gets from input \<^verbatim>\<open>m\<close> and state \<^verbatim>\<open>s\<close> to input \<^verbatim>\<open>m'\<close> and
  state \<^verbatim>\<open>s'\<close>, with fuel for what is left.
\<close>

definition runs :: "(nat \<Rightarrow> bytes \<Rightarrow> 's \<Rightarrow> 'r) \<Rightarrow> bytes \<Rightarrow> 's \<Rightarrow> bytes \<Rightarrow> 's \<Rightarrow> bool" where
  "runs loop m s m' s' \<longleftrightarrow>
     (\<forall>fuel. length m \<le> fuel \<longrightarrow> (\<exists>fuel'. length m' \<le> fuel' \<and> loop fuel m s = loop fuel' m' s'))"

lemma runs_refl [simp]: "runs loop m s m s"
  by (auto simp: runs_def)

lemma runs_trans: "runs loop m s m' s' \<Longrightarrow> runs loop m' s' m'' s'' \<Longrightarrow> runs loop m s m'' s''"
  unfolding runs_def by metis

lemma runs_end: "runs loop m s [] s' \<Longrightarrow> (\<And>fuel. loop fuel [] s' = r) \<Longrightarrow> loop (length m) m s = r"
  unfolding runs_def by (metis order_refl)

lemma runsI:
  assumes "m \<noteq> []" and "length m' < length m" and "\<And>fuel. loop (Suc fuel) m s = loop fuel m' s'"
  shows "runs loop m s m' s'"
  unfolding runs_def
proof (intro allI impI)
  fix fuel assume f: "length m \<le> fuel"
  then obtain g where g: "fuel = Suc g" using assms(1) by (cases fuel) auto
  then have "length m' \<le> g" using f assms(2) by simp
  with assms(3)[of g] g show "\<exists>fuel'. length m' \<le> fuel' \<and> loop fuel m s = loop fuel' m' s'" by blast
qed

lemma fits_append: "fits (a @ b) \<Longrightarrow> fits a \<and> fits b"
  by (simp add: fits_def)

context wire_format
begin

lemma tag_nonempty [simp]: "enc_tag w num typ \<noteq> []"
  by (simp add: enc_tag_def varint_nonempty)

lemma delimited_nonempty [simp]: "enc_delimited w bs \<noteq> []"
  by (simp add: enc_delimited_def varint_nonempty)

lemma nonempty_length: "0 < length (enc_varint w v)" "0 < length (enc_tag w num typ)" "0 < length (enc_delimited w bs)"
  using varint_nonempty by (simp_all add: enc_tag_def enc_delimited_def)

lemmas consume = ConsumeVarint ConsumeBytes ConsumeTag ConsumeFieldValue_varint ConsumeFieldValue_bytes

lemma types [simp]: "VarintType < 8" "BytesType < 8" "VarintType \<noteq> BytesType" "BytesType \<noteq> VarintType"
  by (simp_all add: VarintType_def BytesType_def)

lemma kv_varint:
  assumes "num \<in> {2, 3, 4, 6}"
  shows "runs (decodeKeyValue_loop w) (enc_varint_field w num v @ rest) kv rest
    (if v = 0 then kv else if num = 2 then kv \<lparr> kv_createRevision := v \<rparr> else if num = 3 then kv \<lparr> kv_modRevision := v \<rparr>
     else if num = 4 then kv \<lparr> kv_version := v \<rparr> else kv \<lparr> kv_lease := v \<rparr>)"
proof (cases "v = 0")
  case False
  have "1 \<le> num" "num < 2 ^ 29" using assms by auto
  then show ?thesis using assms False nonempty_length(2)
    by (intro runsI) (auto simp: enc_varint_field_def consume Let_def)
qed (simp add: enc_varint_field_def)

lemma kv_bytes:
  assumes "num \<in> {1, 5}" and "fits bs"
  shows "runs (decodeKeyValue_loop w) (enc_bytes_field w num bs @ rest) kv rest
    (if bs = [] then kv else if num = 1 then kv \<lparr> kv_key := bs \<rparr> else kv \<lparr> kv_value := bs \<rparr>)"
proof (cases "bs = []")
  case False
  have "1 \<le> num" "num < 2 ^ 29" using assms(1) by auto
  then show ?thesis using assms False nonempty_length(2)
    by (intro runsI) (auto simp: enc_bytes_field_def consume Let_def)
qed (simp add: enc_bytes_field_def)

lemma fits_bytes_field: "fits (enc_bytes_field w num bs) \<Longrightarrow> fits bs"
  by (cases "bs = []") (simp_all add: enc_bytes_field_def enc_delimited_def fits_def)

lemma fits_message_field: "fits (enc_message_field w num bs) \<Longrightarrow> fits bs"
  by (simp add: enc_message_field_def enc_delimited_def fits_def)

lemma decodeKeyValue_roundtrip:
  assumes "fits (enc_KeyValue w kv)" shows "decodeKeyValueAlias w (enc_KeyValue w kv) = Inr kv"
proof -
  have k: "fits (kv_key kv)" "fits (kv_value kv)"
    using assms fits_append fits_bytes_field unfolding enc_KeyValue_def by meson+
  obtain a c m v b l where kv: "kv = \<lparr> kv_key = a, kv_createRevision = c, kv_modRevision = m, kv_version = v, kv_value = b, kv_lease = l \<rparr>"
    by (cases kv) auto
  let ?kv = "\<lambda>a c m v b l. \<lparr> kv_key = a, kv_createRevision = c, kv_modRevision = m, kv_version = v, kv_value = b, kv_lease = l \<rparr>"
  let ?L = "decodeKeyValue_loop w"
  have 1: "runs ?L (enc_bytes_field w 1 a @ R) zero_KeyValue R (?kv a 0 0 0 [] 0)" for R
    using kv_bytes[of 1 a R zero_KeyValue] k by (cases "a = []") (simp_all add: zero_KeyValue_def kv)
  have 2: "runs ?L (enc_varint_field w 2 c @ R) (?kv a 0 0 0 [] 0) R (?kv a c 0 0 [] 0)" for R
    using kv_varint[of 2 c R "?kv a 0 0 0 [] 0"] by (cases "c = 0") simp_all
  have 3: "runs ?L (enc_varint_field w 3 m @ R) (?kv a c 0 0 [] 0) R (?kv a c m 0 [] 0)" for R
    using kv_varint[of 3 m R "?kv a c 0 0 [] 0"] by (cases "m = 0") simp_all
  have 4: "runs ?L (enc_varint_field w 4 v @ R) (?kv a c m 0 [] 0) R (?kv a c m v [] 0)" for R
    using kv_varint[of 4 v R "?kv a c m 0 [] 0"] by (cases "v = 0") simp_all
  have 5: "runs ?L (enc_bytes_field w 5 b @ R) (?kv a c m v [] 0) R (?kv a c m v b 0)" for R
    using kv_bytes[of 5 b R "?kv a c m v [] 0"] k by (cases "b = []") (simp_all add: kv)
  have 6: "runs ?L (enc_varint_field w 6 l) (?kv a c m v b 0) [] (?kv a c m v b l)"
    using kv_varint[of 6 l "[]" "?kv a c m v b 0"] by (cases "l = 0") simp_all
  have "runs ?L (enc_KeyValue w kv) zero_KeyValue [] kv"
    unfolding enc_KeyValue_def kv
    using runs_trans[OF 1 runs_trans[OF 2 runs_trans[OF 3 runs_trans[OF 4 runs_trans[OF 5 6]]]]] by simp
  then show ?thesis unfolding decodeKeyValueAlias_def
    by (rule runs_end) (case_tac fuel; simp)
qed

lemma event_type_roundtrip: "t \<in> {PUT, DELETE} \<Longrightarrow> event_type_of (event_type_value t) = t"
  by (auto simp: event_type_of_def event_type_value_def)

lemma decodeEvent_roundtrip:
  assumes f: "fits (enc_Event w ev)" and t: "ev_type ev \<in> {PUT, DELETE}"
  shows "decodeEventAlias w (enc_Event w ev) = Inr \<lparr> we_type = ev_type ev, we_kv = Some (ev_kv ev), we_prevKv = ev_prevKv ev \<rparr>"
proof -
  let ?L = "decodeEvent_loop w" and ?e = "\<lambda>t k p. \<lparr> we_type = t, we_kv = k, we_prevKv = p \<rparr>"
  have fk: "fits (enc_KeyValue w (ev_kv ev))"
    and fp: "\<And>p. ev_prevKv ev = Some p \<Longrightarrow> fits (enc_KeyValue w p)"
    using f fits_append fits_message_field unfolding enc_Event_def by (metis, metis option.simps(5))
  have msg: "runs ?L (enc_message_field w num (enc_KeyValue w kv) @ R) e R
      (if num = 2 then e \<lparr> we_kv := Some kv \<rparr> else e \<lparr> we_prevKv := Some kv \<rparr>)"
    if "num \<in> {2, 3}" "fits (enc_KeyValue w kv)" for num kv R e
  proof -
    have "1 \<le> num" "num < 2 ^ 29" using that(1) by auto
    then show ?thesis using that nonempty_length(2)
      by (intro runsI) (auto simp: enc_message_field_def consume decodeKeyValue_roundtrip Let_def)
  qed
  have 1: "runs ?L (enc_varint_field w 1 (event_type_value (ev_type ev)) @ R) (?e PUT None None) R (?e (ev_type ev) None None)" for R
  proof (cases "ev_type ev = PUT")
    case True
    then show ?thesis by (simp add: enc_varint_field_def event_type_value_def)
  next
    case False
    then have "event_type_value (ev_type ev) \<noteq> 0" using t by (auto simp: event_type_value_def)
    then show ?thesis using nonempty_length(2) event_type_roundtrip[OF t]
      by (intro runsI) (auto simp: enc_varint_field_def consume Let_def)
  qed
  have 2: "runs ?L (enc_message_field w 2 (enc_KeyValue w (ev_kv ev)) @ R) (?e (ev_type ev) None None) R
      (?e (ev_type ev) (Some (ev_kv ev)) None)" for R
    using msg[of 2 "ev_kv ev" R "?e (ev_type ev) None None"] fk by simp
  have 3: "runs ?L (case ev_prevKv ev of None \<Rightarrow> [] | Some kv \<Rightarrow> enc_message_field w 3 (enc_KeyValue w kv))
      (?e (ev_type ev) (Some (ev_kv ev)) None) [] (?e (ev_type ev) (Some (ev_kv ev)) (ev_prevKv ev))"
  proof (cases "ev_prevKv ev")
    case (Some p)
    then show ?thesis using msg[of 3 p "[]" "?e (ev_type ev) (Some (ev_kv ev)) None"] fp by simp
  qed simp
  have "runs ?L (enc_Event w ev) (?e PUT None None) [] (?e (ev_type ev) (Some (ev_kv ev)) (ev_prevKv ev))"
    unfolding enc_Event_def using runs_trans[OF 1 runs_trans[OF 2 3]] by simp
  then show ?thesis unfolding decodeEventAlias_def
    by (rule runs_end) (case_tac fuel; simp)
qed

lemma event_of_wire_of [simp]:
  "event_of_wire \<lparr> we_type = ev_type ev, we_kv = Some (ev_kv ev), we_prevKv = ev_prevKv ev \<rparr> = Inr ev"
  by (simp add: event_of_wire_def)

lemma decodeAlias_events:
  assumes "\<forall>ev \<in> set evs. ev_type ev \<in> {PUT, DELETE} \<and> fits (enc_Event w ev)"
  shows "runs (decodeAlias_loop w) (concat (map (\<lambda>ev. enc_message_field w 11 (enc_Event w ev)) evs)) acc [] (acc @ evs)"
  using assms
proof (induction evs arbitrary: acc)
  case (Cons ev evs)
  let ?R = "concat (map (\<lambda>ev. enc_message_field w 11 (enc_Event w ev)) evs)"
  have "runs (decodeAlias_loop w) (enc_message_field w 11 (enc_Event w ev) @ ?R) acc ?R (acc @ [ev])"
    using Cons.prems nonempty_length(2)
    by (intro runsI) (auto simp: enc_message_field_def consume decodeEvent_roundtrip Let_def simp del: insert_iff)
  from runs_trans[OF this Cons.IH] Cons.prems show ?case by simp
qed simp

lemma loggable_events:
  assumes "loggable w rv evs"
  shows "\<forall>ev \<in> set evs. ev_type ev \<in> {PUT, DELETE} \<and> fits (enc_Event w ev)"
proof
  fix ev assume ev: "ev \<in> set evs"
  have "length (enc_message_field w 11 (enc_Event w ev)) \<le> length (enc_WatchResponse w rv evs)"
    using ev by (auto simp: enc_WatchResponse_def in_set_conv_decomp)
  then have "fits (enc_message_field w 11 (enc_Event w ev))" using assms by (simp add: loggable_def fits_def)
  then show "ev_type ev \<in> {PUT, DELETE} \<and> fits (enc_Event w ev)"
    using assms ev fits_message_field by (auto simp: loggable_def)
qed

lemma DecodeAlias_roundtrip:
  assumes "loggable w rv evs" shows "DecodeAlias w (enc_WatchResponse w rv evs) = Inr \<lparr> lr_events = evs \<rparr>"
proof -
  let ?R = "concat (map (\<lambda>ev. enc_message_field w 11 (enc_Event w ev)) evs)"
  have "fits (enc_varint_field w 3 rv)"
    using assms fits_message_field[of 1] fits_append unfolding loggable_def enc_WatchResponse_def by blast
  then have "runs (decodeAlias_loop w) (enc_message_field w 1 (enc_varint_field w 3 rv) @ ?R) [] ?R []"
    using nonempty_length(2) by (intro runsI) (auto simp: enc_message_field_def consume Let_def)
  from runs_trans[OF this decodeAlias_events[OF loggable_events[OF assms], of "[]"]]
  have "runs (decodeAlias_loop w) (enc_WatchResponse w rv evs) [] [] evs" by (simp add: enc_WatchResponse_def)
  then have "decodeAlias_loop w (length (enc_WatchResponse w rv evs)) (enc_WatchResponse w rv evs) [] = Inr evs"
    by (rule runs_end) (case_tac fuel; simp)
  then show ?thesis by (simp add: DecodeAlias_def)
qed

end

subsection \<open>Files of records\<close>

type_synonym stamped = "revision \<times> LogRecord"

definition enc_message :: "Protowire \<Rightarrow> stamped \<Rightarrow> bytes" where
  "enc_message w x = enc_WatchResponse w (fst x) (lr_events (snd x))"

definition enc_records :: "Protowire \<Rightarrow> stamped list \<Rightarrow> bytes" where
  "enc_records w xs = concat (map (\<lambda>x. enc_delimited w (enc_message w x)) xs)"

fun spans_at :: "Protowire \<Rightarrow> nat \<Rightarrow> stamped list \<Rightarrow> Span list" where
  "spans_at w pos [] = []"
| "spans_at w pos (x # xs) =
     \<lparr> sp_offset = pos + length (enc_varint w (of_nat (length (enc_message w x)))), sp_length = length (enc_message w x) \<rparr>
     # spans_at w (pos + length (enc_delimited w (enc_message w x))) xs"

definition recordable :: "Protowire \<Rightarrow> stamped \<Rightarrow> bool" where
  "recordable w x \<longleftrightarrow> fst x \<noteq> 0 \<and> loggable w (fst x) (lr_events (snd x))"

text \<open>The bytes a write that was cut short can leave: a proper prefix of an encoded record.\<close>

definition torn :: "Protowire \<Rightarrow> bytes \<Rightarrow> bool" where
  "torn w tail \<longleftrightarrow> (\<exists>msg. fits msg \<and> strict_prefix tail (enc_delimited w msg))"

lemma enc_records_append [simp]: "enc_records w (xs @ ys) = enc_records w xs @ enc_records w ys"
  by (simp add: enc_records_def)

lemma enc_records_Nil [simp]: "enc_records w [] = []"
  by (simp add: enc_records_def)

lemma enc_records_Cons: "enc_records w (x # xs) = enc_delimited w (enc_message w x) @ enc_records w xs"
  by (simp add: enc_records_def)

lemma length_spans_at [simp]: "length (spans_at w pos xs) = length xs"
  by (induction w pos xs rule: spans_at.induct) auto

lemma spans_at_append:
  "spans_at w pos (xs @ ys) = spans_at w pos xs @ spans_at w (pos + length (enc_records w xs)) ys"
  by (induction xs arbitrary: pos) (simp_all add: enc_records_Cons add.assoc)

lemma span_bytes_at:
  "i < length xs \<Longrightarrow> span_bytes (spans_at w (length pre) xs ! i) (pre @ enc_records w xs @ rest) = enc_message w (xs ! i)"
proof (induction xs arbitrary: i pre)
  case (Cons x xs)
  show ?case
  proof (cases i)
    case 0
    then show ?thesis by (simp add: span_bytes_def enc_records_Cons enc_delimited_def)
  next
    case (Suc j)
    have "span_bytes (spans_at w (length (pre @ enc_delimited w (enc_message w x))) xs ! j)
        ((pre @ enc_delimited w (enc_message w x)) @ enc_records w xs @ rest) = enc_message w (xs ! j)"
      using Cons.IH[of j "pre @ enc_delimited w (enc_message w x)"] Cons.prems Suc by simp
    then show ?thesis by (simp add: Suc enc_records_Cons)
  qed
qed simp

lemma recordable_fits: "recordable w x \<Longrightarrow> fits (enc_message w x)"
  by (simp add: recordable_def loggable_def enc_message_def)

context wire_format
begin

lemma torn_Nil [simp]: "torn w []"
proof -
  have "fits []" "strict_prefix [] (enc_delimited w [])" by (simp_all add: fits_def strict_prefix_def enc_delimited_def varint_nonempty[symmetric])
  then show ?thesis unfolding torn_def by blast
qed

lemma Revision_message:
  assumes "recordable w x" shows "EncodedRecord_Revision w (enc_message w x) = Inr (fst x)"
proof -
  let ?h = "enc_varint_field w 3 (fst x)"
  have f: "fits ?h"
    using assms fits_message_field[of 1] fits_append unfolding recordable_def loggable_def enc_WatchResponse_def by blast
  have h: "?h = enc_tag w 3 VarintType @ enc_varint w (fst x)" using assms by (simp add: enc_varint_field_def recordable_def)
  have "length ?h > 0" using nonempty_length(2) by (simp add: h)
  then obtain n where n: "length ?h = Suc n" by (metis Suc_pred)
  have hr: "header_revision w (length ?h) ?h = Inr (fst x)"
    using ConsumeVarint[of "fst x" "[]"] ConsumeTag[of 3 VarintType "enc_varint w (fst x)"] unfolding n
    by (simp add: h Let_def)
  have ne: "enc_message w x \<noteq> []" by (simp add: enc_message_def enc_WatchResponse_def enc_message_field_def)
  then obtain k where k: "length (enc_message w x) = Suc k" by (metis length_Suc_conv neq_Nil_conv)
  have "record_revision w (Suc k) (enc_message w x) = header_revision w (length ?h) ?h"
    using f by (simp add: enc_message_def enc_WatchResponse_def enc_message_field_def consume Let_def)
  then show ?thesis by (simp add: EncodedRecord_Revision_def k hr)
qed

lemma scan_torn:
  assumes "torn w tail" shows "scan_loop w (Suc fuel) pos tail = Inr ([], [], pos)"
proof (cases "tail = []")
  case False
  obtain msg where msg: "fits msg" "strict_prefix tail (enc_varint w (of_nat (length msg)) @ msg)"
    using assms unfolding torn_def enc_delimited_def by blast
  show ?thesis
  proof (cases "strict_prefix tail (enc_varint w (of_nat (length msg)))")
    case True
    from ConsumeVarint_truncated[OF this] False show ?thesis by (simp add: case_prod_beta)
  next
    case f: False
    have "prefix tail (enc_varint w (of_nat (length msg)) @ msg)" using msg(2) by (simp add: strict_prefix_def)
    then obtain p where p: "tail = enc_varint w (of_nat (length msg)) @ p" "prefix p msg"
      using f unfolding prefix_append strict_prefix_def by auto
    have "length p < length msg" using p msg(2) prefix_length_less[OF msg(2)] by simp
    moreover have "unat (of_nat (length msg) :: 64 word) = length msg"
      using msg(1) by (simp add: fits_def unat_of_nat take_bit_nat_eq_self)
    ultimately show ?thesis using ConsumeVarint[of "of_nat (length msg)" p] False by (simp add: p(1))
  qed
qed simp

lemma scan_records:
  assumes "\<forall>x \<in> set xs. recordable w x" and "torn w tail" and "length (enc_records w xs @ tail) < fuel"
  shows "scan_loop w fuel pos (enc_records w xs @ tail)
    = Inr (spans_at w pos xs, map fst xs, pos + length (enc_records w xs))"
  using assms
proof (induction xs arbitrary: pos fuel)
  case Nil
  then obtain f where "fuel = Suc f" by (cases fuel) auto
  then show ?case using scan_torn[OF Nil(2)] by simp
next
  case (Cons x xs)
  let ?m = "enc_message w x" and ?R = "enc_records w xs @ tail"
  have x: "recordable w x" using Cons.prems by simp
  have un: "unat (of_nat (length ?m) :: 64 word) = length ?m"
    using recordable_fits[OF x] by (simp add: fits_def unat_of_nat take_bit_nat_eq_self)
  obtain f where f: "fuel = Suc f" using Cons.prems(3) by (cases fuel) auto
  have data: "enc_records w (x # xs) @ tail = enc_varint w (of_nat (length ?m)) @ ?m @ ?R"
    by (simp add: enc_records_Cons enc_delimited_def)
  have "length ?R < f" using Cons.prems(3) nonempty_length(1)[of "of_nat (length ?m)"] unfolding data f length_append by linarith
  then have IH: "scan_loop w f p ?R = Inr (spans_at w p xs, map fst xs, p + length (enc_records w xs))" for p
    using Cons.IH[of f p] Cons.prems by simp
  show ?case unfolding data f
    using Revision_message[OF x] nonempty_length(1)[of "of_nat (length ?m)"]
    by (simp add: ConsumeVarint un IH varint_nonempty enc_records_Cons enc_delimited_def add.assoc del: append_assoc)
qed

end

context wire_format
begin

lemma Scan_records:
  assumes "\<forall>x \<in> set xs. recordable w x" and "torn w tail"
  shows "Scan w (magic @ enc_records w xs @ tail)
    = Inr (spans_at w (length magic) xs, map fst xs, length (magic @ enc_records w xs))"
proof -
  have "0 < length magic" by (simp add: magic_def bytes_of_def)
  then have "length (enc_records w xs @ tail) < length (magic @ enc_records w xs @ tail)" by simp
  from scan_records[OF assms this, of "length magic"] show ?thesis by (simp add: Scan_def)
qed

lemma Offsets_records:
  assumes "\<forall>x \<in> set xs. recordable w x"
  shows "Offsets w (magic @ enc_records w xs) = Inr (spans_at w (length magic) xs, map fst xs)"
  using Scan_records[OF assms torn_Nil] by (simp add: Offsets_def)

lemma WriteRecord_record: "WriteRecord w out (enc_message w x) = out @ enc_delimited w (enc_message w x)"
  by (simp add: WriteRecord_def enc_delimited_def AppendVarint)

end

context proto_codec
begin

lemma append_loop_records:
  assumes "\<forall>x \<in> set xs. recordable w x"
  shows "append_loop w buf xs = Inr (buf @ enc_records w xs, spans_at w (length buf) xs)"
  using assms
proof (induction xs arbitrary: buf)
  case (Cons x xs)
  obtain rv r where x: "x = (rv, r)" by force
  have "pb_Marshal w rv (lr_events r) = Inr (enc_message w x)"
    using Cons.prems Marshal by (simp add: x enc_message_def recordable_def)
  then show ?case using Cons.IH[of "buf @ enc_delimited w (enc_message w x)"] Cons.prems
    by (simp add: x AppendVarint enc_records_Cons enc_delimited_def Let_def add.assoc)
qed simp

lemma AppendRecordsAt_records:
  assumes "\<forall>x \<in> set (zip revs rs). recordable w x" and "length revs = length rs"
  shows "AppendRecordsAt w buf revs rs = Inr (buf @ enc_records w (zip revs rs), spans_at w (length buf) (zip revs rs))"
  using append_loop_records[OF assms(1)] assms(2) by (simp add: AppendRecordsAt_def)

lemma Decode_message:
  assumes "recordable w x" shows "pb_Unmarshal w (enc_message w x) = Inr (lr_events (snd x))"
  using Unmarshal assms by (simp add: recordable_def enc_message_def)

lemma decode_records:
  assumes "\<forall>x \<in> set xs. recordable w x" and "length (enc_records w xs) < fuel"
  shows "decode_loop w fuel (enc_records w xs) = Inr (map snd xs)"
  using assms
proof (induction xs arbitrary: fuel)
  case Nil
  then show ?case by (cases fuel) simp_all
next
  case (Cons x xs)
  let ?m = "enc_message w x"
  obtain f where f: "fuel = Suc f" using Cons.prems(2) by (cases fuel) auto
  have "length (enc_records w xs) < f"
    using Cons.prems(2) nonempty_length(3)[of ?m] unfolding f enc_records_Cons length_append by linarith
  then have IH: "decode_loop w f (enc_records w xs) = Inr (map snd xs)" using Cons by simp
  have x: "recordable w x" using Cons.prems by simp
  show ?case unfolding f enc_records_Cons
    using ConsumeBytes[OF recordable_fits[OF x]] by (simp add: Decode_message[OF x] IH)
qed

lemma decode_record_records:
  assumes "\<forall>x \<in> set xs. recordable w x" and "length (enc_records w xs) < fuel" and "i < length xs"
  shows "decode_record_loop w fuel i (enc_records w xs) = Inr (snd (xs ! i))"
  using assms
proof (induction xs arbitrary: fuel i)
  case (Cons x xs)
  let ?m = "enc_message w x"
  obtain f where f: "fuel = Suc f" using Cons.prems(2) by (cases fuel) auto
  have "length (enc_records w xs) < f"
    using Cons.prems(2) nonempty_length(3)[of ?m] unfolding f enc_records_Cons length_append by linarith
  then have IH: "j < length xs \<Longrightarrow> decode_record_loop w f j (enc_records w xs) = Inr (snd (xs ! j))" for j using Cons by simp
  have x: "recordable w x" using Cons.prems by simp
  show ?case unfolding f enc_records_Cons
    using ConsumeBytes[OF recordable_fits[OF x]] Cons.prems(3) by (cases i) (simp_all add: Decode_message[OF x] IH)
qed simp

lemma Decode_records:
  assumes "\<forall>x \<in> set xs. recordable w x"
  shows "Decode w (magic @ enc_records w xs) = Inr (map snd xs)"
    and "i < length xs \<Longrightarrow> DecodeRecord w (magic @ enc_records w xs) i = Inr (snd (xs ! i))"
proof -
  have "0 < length magic" by (simp add: magic_def bytes_of_def)
  then have "length (enc_records w xs) < length (magic @ enc_records w xs)" by simp
  from decode_records[OF assms this] decode_record_records[OF assms this]
  show "Decode w (magic @ enc_records w xs) = Inr (map snd xs)"
    and "i < length xs \<Longrightarrow> DecodeRecord w (magic @ enc_records w xs) i = Inr (snd (xs ! i))"
    by (simp_all add: Decode_def DecodeRecord_def)
qed

end

subsection \<open>An implementation of the wire format\<close>

text \<open>
  Base-128 varints, tags and length-delimited values as the protobuf encoding defines them, with
  protowire's error codes for a truncated and for an overlong value; \<^verbatim>\<open>Unmarshal\<close> is the parser above.
\<close>

fun varint :: "nat \<Rightarrow> bytes" where
  "varint n = (if n < 128 then [of_nat n] else of_nat (n mod 128 + 128) # varint (n div 128))"

declare varint.simps [simp del]

fun unvarint :: "nat \<Rightarrow> nat \<Rightarrow> bytes \<Rightarrow> nat \<times> int" where
  "unvarint i acc [] = (0, -1)"
| "unvarint i acc (b # bs) =
     (if i = 9 \<and> 1 < unat b then (0, -3)
      else if unat b < 128 then (acc + unat b * 128 ^ i, int i + 1)
      else unvarint (Suc i) (acc + (unat b - 128) * 128 ^ i) bs)"

definition std_ConsumeVarint :: "bytes \<Rightarrow> 64 word \<times> int" where
  "std_ConsumeVarint b = (let (v, n) = unvarint 0 0 b in (of_nat v, n))"

definition std_ConsumeBytes :: "bytes \<Rightarrow> bytes \<times> int" where
  "std_ConsumeBytes b =
     (let (v, n) = std_ConsumeVarint b
      in if n < 0 then ([], n)
         else if length b - nat n < unat v then ([], -1)
         else (take (unat v) (drop (nat n) b), n + int (unat v)))"

definition std_ConsumeTag :: "bytes \<Rightarrow> nat \<times> nat \<times> int" where
  "std_ConsumeTag b =
     (let (v, n) = std_ConsumeVarint b
      in if n < 0 then (0, 0, n)
         else if unat v div 8 = 0 \<or> 2 ^ 29 \<le> unat v div 8 then (0, 0, -2)
         else (unat v div 8, unat v mod 8, n))"

definition std_ConsumeFieldValue :: "nat \<Rightarrow> nat \<Rightarrow> bytes \<Rightarrow> int" where
  "std_ConsumeFieldValue num typ b =
     (if typ = VarintType then snd (std_ConsumeVarint b)
      else if typ = BytesType then snd (std_ConsumeBytes b)
      else if typ = 1 then (if length b < 8 then -1 else 8)
      else if typ = 5 then (if length b < 4 then -1 else 4)
      else -4)"

definition std_base :: Protowire where
  "std_base = \<lparr> pw_AppendVarint = (\<lambda>b v. b @ varint (unat v)), pw_ConsumeVarint = std_ConsumeVarint,
     pw_ConsumeBytes = std_ConsumeBytes, pw_ConsumeTag = std_ConsumeTag, pw_ConsumeFieldValue = std_ConsumeFieldValue,
     pw_isUnexpectedEOF = (\<lambda>n. n = -1), pb_Marshal = (\<lambda>rv evs. Inl (Errorf ''not used'')),
     pb_Unmarshal = (\<lambda>m. Inl (Errorf ''not used'')) \<rparr>"

definition std_wire :: Protowire where
  "std_wire = std_base \<lparr> pb_Marshal := (\<lambda>rv evs. Inr (enc_WatchResponse std_base rv evs)),
     pb_Unmarshal := (\<lambda>m. case DecodeAlias std_base m of Inl e \<Rightarrow> Inl e | Inr r \<Rightarrow> Inr (lr_events r)) \<rparr>"

lemma unvarint_varint:
  assumes "acc + n * 128 ^ i < 2 ^ 64" and "i \<le> 9"
  shows "unvarint i acc (varint n @ rest) = (acc + n * 128 ^ i, int (i + length (varint n)))"
  using assms
proof (induction n arbitrary: i acc rule: varint.induct)
  case (1 n)
  have byte: "unat (of_nat k :: byte) = k" if "k < 256" for k
    using that by (simp add: unat_of_nat take_bit_nat_eq_self)
  show ?case
  proof (cases "n < 128")
    case True
    have "\<not> (i = 9 \<and> 1 < n)"
    proof
      assume "i = 9 \<and> 1 < n"
      then have "2 * 128 ^ 9 \<le> n * 128 ^ i" by simp
      then show False using 1(2) by simp
    qed
    then show ?thesis using True byte[of n] by (auto simp: varint.simps[of n])
  next
    case False
    have i: "i < 9"
    proof (rule ccontr)
      assume "\<not> i < 9"
      then have "128 * 128 ^ 9 \<le> n * 128 ^ i" using False 1(3) by simp
      then show False using 1(2) by simp
    qed
    have n: "n * 128 ^ i = (n mod 128 + n div 128 * 128) * 128 ^ i" by simp
    have "acc + n mod 128 * 128 ^ i + n div 128 * 128 ^ Suc i = acc + n * 128 ^ i"
      unfolding n by (simp only: distrib_right add.assoc mult.assoc power_Suc)
    then show ?thesis
      using 1(1)[OF False, of "acc + n mod 128 * 128 ^ i" "Suc i"] 1(2) i False byte[of "n mod 128 + 128"]
      by (simp add: varint.simps[of n])
  qed
qed

lemma unvarint_truncated:
  assumes "strict_prefix p (varint n)" and "i + length (varint n) \<le> 10"
  shows "snd (unvarint i acc p) = -1"
  using assms
proof (induction n arbitrary: i acc p rule: varint.induct)
  case (1 n)
  have byte: "unat (of_nat k :: byte) = k" if "k < 256" for k
    using that by (simp add: unat_of_nat take_bit_nat_eq_self)
  show ?case
  proof (cases "n < 128")
    case True
    then show ?thesis using 1(2) by (auto simp: varint.simps[of n] strict_prefix_def prefix_Cons)
  next
    case False
    then have v: "varint n = of_nat (n mod 128 + 128) # varint (n div 128)" by (simp add: varint.simps[of n])
    have "varint (n div 128) \<noteq> []" by (subst varint.simps) simp
    then have i: "i < 9" using 1(3) v by (cases "varint (n div 128)") auto
    show ?thesis
    proof (cases p)
      case (Cons b q)
      then have b: "b = of_nat (n mod 128 + 128)" "strict_prefix q (varint (n div 128))"
        using 1(2) unfolding v by simp_all
      have "snd (unvarint (Suc i) acc' q) = -1" for acc'
        by (rule 1(1)[OF False b(2)]) (use 1(3) v in simp)
      then show ?thesis using i byte[of "n mod 128 + 128"] by (simp add: Cons b(1))
    qed simp
  qed
qed

lemma length_varint: "n < 2 ^ 64 \<Longrightarrow> length (varint n) \<le> 10"
proof -
  have "n < 128 ^ Suc k \<Longrightarrow> length (varint n) \<le> Suc k" for k
  proof (induction k arbitrary: n)
    case 0
    then show ?case by (simp add: varint.simps[of n])
  next
    case (Suc k)
    then have "n div 128 < 128 ^ Suc k" by (simp add: less_mult_imp_div_less)
    from Suc.IH[OF this] show ?case by (subst varint.simps) simp
  qed
  from this[of 9] show "n < 2 ^ 64 \<Longrightarrow> length (varint n) \<le> 10" by simp
qed

lemma unat64_less: "unat (v :: 64 word) < 2 ^ 64"
  by (rule order.strict_trans2[OF unsigned_less]) simp

lemma std_ConsumeVarint_varint:
  "std_ConsumeVarint (varint (unat (v :: 64 word)) @ rest) = (v, int (length (varint (unat v))))"
proof -
  have "unat v < 2 ^ 64" by (rule unat64_less)
  then show ?thesis using unvarint_varint[of 0 "unat v" 0 rest] by (simp add: std_ConsumeVarint_def)
qed

lemma std_ConsumeBytes_delimited:
  assumes "fits bs"
  shows "std_ConsumeBytes (varint (unat (of_nat (length bs) :: 64 word)) @ bs @ rest)
    = (bs, int (length (varint (unat (of_nat (length bs) :: 64 word)))) + int (length bs))"
proof -
  have "unat (of_nat (length bs) :: 64 word) = length bs"
    using assms by (simp add: fits_def unat_of_nat take_bit_nat_eq_self)
  then show ?thesis using std_ConsumeVarint_varint[of "of_nat (length bs)" "bs @ rest"]
    by (simp add: std_ConsumeBytes_def)
qed

lemma std_base_simps [simp]:
  "pw_AppendVarint std_base b v = b @ varint (unat v)" "pw_ConsumeVarint std_base = std_ConsumeVarint"
  "pw_ConsumeBytes std_base = std_ConsumeBytes" "pw_ConsumeTag std_base = std_ConsumeTag"
  "pw_ConsumeFieldValue std_base = std_ConsumeFieldValue" "pw_isUnexpectedEOF std_base n = (n = -1)"
  by (simp_all add: std_base_def)

lemma std_enc_varint [simp]: "enc_varint std_base v = varint (unat v)"
  by (simp add: enc_varint_def)

interpretation std0: wire_format std_base
proof unfold_locales
  show "enc_varint std_base v \<noteq> []" for v by simp (subst varint.simps, simp)
  show "strict_prefix p (enc_varint std_base v) \<Longrightarrow> snd (pw_ConsumeVarint std_base p) < 0
      \<and> pw_isUnexpectedEOF std_base (snd (pw_ConsumeVarint std_base p))" for p v
    using unvarint_truncated[of p "unat v" 0 0] length_varint[of "unat v"] unat64_less[of v]
    by (simp add: std_ConsumeVarint_def case_prod_beta)
  fix num ty :: nat and rest assume a: "1 \<le> num" "num < 2 ^ 29" "ty < 8"
  have "unat (of_nat (8 * num + ty) :: 64 word) = 8 * num + ty"
    using a by (simp add: unat_of_nat take_bit_nat_eq_self del: of_nat_add of_nat_mult)
  then show "pw_ConsumeTag std_base (enc_tag std_base num ty @ rest) = (num, ty, int (length (enc_tag std_base num ty)))"
    using a std_ConsumeVarint_varint[of "of_nat (8 * num + ty)" rest]
    by (simp add: enc_tag_def std_ConsumeTag_def del: of_nat_add of_nat_mult)
qed (simp_all add: std_ConsumeVarint_varint std_ConsumeBytes_delimited enc_delimited_def std_ConsumeFieldValue_def VarintType_def BytesType_def)

lemma std_wire_base:
  "enc_varint std_wire = enc_varint std_base" "enc_tag std_wire = enc_tag std_base"
  "enc_delimited std_wire = enc_delimited std_base" "enc_WatchResponse std_wire = enc_WatchResponse std_base"
proof -
  show 1: "enc_varint std_wire = enc_varint std_base" by (simp add: fun_eq_iff enc_varint_def std_wire_def)
  show 2: "enc_tag std_wire = enc_tag std_base" by (simp add: fun_eq_iff enc_tag_def 1)
  show 3: "enc_delimited std_wire = enc_delimited std_base" by (simp add: fun_eq_iff enc_delimited_def 1)
  have 4: "enc_varint_field std_wire = enc_varint_field std_base" "enc_bytes_field std_wire = enc_bytes_field std_base"
    "enc_message_field std_wire = enc_message_field std_base"
    by (simp_all add: fun_eq_iff enc_varint_field_def enc_bytes_field_def enc_message_field_def 1 2 3)
  have 5: "enc_Event std_wire = enc_Event std_base"
    by (simp add: fun_eq_iff enc_Event_def enc_KeyValue_def 4 split: option.splits)
  show "enc_WatchResponse std_wire = enc_WatchResponse std_base"
    by (simp add: fun_eq_iff enc_WatchResponse_def 4 5)
qed

interpretation std: proto_codec std_wire
proof
  have loggable: "loggable std_wire = loggable std_base" by (simp add: fun_eq_iff loggable_def std_wire_base)
  show "loggable std_wire rv evs \<Longrightarrow> pb_Marshal std_wire rv evs = Inr (enc_WatchResponse std_wire rv evs)" for rv evs
    by (simp add: std_wire_def std_wire_base[unfolded std_wire_def])
  show "loggable std_wire rv evs \<Longrightarrow> pb_Unmarshal std_wire (enc_WatchResponse std_wire rv evs) = Inr evs" for rv evs
    unfolding loggable std_wire_base using std0.DecodeAlias_roundtrip[of rv evs] by (simp add: std_wire_def)
qed (use std0.AppendVarint std0.varint_nonempty std0.ConsumeVarint std0.ConsumeVarint_truncated std0.ConsumeBytes
    std0.ConsumeTag std0.ConsumeFieldValue_varint std0.ConsumeFieldValue_bytes std_wire_base in
    \<open>simp_all add: std_wire_def\<close>)

subsection \<open>Properties\<close>

text \<open>C22: Recovery of a torn file.  Scanning a file that holds the header, the records \<^verbatim>\<open>xs\<close> and then
  any proper prefix of one more encoded record (a write that was cut short) returns exactly the
  revisions of \<^verbatim>\<open>xs\<close>, a span for each of them that locates the bytes of its message, and the length of
  the file up to the last complete record.\<close>

theorem Scan_recovers:
  assumes "wire_format w" and "\<forall>x \<in> set xs. recordable w x" and "torn w tail"
  shows "\<exists>spans. Scan w (magic @ enc_records w xs @ tail) = Inr (spans, map fst xs, length (magic @ enc_records w xs))
    \<and> length spans = length xs
    \<and> (\<forall>i < length xs. span_bytes (spans ! i) (magic @ enc_records w xs @ tail) = enc_message w (xs ! i))"
  using wire_format.Scan_records[OF assms] span_bytes_at[of _ xs w magic tail] by auto

lemma std_length_varint: "length (enc_varint std_base v) \<le> 10"
  using length_varint[OF unat64_less] by simp

lemma std_length_varint_field: "length (enc_varint_field std_base n v) \<le> 20"
  using std_length_varint[of v] std_length_varint[of "of_nat (8 * n + VarintType)"]
  by (simp add: enc_varint_field_def enc_tag_def del: std_enc_varint)

lemma std_length_message_field: "length (enc_message_field std_base n bs) \<le> 20 + length bs"
  using std_length_varint[of "of_nat (length bs)"] std_length_varint[of "of_nat (8 * n + BytesType)"]
  by (simp add: enc_message_field_def enc_delimited_def enc_tag_def del: std_enc_varint)

lemma std_length_bytes_field: "length (enc_bytes_field std_base n bs) \<le> 20 + length bs"
  using std_length_message_field[of n bs] by (simp add: enc_bytes_field_def enc_message_field_def)

lemma std_length_KeyValue: "length (enc_KeyValue std_base kv) \<le> 120 + length (kv_key kv) + length (kv_value kv)"
  using std_length_bytes_field[of 1 "kv_key kv"] std_length_bytes_field[of 5 "kv_value kv"]
    std_length_varint_field[of 2 "kv_createRevision kv"] std_length_varint_field[of 3 "kv_modRevision kv"]
    std_length_varint_field[of 4 "kv_version kv"] std_length_varint_field[of 6 "kv_lease kv"]
  unfolding enc_KeyValue_def length_append by linarith

lemma std_length_Event:
  "length (enc_Event std_base ev) \<le> 300 + length (kv_key (ev_kv ev)) + length (kv_value (ev_kv ev))
     + (case ev_prevKv ev of None \<Rightarrow> 0 | Some kv \<Rightarrow> length (kv_key kv) + length (kv_value kv))"
proof -
  have "length (case ev_prevKv ev of None \<Rightarrow> [] | Some kv \<Rightarrow> enc_message_field std_base 3 (enc_KeyValue std_base kv))
      \<le> 140 + (case ev_prevKv ev of None \<Rightarrow> 0 | Some kv \<Rightarrow> length (kv_key kv) + length (kv_value kv))"
  proof (cases "ev_prevKv ev")
    case (Some kv)
    then show ?thesis using std_length_message_field[of 3 "enc_KeyValue std_base kv"] std_length_KeyValue[of kv] by simp
  qed simp
  then show ?thesis
    using std_length_varint_field[of 1 "event_type_value (ev_type ev)"]
      std_length_message_field[of 2 "enc_KeyValue std_base (ev_kv ev)"] std_length_KeyValue[of "ev_kv ev"]
    unfolding enc_Event_def length_append by linarith
qed

definition sample_record :: "byte \<Rightarrow> LogRecord" where
  "sample_record c = \<lparr> lr_events = [\<lparr> ev_type = DELETE, ev_kv = \<lparr> kv_key = [c], kv_createRevision = 0,
      kv_modRevision = 3, kv_version = 0, kv_value = [], kv_lease = 0 \<rparr>,
      ev_prevKv = Some \<lparr> kv_key = [c], kv_createRevision = 2, kv_modRevision = 2, kv_version = 1, kv_value = [7], kv_lease = 9 \<rparr> \<rparr>] \<rparr>"

lemma sample_recordable: "recordable std_wire (3, sample_record 5)"
proof -
  have "length (enc_WatchResponse std_base 3 (lr_events (sample_record 5))) < 400"
    unfolding enc_WatchResponse_def sample_record_def
    by (simp, rule le_less_trans[OF add_mono[OF std_length_message_field std_length_message_field]])
      (use std_length_varint_field[of 3 3] std_length_Event[of "hd (lr_events (sample_record 5))"] in
        \<open>simp add: sample_record_def\<close>)
  then show ?thesis by (simp add: recordable_def loggable_def fits_def sample_record_def std_wire_base)
qed

lemma sample_torn: "torn std_wire [3, 1]"
proof -
  have "strict_prefix [3, 1] (enc_delimited std_wire [1, 2, 3])" by code_simp
  moreover have "fits [1, 2, 3]" by (simp add: fits_def)
  ultimately show ?thesis unfolding torn_def by blast
qed

theorem Scan_recovers_witness:
  "\<exists>spans. Scan std_wire (magic @ enc_records std_wire [(3, sample_record 5)] @ [3, 1])
     = Inr (spans, [3], length (magic @ enc_records std_wire [(3, sample_record 5)]))"
  using Scan_recovers[OF std.wire_format_axioms _ sample_torn, of "[(3, sample_record 5)]"] sample_recordable by auto

text \<open>C2: Round trip of a batch.  What \<^verbatim>\<open>Encode\<close> writes for records of puts and deletes, with revisions
  from \<^verbatim>\<open>first\<close> on, \<^verbatim>\<open>Decode\<close> reads back, \<^verbatim>\<open>DecodeRecord\<close> reads back one record at a time, and \<^verbatim>\<open>Offsets\<close>
  returns their revisions without decoding them.\<close>

theorem Encode_roundtrip:
  assumes "proto_codec w" and "\<forall>x \<in> set (zip (map (\<lambda>i. first + of_nat i) [0..<length rs]) rs). recordable w x"
  shows "\<exists>data. Encode w first rs = Inr data \<and> Decode w data = Inr rs
    \<and> (\<forall>i < length rs. DecodeRecord w data i = Inr (rs ! i))
    \<and> (\<exists>spans. Offsets w data = Inr (spans, map (\<lambda>i. first + of_nat i) [0..<length rs]))"
proof -
  let ?revs = "map (\<lambda>i. first + of_nat i) [0..<length rs]" and ?xs = "zip (map (\<lambda>i. first + of_nat i) [0..<length rs]) rs"
  have wf: "wire_format w" using assms(1) by (simp add: proto_codec_def)
  have "Encode w first rs = Inr (magic @ enc_records w ?xs)"
    using proto_codec.AppendRecordsAt_records[OF assms(1), of ?revs rs magic] assms(2)
    by (simp add: Encode_def AppendRecords_def)
  moreover have "map snd ?xs = rs" "map fst ?xs = ?revs" "length ?xs = length rs" by simp_all
  moreover have "snd (?xs ! i) = rs ! i" if "i < length rs" for i using that by simp
  ultimately show ?thesis
    using proto_codec.Decode_records[OF assms] wire_format.Offsets_records[OF wf assms(2)] by auto
qed

theorem Encode_roundtrip_witness:
  "\<exists>data. Encode std_wire 3 [sample_record 5] = Inr data \<and> Decode std_wire data = Inr [sample_record 5]"
  using Encode_roundtrip[OF std.proto_codec_axioms, of 3 "[sample_record 5]"] sample_recordable by auto

text \<open>C3: The aliasing decoder agrees with the library's.  On every message the log writes, \<^verbatim>\<open>DecodeAlias\<close>
  (which parses the fields itself) returns what \<^verbatim>\<open>Decode\<close> (which calls \<^verbatim>\<open>proto.Unmarshal\<close>) returns, the
  record that was encoded; and \<^verbatim>\<open>Revision\<close> reads its revision off the header.\<close>

theorem DecodeAlias_agrees:
  assumes "proto_codec w" and "recordable w x"
  shows "DecodeAlias w (enc_message w x) = EncodedRecord_Decode w (enc_message w x)
    \<and> EncodedRecord_Decode w (enc_message w x) = Inr (snd x)
    \<and> EncodedRecord_Revision w (enc_message w x) = Inr (fst x)"
proof -
  have wf: "wire_format w" using assms(1) by (simp add: proto_codec_def)
  have "loggable w (fst x) (lr_events (snd x))" using assms(2) by (simp add: recordable_def)
  from wire_format.DecodeAlias_roundtrip[OF wf this] show ?thesis
    using proto_codec.Decode_message[OF assms] wire_format.Revision_message[OF wf assms(2)]
    by (simp add: enc_message_def EncodedRecord_Decode_def)
qed

theorem DecodeAlias_agrees_witness:
  "DecodeAlias std_wire (enc_message std_wire (3, sample_record 5)) = Inr (sample_record 5)
   \<and> EncodedRecord_Revision std_wire (enc_message std_wire (3, sample_record 5)) = Inr 3"
  using DecodeAlias_agrees[OF std.proto_codec_axioms sample_recordable] by simp

end
