(* ===== verification/Log_Files.thy ===== *)
theory Log_Files
  imports Mvcc Logcodec "HOL-Library.Char_ord"
begin

text \<open>
  The files of the log: their names, their order, and finding a revision in them
  (\<^verbatim>\<open>fileInfo\<close>, \<^verbatim>\<open>logFile\<close>, \<^verbatim>\<open>listFiles\<close>, \<^verbatim>\<open>position\<close>, \<^verbatim>\<open>findFile\<close> and their helpers in
  \<^verbatim>\<open>src/pkg/persistence/filesystemlog/filesystem_log.go\<close>).

  A directory is an association list from names to contents.  \<^verbatim>\<open>os.ReadDir\<close> lists names in order;
  \<^verbatim>\<open>slices.SortFunc\<close> is insertion sort, which is what the library uses on short slices and what any of
  its algorithms returns up to the order of elements that compare equal.  The memory mapping of closed
  files, the read handles and the creation time of a file are not part of a \<^verbatim>\<open>logFile\<close> here: reads go to
  the contents of the file, and the age of the active file is an argument of \<^verbatim>\<open>tick\<close>.
\<close>

subsection \<open>File names\<close>

record fileInfo =
  fi_first :: revision
  fi_last :: revision
  fi_sparse :: bool

text \<open>\<^verbatim>\<open>fmt.Sprintf("%016x", v)\<close> and \<^verbatim>\<open>strconv.ParseUint(s, 16, 64)\<close>.\<close>

definition hex_digit :: "nat \<Rightarrow> char" where
  "hex_digit d = (if d < 10 then char_of (48 + d) else char_of (87 + d))"

primrec hexn :: "nat \<Rightarrow> nat \<Rightarrow> string" where
  "hexn 0 n = []"
| "hexn (Suc k) n = hexn k (n div 16) @ [hex_digit (n mod 16)]"

definition hex16 :: "revision \<Rightarrow> string" where
  "hex16 v = hexn 16 (unat v)"

definition hex_val :: "char \<Rightarrow> nat option" where
  "hex_val c = (let n = of_char c :: nat in
     if 48 \<le> n \<and> n \<le> 57 then Some (n - 48)
     else if 97 \<le> n \<and> n \<le> 102 then Some (n - 87)
     else if 65 \<le> n \<and> n \<le> 70 then Some (n - 55)
     else None)"

definition parse_step :: "nat option \<Rightarrow> char \<Rightarrow> nat option" where
  "parse_step acc c =
     (case acc of
        None \<Rightarrow> None
      | Some a \<Rightarrow> (case hex_val c of None \<Rightarrow> None | Some d \<Rightarrow> if a * 16 + d < 2 ^ 64 then Some (a * 16 + d) else None))"

definition ParseUint16 :: "string \<Rightarrow> revision option" where
  "ParseUint16 s = (if s = [] then None else map_option of_nat (foldl parse_step (Some 0) s))"

definition filename :: "fileInfo \<Rightarrow> string" where
  "filename fi = (if fi_sparse fi then hex16 (fi_first fi) @ ''-'' @ hex16 (fi_last fi) @ ''.log''
     else hex16 (fi_first fi) @ ''.log'')"

definition parseFilename :: "string \<Rightarrow> error + fileInfo" where
  "parseFilename name =
     (if \<not> suffix ''.log'' name then Inl (Errorf ''invalid filename format'')
      else let base = take (length name - 4) name;
               head = takeWhile (\<lambda>c. c \<noteq> CHR ''-'') base;
               tail = drop (length head) base
           in case ParseUint16 head of
                None \<Rightarrow> Inl (Errorf ''invalid filename format'')
              | Some first \<Rightarrow>
                  if tail = [] then Inr \<lparr> fi_first = first, fi_last = 0, fi_sparse = False \<rparr>
                  else case ParseUint16 (tl tail) of
                         None \<Rightarrow> Inl (Errorf ''invalid filename format'')
                       | Some until \<Rightarrow>
                           if until < first then Inl (Errorf ''invalid filename format'')
                           else Inr \<lparr> fi_first = first, fi_last = until, fi_sparse = True \<rparr>)"

subsection \<open>Files\<close>

record logFile = fileInfo +
  lf_name :: string
  lf_count :: nat
  lf_size :: nat
  lf_archived :: bool
  lf_indexed :: bool
  lf_spans :: "Span list"
  lf_revisions :: "revision list option"

type_synonym directory = "(string \<times> bytes) list"

definition ReadDir :: "directory \<Rightarrow> string list" where
  "ReadDir d = sort (map fst d)"

definition new_logFile :: "fileInfo \<Rightarrow> string \<Rightarrow> logFile" where
  "new_logFile fi name = \<lparr> fi_first = fi_first fi, fi_last = fi_last fi, fi_sparse = fi_sparse fi, lf_name = name,
     lf_count = 0, lf_size = 0, lf_archived = False, lf_indexed = False, lf_spans = [], lf_revisions = None \<rparr>"

text \<open>The comparison \<^verbatim>\<open>listFiles\<close> sorts by; the difference of two \<^verbatim>\<open>int\<close>s wraps around.\<close>

definition cmp_files :: "logFile \<Rightarrow> logFile \<Rightarrow> int" where
  "cmp_files a b =
     (if fi_first a \<noteq> fi_first b then sint (fi_first a - fi_first b)
      else if fi_sparse a \<noteq> fi_sparse b then (if fi_sparse a then -1 else 1)
      else 0)"

definition insert_file :: "logFile list \<Rightarrow> logFile \<Rightarrow> logFile list" where
  "insert_file fs f =
     rev (dropWhile (\<lambda>g. cmp_files f g < 0) (rev fs)) @ [f] @ rev (takeWhile (\<lambda>g. cmp_files f g < 0) (rev fs))"

definition sort_files :: "logFile list \<Rightarrow> logFile list" where
  "sort_files fs = foldl insert_file [] fs"

definition parse_entries :: "string list \<Rightarrow> logFile list" where
  "parse_entries names =
     List.map_filter (\<lambda>name. case parseFilename name of Inl e \<Rightarrow> None | Inr fi \<Rightarrow> Some (new_logFile fi name)) names"

text \<open>The second loop of \<^verbatim>\<open>listFiles\<close>: the files kept, and the names of those removed.\<close>

definition keep_step :: "logFile list \<times> string list \<Rightarrow> logFile \<Rightarrow> logFile list \<times> string list" where
  "keep_step s f =
     (if fst s \<noteq> [] \<and> fi_sparse (last (fst s)) \<and> fi_first (last (fst s)) \<le> fi_first f \<and> fi_first f \<le> fi_last (last (fst s))
      then (fst s, snd s @ [lf_name f])
      else (fst s @ [f], snd s))"

definition listFiles :: "directory \<Rightarrow> directory \<times> logFile list" where
  "listFiles d =
     (let (kept, removed) = foldl keep_step ([], []) (sort_files (parse_entries (ReadDir d)))
      in (fold AList.delete removed d, kept))"

definition superseded :: "logFile list \<Rightarrow> revision \<Rightarrow> bool" where
  "superseded fs first = list_ex (\<lambda>f. fi_sparse f \<and> fi_first f \<le> first \<and> first \<le> fi_last f) fs"

text \<open>
  \<^verbatim>\<open>position\<close>: the index of a revision's record in an indexed file.  In a dense file
  \<^verbatim>\<open>int(revision - f.first)\<close> is negative when the difference is \<^verbatim>\<open>2^63\<close> or more.
\<close>

definition position :: "logFile \<Rightarrow> revision \<Rightarrow> error + nat" where
  "position f revision =
     (if \<not> fi_sparse f
      then let pos = sint (revision - fi_first f)
           in if pos < 0 \<or> pos \<ge> int (length (lf_spans f)) then Inl (Errorf ''log entry not found in file'')
              else Inr (nat pos)
      else let revs = (case lf_revisions f of None \<Rightarrow> [] | Some rs \<Rightarrow> rs);
               pos = go_search (length revs) (\<lambda>i. revs ! i \<ge> revision)
           in if pos \<ge> length revs \<or> revs ! pos \<noteq> revision then Inl (Wrap ''revision'' ErrCompacted)
              else Inr pos)"

definition revisionAt :: "logFile \<Rightarrow> nat \<Rightarrow> revision" where
  "revisionAt f i = (case lf_revisions f of Some rs \<Rightarrow> rs ! i | None \<Rightarrow> fi_first f + of_nat i)"

text \<open>\<^verbatim>\<open>findFile\<close>: from the end, the first file that starts at or before the revision.\<close>

definition findFile :: "logFile list \<Rightarrow> revision \<Rightarrow> logFile option" where
  "findFile fs revision =
     (case find (\<lambda>f. fi_first f \<le> revision) (rev fs) of
        None \<Rightarrow> None
      | Some f \<Rightarrow> if revision \<le> fi_last f then Some f else None)"

subsection \<open>Names\<close>

lemma hex_val_digit: "d < 16 \<Longrightarrow> hex_val (hex_digit d) = Some d"
  by (simp add: hex_val_def hex_digit_def Let_def)

lemma hexn_length [simp]: "length (hexn k n) = k"
  by (induction k arbitrary: n) auto

lemma hexn_nonempty [simp]: "hex16 v \<noteq> []"
  by (metis hex16_def hexn_length length_0_conv zero_neq_numeral)

lemma parse_step_digit: "d < 16 \<Longrightarrow> a * 16 + d < 2 ^ 64 \<Longrightarrow> parse_step (Some a) (hex_digit d) = Some (a * 16 + d)"
  by (simp add: parse_step_def hex_val_digit)

lemma parse_hexn: "n < 16 ^ k \<Longrightarrow> n < 2 ^ 64 \<Longrightarrow> foldl parse_step (Some 0) (hexn k n) = Some n"
proof (induction k arbitrary: n)
  case (Suc k)
  have "n div 16 < 16 ^ k" "n div 16 < 2 ^ 64" using Suc.prems by (simp_all add: less_mult_imp_div_less)
  from Suc.IH[OF this] show ?case
    using Suc.prems(2) parse_step_digit[of "n mod 16" "n div 16"] by simp
qed simp

lemma ParseUint16_hex16 [simp]: "ParseUint16 (hex16 v) = Some v"
proof -
  have "unat v < 2 ^ 64" by (rule unat64_less)
  then show ?thesis using parse_hexn[of "unat v" 16] by (simp add: ParseUint16_def hex16_def[symmetric])
qed

lemma hex_digit_no_dash: "d < 16 \<Longrightarrow> hex_digit d \<noteq> CHR ''-''"
  using hex_val_digit[of d] by (auto simp: hex_val_def)

lemma hexn_no_dash: "CHR ''-'' \<notin> set (hexn k n)"
  by (induction k arbitrary: n) (simp_all add: hex_digit_no_dash[symmetric])

lemma takeWhile_hex: "takeWhile (\<lambda>c. c \<noteq> CHR ''-'') (hex16 v) = hex16 v"
  unfolding takeWhile_eq_all_conv hex16_def using hexn_no_dash[of 16 "unat v"] by metis

lemma takeWhile_hex_dash: "takeWhile (\<lambda>c. c \<noteq> CHR ''-'') (hex16 v @ CHR ''-'' # s) = hex16 v"
proof -
  have "c \<in> set (hex16 v) \<Longrightarrow> c \<noteq> CHR ''-''" for c unfolding hex16_def using hexn_no_dash[of 16 "unat v"] by metis
  then show ?thesis by (subst takeWhile_append2) simp_all
qed

lemma parseFilename_filename:
  assumes "fi_sparse fi \<longrightarrow> fi_first fi \<le> fi_last fi"
  shows "parseFilename (filename fi) = Inr (if fi_sparse fi then fi else fi \<lparr> fi_last := 0 \<rparr>)"
proof (cases "fi_sparse fi")
  case True
  have base: "take (length (filename fi) - 4) (filename fi) = hex16 (fi_first fi) @ CHR ''-'' # hex16 (fi_last fi)"
    using True by (simp add: filename_def)
  have suf: "suffix ''.log'' (filename fi)" using True by (auto simp: filename_def suffix_def)
  show ?thesis using True assms suf unfolding parseFilename_def base
    by (cases fi) (simp add: takeWhile_hex_dash Let_def)
next
  case False
  have base: "take (length (filename fi) - 4) (filename fi) = hex16 (fi_first fi)"
    using False by (simp add: filename_def)
  have suf: "suffix ''.log'' (filename fi)" using False by (auto simp: filename_def suffix_def)
  show ?thesis using False suf unfolding parseFilename_def base
    by (cases fi) (simp add: takeWhile_hex Let_def)
qed

text \<open>Names sort in revision order.\<close>

lemma hex_digit_mono: "a < b \<Longrightarrow> b < 16 \<Longrightarrow> hex_digit a < hex_digit b"
  by (simp add: hex_digit_def less_char_def)

lemma list_less_append_same: "length a = length b \<Longrightarrow> (a :: string) < b \<Longrightarrow> a @ x < b @ y"
  by (induction a b rule: list_induct2) auto

lemma list_append_less: "(a :: string) @ x < a @ y \<longleftrightarrow> x < y"
  by (induction a) auto

lemma hexn_mono: "m < n \<Longrightarrow> n < 16 ^ k \<Longrightarrow> hexn k m < hexn k n"
proof (induction k arbitrary: m n)
  case (Suc k)
  have n: "n div 16 < 16 ^ k" using Suc.prems by (simp add: less_mult_imp_div_less)
  show ?case
  proof (cases "m div 16 = n div 16")
    case True
    then have "m mod 16 < n mod 16" using Suc.prems(1) by (metis div_mult_mod_eq nat_add_left_cancel_less)
    then show ?thesis using True hex_digit_mono[of "m mod 16" "n mod 16"] by (simp add: list_append_less)
  next
    case False
    then have "m div 16 < n div 16" using Suc.prems(1) by (metis div_le_mono le_neq_implies_less less_imp_le)
    then have "hexn k (m div 16) < hexn k (n div 16)" using n by (rule Suc.IH)
    then show ?thesis by (simp add: list_less_append_same)
  qed
qed simp

lemma hex16_mono: "a < b \<Longrightarrow> hex16 a < hex16 b"
  using hexn_mono[of "unat a" "unat b" 16] unat64_less[of b] by (simp add: hex16_def word_less_nat_alt)

lemma filename_mono:
  assumes "fi_first a < fi_first b" shows "filename a < filename b"
proof -
  have "length (hex16 (fi_first a)) = length (hex16 (fi_first b))" by (simp add: hex16_def)
  from list_less_append_same[OF this hex16_mono[OF assms]] show ?thesis by (simp add: filename_def)
qed

subsection \<open>Sorting\<close>

lemma sort_files_id: "sorted_wrt (\<lambda>a b. cmp_files b a \<ge> 0) fs \<Longrightarrow> sort_files fs = fs"
proof -
  have "foldl insert_file acc fs = acc @ fs" if "sorted_wrt (\<lambda>a b. cmp_files b a \<ge> 0) (acc @ fs)" for acc
    using that
  proof (induction fs arbitrary: acc)
    case (Cons f fs)
    have "takeWhile (\<lambda>g. cmp_files f g < 0) (rev acc) = []"
      using Cons.prems by (cases "rev acc") (auto simp: sorted_wrt_append takeWhile_eq_Nil_iff dest!: arg_cong[of _ _ rev])
    moreover have "dropWhile (\<lambda>g. cmp_files f g < 0) (rev acc) = rev acc"
      using calculation by (simp add: takeWhile_eq_Nil_iff dropWhile_eq_self_iff)
    ultimately have "insert_file acc f = acc @ [f]" by (simp add: insert_file_def)
    then show ?case using Cons.IH[of "acc @ [f]"] Cons.prems by simp
  qed simp
  from this[of "[]"] show "sorted_wrt (\<lambda>a b. cmp_files b a \<ge> 0) fs \<Longrightarrow> sort_files fs = fs" by (simp add: sort_files_def)
qed

lemma sint_small: "unat (x :: 64 word) < 2 ^ 63 \<Longrightarrow> sint x = int (unat x)"
proof -
  assume "unat x < 2 ^ 63"
  then have "int (unat x) < int (2 ^ 63)" by (simp only: of_nat_less_iff)
  then have "uint x < 2 ^ 63" by simp
  moreover have "0 \<le> uint x" by simp
  ultimately have "signed_take_bit 63 (uint x) = uint x" by (intro signed_take_bit_int_eq_self) linarith+
  then show ?thesis by (simp add: sint_uint)
qed

lemma cmp_files_ge:
  assumes "fi_first a < fi_first b" and "unat (fi_first b) < 2 ^ 63"
  shows "cmp_files b a \<ge> 0"
proof -
  have ne: "fi_first b \<noteq> fi_first a" using assms(1) by auto
  have "unat (fi_first b - fi_first a) < 2 ^ 63" using assms by (simp add: unat_sub word_less_nat_alt less_imp_le word_le_nat_alt)
  then have "sint (fi_first b - fi_first a) = int (unat (fi_first b - fi_first a))"
    by (rule sint_small)
  with ne show ?thesis by (simp add: cmp_files_def)
qed

subsection \<open>Finding a record\<close>

lemma position_dense:
  assumes "\<not> fi_sparse f" and "unat (fi_first f) \<le> unat r" and "unat r < unat (fi_first f) + length (lf_spans f)"
    and "length (lf_spans f) < 2 ^ 63"
  shows "position f r = Inr (unat r - unat (fi_first f))"
proof -
  define k where "k = unat r - unat (fi_first f)"
  have k: "k < length (lf_spans f)" using assms(2,3) by (simp add: k_def)
  have u: "unat (r - fi_first f) = k" using assms(2) by (simp add: unat_sub word_le_nat_alt k_def)
  have "unat (r - fi_first f) < 2 ^ 63" unfolding u using k assms(4) by linarith
  then have s: "sint (r - fi_first f) = int k" unfolding u[symmetric] by (rule sint_small)
  show ?thesis using assms(1) k unfolding k_def[symmetric] position_def s by simp
qed

lemma position_sparse:
  assumes "fi_sparse f" and "lf_revisions f = Some rs" and "sorted_wrt (<) rs"
  shows "position f r = (if r \<in> set rs then Inr (length (takeWhile (\<lambda>x. x < r) rs)) else Inl (Wrap ''revision'' ErrCompacted))"
    and "r \<in> set rs \<Longrightarrow> length (takeWhile (\<lambda>x. x < r) rs) < length rs \<and> rs ! length (takeWhile (\<lambda>x. x < r) rs) = r"
proof -
  let ?n = "length (takeWhile (\<lambda>x. x < r) rs)"
  have mono: "\<forall>a b. a \<le> b \<and> b < length rs \<and> rs ! a \<ge> r \<longrightarrow> rs ! b \<ge> r"
    using assms(3) by (metis (no_types, lifting) le_neq_implies_less less_imp_le order_trans sorted_wrt_iff_nth_less)
  have s: "go_search (length rs) (\<lambda>i. rs ! i \<ge> r) = ?n"
    using go_search_takeWhile[of rs "\<lambda>x. x \<ge> r"] mono by (simp add: not_le)
  show found: "r \<in> set rs \<Longrightarrow> ?n < length rs \<and> rs ! ?n = r"
  proof -
    assume "r \<in> set rs"
    then obtain i where i: "i < length rs" "rs ! i = r" by (meson in_set_conv_nth)
    have "\<not> i < ?n" using i set_takeWhileD[OF nth_mem, of i "\<lambda>x. x < r" rs] by (auto simp: takeWhile_nth)
    then have n: "?n < length rs" using i by simp
    then have "\<not> rs ! ?n < r" using nth_length_takeWhile[of "\<lambda>x. x < r" rs] by simp
    moreover have "rs ! ?n \<le> r" using \<open>\<not> i < ?n\<close> i assms(3)
      by (metis le_neq_implies_less less_imp_le nle_le not_le sorted_wrt_iff_nth_less)
    ultimately show ?thesis using n by simp
  qed
  have nf: "?n \<ge> length rs \<or> rs ! ?n \<noteq> r" if "r \<notin> set rs" using that nth_mem[of ?n rs] by (metis not_le)
  show "position f r = (if r \<in> set rs then Inr ?n else Inl (Wrap ''revision'' ErrCompacted))"
  proof (cases "r \<in> set rs")
    case True
    then show ?thesis using assms(1,2) found[OF True] by (simp add: position_def s Let_def)
  next
    case False
    then show ?thesis using assms(1,2) nf[OF False] by (simp add: position_def s Let_def)
  qed
qed

text \<open>\<^verbatim>\<open>chain a fs b\<close>: the files cover the revisions from \<^verbatim>\<open>a\<close> to \<^verbatim>\<open>b\<close>, one after the other.\<close>

fun chain :: "nat \<Rightarrow> logFile list \<Rightarrow> nat \<Rightarrow> bool" where
  "chain a [] b \<longleftrightarrow> a = Suc b"
| "chain a (f # fs) b \<longleftrightarrow> unat (fi_first f) = a \<and> a \<le> Suc (unat (fi_last f)) \<and> chain (Suc (unat (fi_last f))) fs b"

lemma chain_append: "0 < a \<Longrightarrow> chain a (fs @ gs) b \<longleftrightarrow> (\<exists>m. chain a fs m \<and> chain (Suc m) gs b)"
proof (induction a fs b rule: chain.induct)
  case (1 a b)
  then show ?case by (cases a) auto
qed auto

lemma chain_le: "chain a fs b \<Longrightarrow> a \<le> Suc b"
  by (induction a fs b rule: chain.induct) auto

lemma chain_mem: "chain a fs b \<Longrightarrow> f \<in> set fs \<Longrightarrow> a \<le> unat (fi_first f) \<and> unat (fi_last f) \<le> b"
proof (induction a fs b rule: chain.induct)
  case (2 a g fs b)
  then show ?case using chain_le[of "Suc (unat (fi_last g))" fs b] by auto
qed simp

lemma findFile_chain:
  assumes "chain a fs b" and "a \<le> unat r" and "unat r \<le> b" and a: "0 < a"
  shows "\<exists>f xs ys. findFile fs r = Some f \<and> fs = xs @ f # ys \<and> unat (fi_first f) \<le> unat r \<and> unat r \<le> unat (fi_last f)"
  using assms(1-3)
proof (induction fs arbitrary: b rule: rev_induct)
  case (snoc f fs)
  obtain m where m: "chain a fs m" "unat (fi_first f) = Suc m" "b = unat (fi_last f)"
    using snoc.prems(1) by (auto simp: chain_append[OF a])
  show ?case
  proof (cases "fi_first f \<le> r")
    case True
    then have "findFile (fs @ [f]) r = Some f" using snoc.prems(3) m(3) by (simp add: findFile_def word_le_nat_alt)
    then show ?thesis using True snoc.prems(3) m(3) by (auto simp: word_le_nat_alt)
  next
    case False
    then have "findFile (fs @ [f]) r = findFile fs r" by (simp add: findFile_def)
    moreover have "unat r \<le> m" using False m(2) by (simp add: word_le_nat_alt)
    ultimately show ?thesis using snoc.IH[OF m(1) snoc.prems(2)] by force
  qed
qed simp

lemma findFile_beyond:
  assumes "chain 1 fs b" and "unat r = 0 \<or> b < unat r"
  shows "findFile fs r = None"
proof (cases "find (\<lambda>f. fi_first f \<le> r) (rev fs)")
  case (Some f)
  then obtain i where "i < length (rev fs)" "rev fs ! i = f" "fi_first f \<le> r" by (auto simp: find_Some_iff)
  then have f: "f \<in> set fs" "fi_first f \<le> r" by (metis nth_mem set_rev, simp)
  then have "1 \<le> unat (fi_first f)" "unat (fi_last f) \<le> b" using chain_mem[OF assms(1)] by auto
  then show ?thesis using Some assms(2) f by (auto simp: findFile_def word_le_nat_alt)
qed (simp add: findFile_def)

subsection \<open>Listing a directory\<close>

text \<open>What \<^verbatim>\<open>listFiles\<close> knows of a file: its name and what the name says.\<close>

definition listed :: "logFile \<Rightarrow> logFile" where
  "listed f = new_logFile \<lparr> fi_first = fi_first f, fi_last = (if fi_sparse f then fi_last f else 0), fi_sparse = fi_sparse f \<rparr> (lf_name f)"

definition named :: "logFile \<Rightarrow> bool" where
  "named f \<longleftrightarrow> lf_name f = filename (fileInfo.truncate f) \<and> (fi_sparse f \<longrightarrow> fi_first f \<le> fi_last f)"

lemma parse_named: "named f \<Longrightarrow> parseFilename (lf_name f) = Inr \<lparr> fi_first = fi_first f, fi_last = (if fi_sparse f then fi_last f else 0), fi_sparse = fi_sparse f \<rparr>"
  using parseFilename_filename[of "fileInfo.truncate f"] by (auto simp: named_def fileInfo.truncate_def)

lemma keep_all:
  assumes "successively (\<lambda>p f. fi_sparse p \<longrightarrow> fi_last p < fi_first f) fs"
  shows "foldl keep_step ([], rm) fs = (fs, rm)"
proof -
  have "foldl keep_step (acc, rm) fs = (acc @ fs, rm)"
    if "successively (\<lambda>p f. fi_sparse p \<longrightarrow> fi_last p < fi_first f) (acc @ fs)" for acc
    using that
  proof (induction fs arbitrary: acc)
    case (Cons f fs)
    have "keep_step (acc, rm) f = (acc @ [f], rm)"
      using Cons.prems by (cases acc rule: rev_cases) (auto simp: keep_step_def successively_append_iff)
    then show ?case using Cons.IH[of "acc @ [f]"] Cons.prems by simp
  qed simp
  from this[of "[]"] assms show ?thesis by simp
qed

lemma listFiles_consistent:
  assumes names: "set (map lf_name fs) = {n \<in> set (map fst d). \<exists>fi. parseFilename n = Inr fi}"
    and d: "distinct (map fst d)" and nm: "\<forall>f \<in> set fs. named f"
    and ord: "sorted_wrt (\<lambda>f g. fi_first f < fi_first g) fs" and small: "\<forall>f \<in> set fs. unat (fi_first f) < 2 ^ 63"
    and sp: "successively (\<lambda>p f. fi_sparse p \<longrightarrow> fi_last p < fi_first f) fs"
  shows "listFiles d = (d, map listed fs)"
proof -
  let ?P = "\<lambda>n. \<exists>fi. parseFilename n = Inr fi"
  let ?g = "\<lambda>name. case parseFilename name of Inl e \<Rightarrow> None | Inr fi \<Rightarrow> Some (new_logFile fi name)"
  have mf: "List.map_filter ?g ns = List.map_filter ?g (filter ?P ns)" for ns
    by (induction ns) (auto simp: map_filter_simps split: sum.splits)
  have lt: "sorted_wrt (<) (map lf_name fs)"
    unfolding sorted_wrt_map
    by (rule sorted_wrt_mono_rel[OF _ ord]) (use nm filename_mono in \<open>auto simp: named_def fileInfo.truncate_def\<close>)
  have "sorted (map lf_name fs)" "distinct (map lf_name fs)" using lt strict_sorted_iff by blast+
  moreover have "sorted (filter ?P (sort (map fst d)))" "distinct (filter ?P (sort (map fst d)))"
    using d by (simp_all add: sorted_wrt_filter)
  moreover have "set (map lf_name fs) = set (filter ?P (sort (map fst d)))" unfolding names by auto
  ultimately have "filter ?P (sort (map fst d)) = map lf_name fs" by (intro sorted_distinct_set_unique) simp_all
  then have "parse_entries (ReadDir d) = List.map_filter ?g (map lf_name fs)"
    unfolding parse_entries_def ReadDir_def by (subst mf) simp
  also have "\<dots> = map listed fs"
    using nm by (induction fs) (simp_all add: map_filter_simps parse_named listed_def)
  finally have pe: "parse_entries (ReadDir d) = map listed fs" .
  have first [simp]: "fi_first (listed f) = fi_first f" "fi_sparse (listed f) = fi_sparse f" for f
    by (simp_all add: listed_def new_logFile_def)
  have "sorted_wrt (\<lambda>a b. cmp_files b a \<ge> 0) (map listed fs)"
    unfolding sorted_wrt_map
    by (rule sorted_wrt_mono_rel[OF _ ord]) (use small cmp_files_ge in auto)
  then have so: "sort_files (map listed fs) = map listed fs" by (rule sort_files_id)
  have "successively (\<lambda>p f. fi_sparse p \<longrightarrow> fi_last p < fi_first f) (map listed fs)"
    unfolding successively_map by (rule successively_mono[OF sp]) (auto simp: listed_def new_logFile_def)
  from keep_all[OF this, of "[]"] show ?thesis by (simp add: listFiles_def pe so)
qed

subsection \<open>Properties\<close>


end
