(* ===== verification/Record_Cache.thy ===== *)
theory Record_Cache
  imports Mvcc
begin

text \<open>
  The byte-budgeted LRU cache of decoded records, \<^verbatim>\<open>src/pkg/persistence/recordcache/recordcache.go\<close>.

  The linked list \<^verbatim>\<open>ll\<close> is a list of elements, front first; an element has an identity (a number), since
  the map \<^verbatim>\<open>items\<close> points from a revision to an element of the list.  Byte counts are integers: they are
  bounded by the memory of the process, far below the range of \<^verbatim>\<open>int64\<close>.  Every event of a record has its
  \<^verbatim>\<open>Kv\<close>, so that of the two \<^verbatim>\<open>nil\<close> tests of \<^verbatim>\<open>Size\<close> only the one on \<^verbatim>\<open>PrevKv\<close> remains.
\<close>

subsection \<open>The cache\<close>

record item =
  it_revision :: revision
  it_record :: LogRecord
  it_size :: int

record Cache =
  c_budget :: int
  c_used :: int
  c_ll :: "(nat \<times> item) list"
  c_items :: "revision \<rightharpoonup> nat"
  c_next :: nat

definition Cache_New :: "int \<Rightarrow> Cache" where
  "Cache_New budgetBytes = \<lparr> c_budget = budgetBytes, c_used = 0, c_ll = [], c_items = Map.empty, c_next = 0 \<rparr>"

definition kv_len :: "KeyValue \<Rightarrow> int" where
  "kv_len kv = int (length (kv_key kv) + length (kv_value kv))"

definition Size :: "LogRecord \<Rightarrow> int" where
  "Size r = foldl (\<lambda>n e. n + 160 + kv_len (ev_kv e)
      + (case ev_prevKv e of None \<Rightarrow> 0 | Some pkv \<Rightarrow> kv_len pkv)) 64 (lr_events r)"

text \<open>\<^verbatim>\<open>container/list\<close>: the element with a given identity, and moving it to the front.\<close>

definition element :: "nat \<Rightarrow> (nat \<times> item) list \<Rightarrow> item option" where
  "element el ll = map_of ll el"

definition MoveToFront :: "nat \<Rightarrow> (nat \<times> item) list \<Rightarrow> (nat \<times> item) list" where
  "MoveToFront el ll =
     (case map_of ll el of None \<Rightarrow> ll | Some it \<Rightarrow> (el, it) # filter (\<lambda>(e, i). e \<noteq> el) ll)"

definition Cache_Get :: "Cache \<Rightarrow> revision \<Rightarrow> Cache \<times> LogRecord option" where
  "Cache_Get c revision =
     (case c_items c revision of
        None \<Rightarrow> (c, None)
      | Some el \<Rightarrow> (c \<lparr> c_ll := MoveToFront el (c_ll c) \<rparr>, map_option it_record (element el (c_ll c))))"

definition Cache_Has :: "Cache \<Rightarrow> revision \<Rightarrow> bool" where
  "Cache_Has c revision \<longleftrightarrow> c_items c revision \<noteq> None"

definition removeElement :: "Cache \<Rightarrow> nat \<Rightarrow> Cache" where
  "removeElement c el =
     (case element el (c_ll c) of
        None \<Rightarrow> c
      | Some it \<Rightarrow> c \<lparr> c_ll := filter (\<lambda>(e, i). e \<noteq> el) (c_ll c),
                       c_items := (c_items c)(it_revision it := None),
                       c_used := c_used c - it_size it \<rparr>)"

definition evictOldest :: "Cache \<Rightarrow> Cache" where
  "evictOldest c = (if c_ll c = [] then c else removeElement c (fst (last (c_ll c))))"

text \<open>The loop at the end of \<^verbatim>\<open>Put\<close>; each round that evicts shortens the list.\<close>

function evict_loop :: "Cache \<Rightarrow> Cache" where
  "evict_loop c =
     (if c_budget c > 0 \<and> c_used c > c_budget c \<and> length (c_ll c) > 1 then evict_loop (evictOldest c) else c)"
  by pat_completeness auto
termination
proof (relation "measure (\<lambda>c. length (c_ll c))")
  fix c :: Cache assume "c_budget c > 0 \<and> c_used c > c_budget c \<and> length (c_ll c) > 1"
  then have ne: "c_ll c \<noteq> []" by auto
  obtain it where it: "map_of (c_ll c) (fst (last (c_ll c))) = Some it"
    using ne by (metis last_in_set map_of_eq_None_iff image_eqI option.exhaust)
  have "length (filter (\<lambda>(e, i). e \<noteq> fst (last (c_ll c))) (c_ll c)) < length (c_ll c)"
    by (rule length_filter_less[OF last_in_set[OF ne]]) auto
  then show "(evictOldest c, c) \<in> measure (\<lambda>c. length (c_ll c))"
    using ne it by (simp add: evictOldest_def removeElement_def element_def)
qed simp

declare evict_loop.simps [simp del]

definition Cache_Put :: "Cache \<Rightarrow> revision \<Rightarrow> LogRecord \<Rightarrow> Cache" where
  "Cache_Put c revision r =
     (let size = Size r
      in case c_items c revision of
           Some el \<Rightarrow>
             evict_loop (c \<lparr> c_used := c_used c + size
                              - (case element el (c_ll c) of Some it \<Rightarrow> it_size it | None \<Rightarrow> 0),
                            c_ll := MoveToFront el (map (\<lambda>(e, i). (e, if e = el then i \<lparr> it_record := r, it_size := size \<rparr> else i)) (c_ll c)) \<rparr>)
         | None \<Rightarrow>
             if c_budget c > 0 \<and> size > c_budget c then c
             else evict_loop (c \<lparr> c_items := (c_items c)(revision \<mapsto> c_next c),
                    c_ll := (c_next c, \<lparr> it_revision = revision, it_record = r, it_size = size \<rparr>) # c_ll c,
                    c_next := c_next c + 1, c_used := c_used c + size \<rparr>))"

definition Cache_Remove :: "Cache \<Rightarrow> revision \<Rightarrow> Cache" where
  "Cache_Remove c revision =
     (case c_items c revision of None \<Rightarrow> c | Some el \<Rightarrow> removeElement c el)"

definition Cache_Len :: "Cache \<Rightarrow> nat" where
  "Cache_Len c = length (c_ll c)"

definition Cache_Bytes :: "Cache \<Rightarrow> int" where
  "Cache_Bytes c = c_used c"

subsection \<open>Invariant and abstraction\<close>

definition cache_wf :: "Cache \<Rightarrow> bool" where
  "cache_wf c \<longleftrightarrow> distinct (map fst (c_ll c)) \<and> distinct (map (it_revision \<circ> snd) (c_ll c))
     \<and> (\<forall>e \<in> fst ` set (c_ll c). e < c_next c)
     \<and> (\<forall>r e. c_items c r = Some e \<longleftrightarrow> (\<exists>it. (e, it) \<in> set (c_ll c) \<and> it_revision it = r))
     \<and> (\<forall>it \<in> snd ` set (c_ll c). it_size it = Size (it_record it))
     \<and> c_used c = sum_list (map (it_size \<circ> snd) (c_ll c))"

definition within_budget :: "Cache \<Rightarrow> bool" where
  "within_budget c \<longleftrightarrow> (c_budget c > 0 \<longrightarrow> c_used c \<le> c_budget c \<or> length (c_ll c) \<le> 1)"

definition cache_inv :: "Cache \<Rightarrow> bool" where
  "cache_inv c \<longleftrightarrow> cache_wf c \<and> within_budget c"

text \<open>The records a cache holds, by revision.\<close>

definition cache_map :: "Cache \<Rightarrow> revision \<rightharpoonup> LogRecord" where
  "cache_map c = map_of (map (\<lambda>(e, it). (it_revision it, it_record it)) (c_ll c))"

lemma Size_pos: "0 < Size r"
proof -
  have "0 < n \<Longrightarrow> 0 < foldl (\<lambda>n e. n + 160 + kv_len (ev_kv e)
      + (case ev_prevKv e of None \<Rightarrow> 0 | Some pkv \<Rightarrow> kv_len pkv)) n es" for n and es :: "Event list"
    by (induction es arbitrary: n) (auto simp: kv_len_def split: option.splits)
  from this[of 64 "lr_events r"] show ?thesis by (simp add: Size_def)
qed

lemma cache_wf_New: "cache_wf (Cache_New b)"
  by (simp add: cache_wf_def Cache_New_def)

lemma cache_inv_New: "cache_inv (Cache_New b)"
  using cache_wf_New by (simp add: cache_inv_def within_budget_def) (simp add: Cache_New_def)

lemma cache_map_New [simp]: "cache_map (Cache_New b) = Map.empty"
  by (simp add: cache_map_def Cache_New_def)

lemma wf_items: "cache_wf c \<Longrightarrow> c_items c r = Some e \<longleftrightarrow> (\<exists>it. (e, it) \<in> set (c_ll c) \<and> it_revision it = r)"
  unfolding cache_wf_def by blast

lemma wf_element:
  assumes "cache_wf c" and "c_items c r = Some el"
  obtains it where "map_of (c_ll c) el = Some it" and "it_revision it = r" and "(el, it) \<in> set (c_ll c)"
proof -
  obtain it where it: "(el, it) \<in> set (c_ll c)" "it_revision it = r" using assms unfolding cache_wf_def by blast
  moreover have "map_of (c_ll c) el = Some it" using assms(1) it(1) by (simp add: cache_wf_def)
  ultimately show ?thesis using that by blast
qed

lemma map_of_item:
  "distinct (map (it_revision \<circ> snd) ll) \<Longrightarrow> (e, it) \<in> set ll \<Longrightarrow>
     map_of (map (\<lambda>(e, it). (it_revision it, it_record it)) ll) (it_revision it) = Some (it_record it)"
  by (rule map_of_is_SomeI) (force simp: comp_def case_prod_beta)+

lemma cache_map_items:
  assumes "cache_wf c"
  shows "cache_map c r = (case c_items c r of None \<Rightarrow> None | Some el \<Rightarrow> map_option it_record (element el (c_ll c)))"
proof (cases "c_items c r")
  case None
  then have "\<forall>(e, it) \<in> set (c_ll c). it_revision it \<noteq> r"
    using wf_items[OF assms, of r] by auto
  then have "cache_map c r = None" by (auto simp: cache_map_def map_of_eq_None_iff)
  with None show ?thesis by simp
next
  case (Some el)
  obtain it where it: "map_of (c_ll c) el = Some it" "it_revision it = r" "(el, it) \<in> set (c_ll c)"
    by (rule wf_element[OF assms Some])
  have "cache_map c r = Some (it_record it)"
    using map_of_item[OF _ it(3)] assms it(2) by (simp add: cache_map_def cache_wf_def)
  with Some it show ?thesis by (simp add: element_def)
qed

subsubsection \<open>Removing an element\<close>

lemma filter_ne_id: "e \<notin> fst ` set xs \<Longrightarrow> filter (\<lambda>(e', i). e' \<noteq> e) xs = xs"
  by (induction xs) auto

lemma filter_ne_split:
  "distinct (map fst (xs @ (e, it) # ys)) \<Longrightarrow> filter (\<lambda>(e', i). e' \<noteq> e) (xs @ (e, it) # ys) = xs @ ys"
  by (auto simp: filter_ne_id)

lemma removeElement_split:
  assumes wf: "cache_wf c" and ll: "c_ll c = xs @ (e, it) # ys"
  shows "removeElement c e = c \<lparr> c_ll := xs @ ys, c_items := (c_items c)(it_revision it := None),
      c_used := c_used c - it_size it \<rparr>"
proof -
  have d: "distinct (map fst (c_ll c))" using wf by (simp add: cache_wf_def)
  then have "map_of (c_ll c) e = Some it" by (rule map_of_is_SomeI) (simp add: ll)
  moreover have "filter (\<lambda>(e', i). e' \<noteq> e) (c_ll c) = xs @ ys" using d unfolding ll by (rule filter_ne_split)
  ultimately show ?thesis by (simp add: removeElement_def element_def)
qed

lemma removeElement_wf:
  assumes wf: "cache_wf c" and ll: "c_ll c = xs @ (e, it) # ys"
  shows "cache_wf (removeElement c e)"
proof -
  have d: "distinct (map fst (c_ll c))" "distinct (map (it_revision \<circ> snd) (c_ll c))" using wf by (simp_all add: cache_wf_def)
  have "((c_items c)(it_revision it := None)) r = Some e' \<longleftrightarrow> (\<exists>i. (e', i) \<in> set (xs @ ys) \<and> it_revision i = r)" for r e'
  proof (cases "r = it_revision it")
    case True
    have "it_revision i \<noteq> it_revision it" if "(e', i) \<in> set (xs @ ys)" for i
      using d(2) that unfolding ll by (force simp: image_iff)
    with True show ?thesis by auto
  next
    case False
    then show ?thesis using wf_items[OF wf, of r e'] by (auto simp: ll)
  qed
  then show ?thesis unfolding removeElement_split[OF assms] cache_wf_def using wf d
    by (auto simp: cache_wf_def ll simp del: fun_upd_apply)
qed

lemma evictOldest_snoc:
  assumes wf: "cache_wf c" and ll: "c_ll c = xs @ [(e, it)]"
  shows "c_ll (evictOldest c) = xs" and "c_budget (evictOldest c) = c_budget c" and "cache_wf (evictOldest c)"
  using removeElement_split[OF wf, of xs e it "[]"] removeElement_wf[OF wf, of xs e it "[]"] ll
  by (simp_all add: evictOldest_def)

text \<open>
  The loop keeps a prefix of the list, the most recently used records, and no shorter a prefix than the
  budget asks for.
\<close>

lemma evict_loop_prefix:
  assumes "cache_wf c"
  shows "\<exists>n. c_ll (evict_loop c) = take n (c_ll c) \<and> (c_ll c \<noteq> [] \<longrightarrow> 0 < n) \<and> cache_wf (evict_loop c)
    \<and> c_budget (evict_loop c) = c_budget c \<and> within_budget (evict_loop c)
    \<and> (n < length (c_ll c) \<longrightarrow> c_budget c < sum_list (map (it_size \<circ> snd) (take (Suc n) (c_ll c))))"
  using assms
proof (induction c rule: evict_loop.induct)
  case (1 c)
  show ?case
  proof (cases "c_budget c > 0 \<and> c_used c > c_budget c \<and> length (c_ll c) > 1")
    case False
    then have "evict_loop c = c" by (subst evict_loop.simps) auto
    then show ?thesis using 1(2) False by (intro exI[of _ "length (c_ll c)"]) (auto simp: within_budget_def)
  next
    case True
    then have "c_ll c \<noteq> []" by auto
    then obtain xs e it where ll: "c_ll c = xs @ [(e, it)]" by (metis prod.exhaust rev_exhaust)
    note ev = evictOldest_snoc[OF 1(2) ll]
    have eq: "evict_loop c = evict_loop (evictOldest c)" using True by (subst evict_loop.simps) simp
    obtain n where n: "c_ll (evict_loop c) = take n xs" "xs \<noteq> [] \<longrightarrow> 0 < n" "cache_wf (evict_loop c)"
      "c_budget (evict_loop c) = c_budget c" "within_budget (evict_loop c)"
      "n < length xs \<longrightarrow> c_budget c < sum_list (map (it_size \<circ> snd) (take (Suc n) xs))"
      using 1(1)[OF True ev(3)] unfolding ev(1,2) eq[symmetric] by blast
    have used: "c_used c = sum_list (map (it_size \<circ> snd) (c_ll c))" using 1(2) by (simp add: cache_wf_def)
    show ?thesis
    proof (intro exI[of _ "min n (length xs)"] conjI)
      show "min n (length xs) < length (c_ll c) \<longrightarrow>
          c_budget c < sum_list (map (it_size \<circ> snd) (take (Suc (min n (length xs))) (c_ll c)))"
        using n(6) True used by (cases "n < length xs") (simp_all add: ll min_def)
      show "c_ll c \<noteq> [] \<longrightarrow> 0 < min n (length xs)" using n(2) True by (auto simp: ll)
    qed (use n ll in \<open>simp_all add: min_def\<close>)
  qed
qed

subsubsection \<open>Operations\<close>

lemma MoveToFront_split:
  assumes "distinct (map fst (xs @ (e, it) # ys))"
  shows "MoveToFront e (xs @ (e, it) # ys) = (e, it) # xs @ ys"
proof -
  have "map_of (xs @ (e, it) # ys) e = Some it" by (rule map_of_is_SomeI[OF assms]) simp
  then show ?thesis using filter_ne_split[OF assms] by (simp add: MoveToFront_def)
qed

lemma distinct_map_mset: "mset xs = mset ys \<Longrightarrow> distinct (map f xs) = distinct (map f ys)"
  by (rule mset_eq_imp_distinct_iff) simp

lemma wf_perm:
  assumes wf: "cache_wf c" and p: "mset ll = mset (c_ll c)"
  shows "cache_wf (c \<lparr> c_ll := ll \<rparr>)"
proof -
  have s: "set ll = set (c_ll c)" using p by (metis set_mset_mset)
  have "sum_list (map (it_size \<circ> snd) ll) = sum_list (map (it_size \<circ> snd) (c_ll c))"
    using p by (metis mset_map sum_mset_sum_list)
  then show ?thesis using wf s distinct_map_mset[OF p, of fst] distinct_map_mset[OF p, of "it_revision \<circ> snd"]
    by (simp add: cache_wf_def)
qed

lemma wf_split:
  assumes "cache_wf c" and "c_items c r = Some el"
  obtains xs it ys where "c_ll c = xs @ (el, it) # ys" and "it_revision it = r"
    and "distinct (map fst (xs @ (el, it) # ys))"
proof (rule wf_element[OF assms])
  fix it assume "it_revision it = r" "(el, it) \<in> set (c_ll c)"
  moreover from this(2) obtain xs ys where "c_ll c = xs @ (el, it) # ys" by (meson split_list)
  ultimately show ?thesis using that assms(1) by (simp add: cache_wf_def)
qed

lemma Cache_Get_inv:
  assumes "cache_inv c" shows "cache_inv (fst (Cache_Get c r))"
proof (cases "c_items c r")
  case (Some el)
  have wf: "cache_wf c" using assms by (simp add: cache_inv_def)
  obtain xs it ys where s: "c_ll c = xs @ (el, it) # ys" "distinct (map fst (xs @ (el, it) # ys))"
    by (rule wf_split[OF wf Some])
  have m: "mset (MoveToFront el (c_ll c)) = mset (c_ll c)" using MoveToFront_split[OF s(2)] by (simp add: s(1))
  have "cache_wf (c \<lparr> c_ll := MoveToFront el (c_ll c) \<rparr>)" by (rule wf_perm[OF wf m])
  moreover have "length (MoveToFront el (c_ll c)) = length (c_ll c)" using m by (rule mset_eq_length)
  ultimately show ?thesis using Some assms by (simp add: Cache_Get_def cache_inv_def within_budget_def)
qed (use assms in \<open>simp add: Cache_Get_def\<close>)

lemma Cache_Get_items: "c_items (fst (Cache_Get c r)) = c_items c"
  by (simp add: Cache_Get_def split: option.splits)

lemma Cache_Get_result: "cache_inv c \<Longrightarrow> snd (Cache_Get c r) = cache_map c r"
  unfolding cache_inv_def by (simp add: cache_map_items Cache_Get_def split: option.splits)

lemma cache_map_eqI:
  assumes "cache_wf c" and "cache_wf c'" and "set (c_ll c) = set (c_ll c')"
  shows "cache_map c = cache_map c'"
proof -
  have "distinct (map fst (map (\<lambda>(e, it). (it_revision it, it_record it)) ll)) = distinct (map (it_revision \<circ> snd) ll)"
    for ll :: "(nat \<times> item) list" by (simp add: comp_def case_prod_beta)
  then show ?thesis unfolding cache_map_def using assms
    by (intro iffD2[OF map_of_inject_set]) (simp_all add: cache_wf_def)
qed

lemma Cache_Get_map:
  assumes "cache_inv c" shows "cache_map (fst (Cache_Get c r)) = cache_map c"
proof (cases "c_items c r")
  case (Some el)
  have wf: "cache_wf c" using assms by (simp add: cache_inv_def)
  obtain xs it ys where s: "c_ll c = xs @ (el, it) # ys" "distinct (map fst (xs @ (el, it) # ys))"
    by (rule wf_split[OF wf Some])
  have "c_ll (fst (Cache_Get c r)) = (el, it) # xs @ ys"
    using Some MoveToFront_split[OF s(2)] by (simp add: Cache_Get_def s(1))
  then show ?thesis using Cache_Get_inv[OF assms, of r] wf
    by (intro cache_map_eqI) (simp_all add: cache_inv_def s(1))
qed (simp add: Cache_Get_def)

lemma map_of_remove:
  "r \<notin> fst ` set (as @ bs) \<Longrightarrow> (map_of (as @ (r, x) # bs))(r := None) = map_of (as @ bs)"
proof (rule ext)
  fix k assume "r \<notin> fst ` set (as @ bs)"
  then have "map_of (as @ bs) r = None" by (simp only: map_of_eq_None_iff not_False_eq_True)
  then show "((map_of (as @ (r, x) # bs))(r := None)) k = map_of (as @ bs) k"
    by (cases "k = r") (simp_all add: map_add_def split: option.splits)
qed

lemma Cache_Remove_map:
  assumes "cache_inv c"
  shows "cache_inv (Cache_Remove c r)" and "cache_map (Cache_Remove c r) = (cache_map c)(r := None)"
proof -
  have wf: "cache_wf c" and bud: "within_budget c" using assms by (simp_all add: cache_inv_def)
  show "cache_inv (Cache_Remove c r)"
  proof (cases "c_items c r")
    case (Some el)
    obtain xs it ys where s: "c_ll c = xs @ (el, it) # ys" by (rule wf_split[OF wf Some])
    have "it_size it = Size (it_record it)" using wf s by (force simp: cache_wf_def)
    then have "0 < it_size it" using Size_pos by simp
    then have "within_budget (removeElement c el)"
      using bud by (auto simp: removeElement_split[OF wf s] within_budget_def s)
    then show ?thesis using removeElement_wf[OF wf s] Some by (simp add: Cache_Remove_def cache_inv_def)
  qed (use assms in \<open>simp add: Cache_Remove_def\<close>)
  then have wf': "cache_wf (Cache_Remove c r)" by (simp add: cache_inv_def)
  let ?f = "\<lambda>(e :: nat, it). (it_revision it, it_record it)"
  show "cache_map (Cache_Remove c r) = (cache_map c)(r := None)"
  proof (cases "c_items c r")
    case None
    then show ?thesis by (auto simp: Cache_Remove_def cache_map_items[OF wf])
  next
    case (Some el)
    obtain xs it ys where s: "c_ll c = xs @ (el, it) # ys" "it_revision it = r" by (rule wf_split[OF wf Some])
    have c': "Cache_Remove c r = c \<lparr> c_ll := xs @ ys, c_items := (c_items c)(r := None), c_used := c_used c - it_size it \<rparr>"
      using Some removeElement_split[OF wf s(1)] by (simp add: Cache_Remove_def s(2))
    have "distinct (map (it_revision \<circ> snd) (c_ll c))" using wf by (simp add: cache_wf_def)
    then have "r \<notin> (it_revision \<circ> snd) ` set (xs @ ys)" unfolding s(1) by (auto simp: s(2))
    then have "r \<notin> fst ` set (map ?f (xs @ ys))" by (simp add: image_image image_Un comp_def case_prod_beta)
    from map_of_remove[of r "map ?f xs" "map ?f ys" "it_record it"] this show ?thesis
      by (simp add: c' cache_map_def s)
  qed
qed

subsubsection \<open>Put\<close>

text \<open>The cache as \<^verbatim>\<open>Put\<close> leaves it before the eviction loop.\<close>

lemma Put_new_wf:
  assumes wf: "cache_wf c" and none: "c_items c r = None"
    and c': "c' = c \<lparr> c_items := (c_items c)(r \<mapsto> c_next c),
      c_ll := (c_next c, \<lparr> it_revision = r, it_record = rec, it_size = Size rec \<rparr>) # c_ll c,
      c_next := c_next c + 1, c_used := c_used c + Size rec \<rparr>"
  shows "cache_wf c'"
proof -
  have fresh: "c_next c \<notin> fst ` set (c_ll c)" using wf unfolding cache_wf_def by blast
  have norev: "\<forall>(e, it) \<in> set (c_ll c). it_revision it \<noteq> r" using wf_items[OF wf, of r] none by auto
  have items: "c_items c' r' = Some e \<longleftrightarrow> (\<exists>it. (e, it) \<in> set (c_ll c') \<and> it_revision it = r')" for r' e
  proof (cases "r' = r")
    case True
    then show ?thesis using norev by (auto simp: c')
  next
    case False
    then show ?thesis using wf_items[OF wf, of r' e] by (auto simp: c')
  qed
  have "\<forall>e \<in> fst ` set (c_ll c'). e < c_next c'" using wf by (auto simp: cache_wf_def c' less_Suc_eq)
  moreover have "distinct (map (it_revision \<circ> snd) (c_ll c'))" using wf norev by (force simp: cache_wf_def c')
  ultimately show ?thesis unfolding cache_wf_def[of c'] using items fresh wf
    by (simp add: c' cache_wf_def)
qed

lemma Put_update_wf:
  assumes wf: "cache_wf c" and s: "c_ll c = xs @ (el, it) # ys" and r: "it_revision it = r"
    and c': "c' = c \<lparr> c_used := c_used c + Size rec - it_size it,
      c_ll := (el, it \<lparr> it_record := rec, it_size := Size rec \<rparr>) # xs @ ys \<rparr>"
  shows "cache_wf c'"
proof -
  have items: "c_items c' r' = Some e \<longleftrightarrow> (\<exists>it. (e, it) \<in> set (c_ll c') \<and> it_revision it = r')" for r' e
    using wf_items[OF wf, of r' e] by (auto simp: c' s r)
  show ?thesis unfolding cache_wf_def[of c'] using items wf by (auto simp: c' s cache_wf_def)
qed

text \<open>The list that \<^verbatim>\<open>Put\<close> leaves to the eviction loop has the record at its front.\<close>

definition put_front :: "Cache \<Rightarrow> revision \<Rightarrow> LogRecord \<Rightarrow> (revision \<times> LogRecord) list" where
  "put_front c r rec = (r, rec) # filter (\<lambda>(r', x). r' \<noteq> r) (map (\<lambda>(e, it). (it_revision it, it_record it)) (c_ll c))"

definition contents :: "Cache \<Rightarrow> (revision \<times> LogRecord) list" where
  "contents c = map (\<lambda>(e, it). (it_revision it, it_record it)) (c_ll c)"

lemma cache_map_contents: "cache_map c = map_of (contents c)"
  by (simp add: cache_map_def contents_def)

lemma filter_rev_id:
  "\<forall>(e, it) \<in> set xs. it_revision it \<noteq> r \<Longrightarrow>
     filter (\<lambda>(r', x). r' \<noteq> r) (map (\<lambda>(e, it). (it_revision it, it_record it)) xs) = map (\<lambda>(e, it). (it_revision it, it_record it)) xs"
  by (induction xs) auto

lemma Put_before_evict:
  assumes wf: "cache_wf c"
  shows "(c_items c r = None \<and> c_budget c > 0 \<and> Size rec > c_budget c \<and> Cache_Put c r rec = c)
    \<or> (\<exists>c'. Cache_Put c r rec = evict_loop c' \<and> cache_wf c' \<and> contents c' = put_front c r rec
         \<and> c_budget c' = c_budget c \<and> it_size (snd (hd (c_ll c'))) = Size rec)"
proof (cases "c_items c r")
  case None
  let ?c = "c \<lparr> c_items := (c_items c)(r \<mapsto> c_next c),
      c_ll := (c_next c, \<lparr> it_revision = r, it_record = rec, it_size = Size rec \<rparr>) # c_ll c,
      c_next := c_next c + 1, c_used := c_used c + Size rec \<rparr>"
  have norev: "\<forall>(e, it) \<in> set (c_ll c). it_revision it \<noteq> r" using wf_items[OF wf, of r] None by auto
  show ?thesis
  proof (cases "c_budget c > 0 \<and> Size rec > c_budget c")
    case True
    with None show ?thesis by (simp add: Cache_Put_def)
  next
    case False
    then have "Cache_Put c r rec = evict_loop ?c"
      unfolding Cache_Put_def Let_def None by (simp only: option.case if_False)
    moreover have "cache_wf ?c" by (rule Put_new_wf[OF wf None refl])
    moreover have "contents ?c = put_front c r rec" using filter_rev_id[OF norev] by (simp add: contents_def put_front_def)
    ultimately show ?thesis by (intro disjI2 exI[of _ ?c]) simp
  qed
next
  case (Some el)
  obtain xs it ys where s: "c_ll c = xs @ (el, it) # ys" "it_revision it = r" "distinct (map fst (xs @ (el, it) # ys))"
    by (rule wf_split[OF wf Some])
  let ?it = "it \<lparr> it_record := rec, it_size := Size rec \<rparr>"
  let ?c = "c \<lparr> c_used := c_used c + Size rec - it_size it, c_ll := (el, ?it) # xs @ ys \<rparr>"
  let ?u = "map (\<lambda>(e, i). (e, if e = el then i \<lparr> it_record := rec, it_size := Size rec \<rparr> else i))"
  have id: "?u zs = zs" if "el \<notin> fst ` set zs" for zs using that by (induction zs) auto
  have "el \<notin> fst ` set xs" "el \<notin> fst ` set ys" using s(3) by auto
  then have u: "?u (c_ll c) = xs @ (el, ?it) # ys" by (simp add: s(1) id)
  have mv: "MoveToFront el (?u (c_ll c)) = (el, ?it) # xs @ ys" unfolding u
    by (rule MoveToFront_split) (use s(3) in simp)
  have el: "element el (c_ll c) = Some it" unfolding element_def s(1) by (rule map_of_is_SomeI[OF s(3)]) simp
  have "Cache_Put c r rec = evict_loop ?c" using Some by (simp add: Cache_Put_def Let_def el mv)
  moreover have "cache_wf ?c" by (rule Put_update_wf[OF wf s(1,2) refl])
  moreover have "contents ?c = put_front c r rec"
  proof -
    have "distinct (map (it_revision \<circ> snd) (xs @ (el, it) # ys))" using wf by (simp add: cache_wf_def s(1))
    then have nx: "\<forall>(e, i) \<in> set xs. it_revision i \<noteq> r" and ny: "\<forall>(e, i) \<in> set ys. it_revision i \<noteq> r"
      by (force simp: s(2)[symmetric])+
    show ?thesis using filter_rev_id[OF nx] filter_rev_id[OF ny] by (simp add: contents_def put_front_def s(1,2))
  qed
  ultimately show ?thesis by (intro disjI2 exI[of _ ?c]) simp
qed

lemma sizes_contents:
  assumes "cache_wf c"
  shows "sum_list (map (it_size \<circ> snd) (take n (c_ll c))) = sum_list (map (Size \<circ> snd) (take n (contents c)))"
proof -
  have "map (it_size \<circ> snd) (c_ll c) = map (Size \<circ> snd) (contents c)"
    using assms by (auto simp: cache_wf_def contents_def)
  then show ?thesis by (metis take_map)
qed

lemma Cache_Put_contents:
  assumes inv: "cache_inv c" and fits: "c_budget c \<le> 0 \<or> Size rec \<le> c_budget c"
  shows "\<exists>n > 0. contents (Cache_Put c r rec) = take n (put_front c r rec) \<and> cache_inv (Cache_Put c r rec)
    \<and> (n < length (put_front c r rec) \<longrightarrow> c_budget c < sum_list (map (Size \<circ> snd) (take (Suc n) (put_front c r rec))))
    \<and> (c_budget c > 0 \<longrightarrow> Cache_Bytes (Cache_Put c r rec) \<le> c_budget c)"
proof -
  have wf: "cache_wf c" using inv by (simp add: cache_inv_def)
  obtain c' where c': "Cache_Put c r rec = evict_loop c'" "cache_wf c'" "contents c' = put_front c r rec"
    "c_budget c' = c_budget c" "it_size (snd (hd (c_ll c'))) = Size rec"
    using Put_before_evict[OF wf, of r rec] fits by auto
  have ne: "c_ll c' \<noteq> []" using c'(3) by (auto simp: contents_def put_front_def)
  obtain n where n: "c_ll (evict_loop c') = take n (c_ll c')" "0 < n" "cache_wf (evict_loop c')"
    "c_budget (evict_loop c') = c_budget c'" "within_budget (evict_loop c')"
    "n < length (c_ll c') \<longrightarrow> c_budget c' < sum_list (map (it_size \<circ> snd) (take (Suc n) (c_ll c')))"
    using evict_loop_prefix[OF c'(2)] ne by blast
  have con: "contents (evict_loop c') = take n (put_front c r rec)"
    using n(1) by (simp add: contents_def take_map flip: c'(3))
  have len: "length (c_ll c') = length (put_front c r rec)" using arg_cong[OF c'(3), of length] by (simp add: contents_def)
  have "c_used (evict_loop c') \<le> c_budget c" if b: "c_budget c > 0"
  proof (cases "length (c_ll (evict_loop c')) \<le> 1")
    case False
    then show ?thesis using n(4,5) c'(4) b by (simp add: within_budget_def)
  next
    case True
    then have "c_ll (evict_loop c') = [hd (c_ll c')]" using n(1,2) ne
      by (cases "c_ll c'"; cases n) (auto simp: take_Suc min_def split: if_splits)
    then have "c_used (evict_loop c') = Size rec" using n(3) c'(5) by (simp add: cache_wf_def)
    then show ?thesis using fits b by simp
  qed
  then show ?thesis
    using n c'(1,4) con len sizes_contents[OF c'(2), of "Suc n"] c'(3)
    by (intro exI[of _ n]) (simp add: cache_inv_def Cache_Bytes_def)
qed

lemma Cache_Put_inv:
  assumes "cache_inv c" shows "cache_inv (Cache_Put c r rec)"
proof -
  have wf: "cache_wf c" using assms by (simp add: cache_inv_def)
  consider "Cache_Put c r rec = c" | c' where "Cache_Put c r rec = evict_loop c'" "cache_wf c'"
    using Put_before_evict[OF wf, of r rec] by blast
  then show ?thesis
  proof cases
    case (2 c')
    show ?thesis using evict_loop_prefix[OF 2(2)] unfolding 2(1) cache_inv_def by blast
  qed (use assms in simp)
qed

lemma map_of_filter_ne: "map_of ((r, x) # filter (\<lambda>(r', y). r' \<noteq> r) xs) = (map_of xs)(r \<mapsto> x)"
proof -
  have "k \<noteq> r \<Longrightarrow> map_of (filter (\<lambda>(r', y). r' \<noteq> r) xs) k = map_of xs k" for k by (induction xs) auto
  then show ?thesis by (auto simp: fun_eq_iff)
qed

lemma map_of_take_le:
  assumes "distinct (map fst xs)" shows "map_of (take n xs) \<subseteq>\<^sub>m map_of xs"
proof -
  have "map_of xs r = Some v" if "map_of (take n xs) r = Some v" for r v
    using map_of_SomeD[OF that] assms by (meson in_set_takeD map_of_is_SomeI)
  then show ?thesis by (auto simp: map_le_def dom_def)
qed

lemma Cache_Put_map:
  assumes "cache_inv c" shows "cache_map (Cache_Put c r rec) \<subseteq>\<^sub>m (cache_map c)(r \<mapsto> rec)"
proof -
  have wf: "cache_wf c" using assms by (simp add: cache_inv_def)
  consider "c_items c r = None" "Cache_Put c r rec = c"
    | c' where "Cache_Put c r rec = evict_loop c'" "cache_wf c'" "contents c' = put_front c r rec"
    using Put_before_evict[OF wf, of r rec] by auto
  then show ?thesis
  proof cases
    case 1
    then have "cache_map c r = None" by (simp add: cache_map_items[OF wf])
    then show ?thesis unfolding 1(2) by (auto simp: map_le_def dom_def)
  next
    case (2 c')
    obtain n where n: "c_ll (evict_loop c') = take n (c_ll c')" using evict_loop_prefix[OF 2(2)] by blast
    have "distinct (map fst (contents c'))" using 2(2) by (simp add: cache_wf_def contents_def comp_def case_prod_beta)
    then have "map_of (take n (contents c')) \<subseteq>\<^sub>m map_of (contents c')" by (rule map_of_take_le)
    moreover have "map_of (contents c') = (cache_map c)(r \<mapsto> rec)"
      unfolding 2(3) put_front_def cache_map_def by (rule map_of_filter_ne)
    moreover have "cache_map (Cache_Put c r rec) = map_of (take n (contents c'))"
      using n by (simp add: 2(1) cache_map_contents contents_def take_map)
    ultimately show ?thesis by simp
  qed
qed

subsection \<open>The interface of a cache\<close>

text \<open>
  What the log relies on: a cache never answers with anything but the last record put for a revision.
  A cache is coherent with a map from revisions to records when everything it holds is in the map; a
  log that loads what is missing and puts it into the cache reads through to the map.
\<close>

locale record_cache =
  fixes get :: "'c \<Rightarrow> revision \<Rightarrow> 'c \<times> LogRecord option" and put :: "'c \<Rightarrow> revision \<Rightarrow> LogRecord \<Rightarrow> 'c"
    and remove :: "'c \<Rightarrow> revision \<Rightarrow> 'c" and held :: "'c \<Rightarrow> revision \<rightharpoonup> LogRecord" and inv :: "'c \<Rightarrow> bool"
  assumes get_held: "inv c \<Longrightarrow> snd (get c r) = held c r" and get_keeps: "inv c \<Longrightarrow> held (fst (get c r)) = held c"
    and get_inv: "inv c \<Longrightarrow> inv (fst (get c r))"
    and put_held: "inv c \<Longrightarrow> held (put c r x) \<subseteq>\<^sub>m (held c)(r \<mapsto> x)" and put_inv: "inv c \<Longrightarrow> inv (put c r x)"
    and remove_held: "inv c \<Longrightarrow> held (remove c r) = (held c)(r := None)" and remove_inv: "inv c \<Longrightarrow> inv (remove c r)"
begin

definition coherent :: "'c \<Rightarrow> (revision \<rightharpoonup> LogRecord) \<Rightarrow> bool" where
  "coherent c m \<longleftrightarrow> inv c \<and> held c \<subseteq>\<^sub>m m"

lemma coherent_get: "coherent c m \<Longrightarrow> coherent (fst (get c r)) m"
  by (simp add: coherent_def get_keeps get_inv)

lemma coherent_hit: "coherent c m \<Longrightarrow> snd (get c r) = Some x \<Longrightarrow> m r = Some x"
  by (auto simp: coherent_def get_held map_le_def dom_def)

lemma coherent_put: "coherent c m \<Longrightarrow> coherent (put c r x) (m(r \<mapsto> x))"
  unfolding coherent_def by (meson map_le_trans map_le_upd put_held put_inv)

lemma coherent_put_same: "coherent c m \<Longrightarrow> m r = Some x \<Longrightarrow> coherent (put c r x) m"
  using coherent_put[of c m r x] by (simp add: map_upd_triv)

lemma coherent_remove: "coherent c m \<Longrightarrow> coherent (remove c r) (m(r := None))"
  by (auto simp: coherent_def remove_held remove_inv map_le_def)

lemma coherent_remove_keep: "coherent c m \<Longrightarrow> coherent (remove c r) m"
  by (auto simp: coherent_def remove_held remove_inv map_le_def)

end

interpretation lru: record_cache Cache_Get Cache_Put Cache_Remove cache_map cache_inv
  by unfold_locales
    (simp_all add: Cache_Get_result Cache_Get_map Cache_Get_inv Cache_Put_map Cache_Put_inv Cache_Remove_map)

subsection \<open>Properties\<close>

text \<open>C29: Eviction is least-recently-used and minimal.  Putting a record that fits into the budget leaves
  the record at the front, followed by the other records in their order of use, cut off at the first
  point where they no longer fit: the records kept are within the budget, and one more would exceed it.\<close>

theorem Cache_Put_lru:
  assumes "cache_inv c" and "c_budget c \<le> 0 \<or> Size rec \<le> c_budget c"
  shows "\<exists>n > 0. contents (Cache_Put c r rec) = take n (put_front c r rec)
    \<and> (n < length (put_front c r rec) \<longrightarrow> c_budget c < sum_list (map (Size \<circ> snd) (take (Suc n) (put_front c r rec))))
    \<and> (c_budget c > 0 \<longrightarrow> Cache_Bytes (Cache_Put c r rec) \<le> c_budget c)"
  using Cache_Put_contents[OF assms, of r] by blast

definition sample_cache :: Cache where
  "sample_cache = Cache_Put (Cache_Put (Cache_New 150) 1 \<lparr> lr_events = [] \<rparr>) 2 \<lparr> lr_events = [] \<rparr>"

lemma sample_cache_inv: "cache_inv sample_cache"
  unfolding sample_cache_def
  by (intro Cache_Put_inv cache_inv_New)

theorem Cache_Put_lru_witness:
  "\<exists>n > 0. contents (Cache_Put (fst (Cache_Get sample_cache 1)) 3 \<lparr> lr_events = [] \<rparr>)
      = take n [(3, \<lparr> lr_events = [] \<rparr>), (1, \<lparr> lr_events = [] \<rparr>), (2, \<lparr> lr_events = [] \<rparr>)]"
proof -
  have c: "cache_inv (fst (Cache_Get sample_cache 1))" by (rule Cache_Get_inv[OF sample_cache_inv])
  have "c_budget (fst (Cache_Get sample_cache 1)) \<le> 0
      \<or> Size \<lparr> lr_events = [] \<rparr> \<le> c_budget (fst (Cache_Get sample_cache 1))" by code_simp
  moreover have "put_front (fst (Cache_Get sample_cache 1)) 3 \<lparr> lr_events = [] \<rparr>
      = [(3, \<lparr> lr_events = [] \<rparr>), (1, \<lparr> lr_events = [] \<rparr>), (2, \<lparr> lr_events = [] \<rparr>)]" by code_simp
  ultimately show ?thesis using Cache_Put_lru[OF c, of "\<lparr> lr_events = [] \<rparr>" 3] by metis
qed

text \<open>C2: A cache is never stale.  After any sequence of operations on a new cache, with any budget, a
  lookup answers with nothing or with the last record put for the revision since it was last removed;
  the internal invariant (list, map and byte count agree, and the budget is kept) holds throughout.\<close>

datatype cache_op = OpGet revision | OpPut revision LogRecord | OpRemove revision

fun cache_step :: "Cache \<Rightarrow> cache_op \<Rightarrow> Cache" where
  "cache_step c (OpGet r) = fst (Cache_Get c r)"
| "cache_step c (OpPut r x) = Cache_Put c r x"
| "cache_step c (OpRemove r) = Cache_Remove c r"

fun last_put :: "(revision \<rightharpoonup> LogRecord) \<Rightarrow> cache_op \<Rightarrow> (revision \<rightharpoonup> LogRecord)" where
  "last_put m (OpGet r) = m"
| "last_put m (OpPut r x) = m(r \<mapsto> x)"
| "last_put m (OpRemove r) = m(r := None)"

lemma cache_step_coherent: "lru.coherent c m \<Longrightarrow> lru.coherent (cache_step c op) (last_put m op)"
  by (cases op) (simp_all add: lru.coherent_get lru.coherent_put lru.coherent_remove)

theorem Cache_never_stale:
  "cache_inv (foldl cache_step (Cache_New budget) ops)
   \<and> snd (Cache_Get (foldl cache_step (Cache_New budget) ops) r) \<in> {None, foldl last_put Map.empty ops r}"
proof -
  have "lru.coherent c m \<Longrightarrow> lru.coherent (foldl cache_step c ops) (foldl last_put m ops)" for c m
    by (induction ops arbitrary: c m) (simp_all add: cache_step_coherent)
  moreover have "lru.coherent (Cache_New budget) Map.empty"
    by (simp add: lru.coherent_def cache_inv_New)
  ultimately have co: "lru.coherent (foldl cache_step (Cache_New budget) ops) (foldl last_put Map.empty ops)" by blast
  then show ?thesis using lru.coherent_hit[OF co, of r]
    by (cases "snd (Cache_Get (foldl cache_step (Cache_New budget) ops) r)") (auto simp: lru.coherent_def)
qed

text \<open>The budget can be exceeded by replacing a record.  A record larger than the whole budget is
  refused when its revision is not cached, but is kept, over the budget, when it replaces the cached
  record of its revision.\<close>

theorem Cache_Put_replace_over_budget:
  "let big = \<lparr> lr_events = [\<lparr> ev_type = PUT, ev_kv = \<lparr> kv_key = [1], kv_createRevision = 1, kv_modRevision = 1,
          kv_version = 1, kv_value = [], kv_lease = 0 \<rparr>, ev_prevKv = None \<rparr>] \<rparr>
   in \<not> Cache_Has (Cache_Put (Cache_New 150) 1 big) 1 \<and> Cache_Bytes (Cache_Put sample_cache 1 big) > 150"
  by code_simp

end
