(* ===== verification/Batch.thy ===== *)
theory Batch
  imports Mvcc
begin

text \<open>
  Group commit with optimistic concurrency control: \<^verbatim>\<open>src/pkg/persistence/batch/batch.go\<close> (one batch,
  its validation and the assignment of revisions) and \<^verbatim>\<open>batching.go\<close> (the open batch, the queue of
  batches and the flusher goroutine).

  A transaction's result channel is a number, handed out in the order of the calls of \<^verbatim>\<open>Add\<close>; the
  buffered channels themselves are a map from those numbers to the result sent.  The map
  \<^verbatim>\<open>committedWrites\<close>, which the code shares by reference between \<^verbatim>\<open>Batching\<close> and every batch, is owned by
  \<^verbatim>\<open>Batching\<close> and passed to \<^verbatim>\<open>prepare\<close>.  The backend (\<^verbatim>\<open>FlushFunc\<close>) is an argument, a function on the
  backend's state.  The goroutines interleave at the granularity of the critical sections under
  \<^verbatim>\<open>batchLock\<close>: the relation \<^verbatim>\<open>batching_run\<close> has one rule for each.
\<close>

subsection \<open>One batch\<close>

record PendingTxn =
  pt_logRecord :: LogRecord
  pt_meta :: TxnMeta
  pt_resultChan :: nat

record BatchCommit =
  bc_transactions :: "PendingTxn list"

record BatchResult =
  br_revision :: revision
  br_success :: bool

record TxnBatch =
  tb_flushed :: bool
  tb_pendingBatch :: "PendingTxn list"

definition CanBatchTogether :: "TxnMeta \<Rightarrow> TxnMeta \<Rightarrow> bool" where
  "CanBatchTogether existing other =
     (if list_ex (\<lambda>(k, v). in_writeSet other k) (tm_writeSet existing) then False
      else if list_ex (\<lambda>(k, r). in_writeSet existing k) (tm_readSet other) then False
      else True)"

definition CanBatchWith :: "TxnBatch \<Rightarrow> TxnMeta \<Rightarrow> bool" where
  "CanBatchWith b txnMeta = list_all (\<lambda>txn. CanBatchTogether (pt_meta txn) txnMeta) (tb_pendingBatch b)"

definition newTxnBatch :: TxnBatch where
  "newTxnBatch = \<lparr> tb_flushed = False, tb_pendingBatch = [] \<rparr>"

definition batch_add :: "TxnBatch \<Rightarrow> LogRecord \<Rightarrow> TxnMeta \<Rightarrow> nat \<Rightarrow> TxnBatch" where
  "batch_add b logRecord txnMeta resultChan =
     b \<lparr> tb_pendingBatch := tb_pendingBatch b
           @ [\<lparr> pt_logRecord = logRecord, pt_meta = txnMeta, pt_resultChan = resultChan \<rparr>] \<rparr>"

definition validateTxn :: "TxnMeta \<Rightarrow> revision \<Rightarrow> (key \<rightharpoonup> revision) \<Rightarrow> bool" where
  "validateTxn meta lastLogPosition committedWrites =
     (if tm_hasRangeRead meta then tm_snapshotRevision meta = lastLogPosition
      else if list_ex (\<lambda>(k, readRevision). map_get committedWrites k > readRevision) (tm_readSet meta) then False
      else if list_ex (\<lambda>(k, v). map_get committedWrites k > tm_snapshotRevision meta) (tm_writeSet meta) then False
      else True)"

text \<open>The inner loop over a record's events: each event gets the assigned revision.\<close>

definition restamp_event :: "revision \<Rightarrow> Event \<Rightarrow> Event" where
  "restamp_event revision event =
     (case ev_type event of
        PUT \<Rightarrow>
          event \<lparr> ev_kv := (let kv = ev_kv event in
            (if kv_createRevision kv = kv_modRevision kv then kv \<lparr> kv_createRevision := revision \<rparr> else kv)
              \<lparr> kv_modRevision := revision \<rparr>) \<rparr>
      | DELETE \<Rightarrow> event \<lparr> ev_kv := (ev_kv event) \<lparr> kv_modRevision := revision \<rparr> \<rparr>
      | UnknownType t \<Rightarrow> event)"

definition restamp :: "revision \<Rightarrow> LogRecord \<Rightarrow> LogRecord" where
  "restamp revision r = r \<lparr> lr_events := map (restamp_event revision) (lr_events r) \<rparr>"

definition record_writes :: "TxnMeta \<Rightarrow> revision \<Rightarrow> (key \<rightharpoonup> revision) \<Rightarrow> (key \<rightharpoonup> revision)" where
  "record_writes meta revision committedWrites =
     fold (\<lambda>(k, v) m. m(k \<mapsto> revision)) (tm_writeSet meta) committedWrites"

fun prepare_loop :: "revision \<Rightarrow> PendingTxn list \<Rightarrow> revision \<Rightarrow> (key \<rightharpoonup> revision)
    \<Rightarrow> PendingTxn list \<times> nat list \<times> nat list \<times> (key \<rightharpoonup> revision)" where
  "prepare_loop lastLogPosition [] revision cw = ([], [], [], cw)"
| "prepare_loop lastLogPosition (txn # txns) revision cw =
     (if \<not> validateTxn (pt_meta txn) lastLogPosition cw
      then let (commit, accepted, rejected, cw') = prepare_loop lastLogPosition txns revision cw
           in (commit, accepted, pt_resultChan txn # rejected, cw')
      else let revision' = revision + 1;
               txn' = txn \<lparr> pt_logRecord := restamp revision' (pt_logRecord txn) \<rparr>;
               (commit, accepted, rejected, cw') =
                 prepare_loop lastLogPosition txns revision' (record_writes (pt_meta txn) revision' cw)
           in (txn' # commit, pt_resultChan txn # accepted, rejected, cw'))"

definition prepare :: "TxnBatch \<Rightarrow> revision \<Rightarrow> (key \<rightharpoonup> revision)
    \<Rightarrow> TxnBatch \<times> BatchCommit option \<times> nat list \<times> nat list \<times> (key \<rightharpoonup> revision)" where
  "prepare b lastLogPosition cw =
     (if tb_flushed b \<or> tb_pendingBatch b = [] then (b, None, [], [], cw)
      else let (txns, accepted, rejected, cw') = prepare_loop lastLogPosition (tb_pendingBatch b) lastLogPosition cw
           in (b \<lparr> tb_flushed := True \<rparr>,
               if txns = [] then None else Some \<lparr> bc_transactions = txns \<rparr>,
               accepted, rejected, cw'))"

subsection \<open>Batching\<close>

text \<open>
  \<^verbatim>\<open>bg_flushing\<close> is the flusher's local variable \<^verbatim>\<open>flush\<close> between taking a batch and flushing it,
  \<^verbatim>\<open>bg_nextChan\<close> the next result channel, \<^verbatim>\<open>bg_results\<close> what has been sent on the channels.
\<close>

record Batching =
  bg_openBatch :: "TxnBatch option"
  bg_stop :: bool
  bg_flushQueue :: "TxnBatch list"
  bg_flusherDone :: bool
  bg_lastLogPosition :: revision
  bg_committedWrites :: "key \<rightharpoonup> revision"
  bg_flushing :: "TxnBatch option"
  bg_nextChan :: nat
  bg_results :: "nat \<rightharpoonup> BatchResult"

type_synonym 'l flush_func = "'l \<Rightarrow> revision \<Rightarrow> BatchCommit \<Rightarrow> error option \<times> 'l"

definition NewBatching :: "revision \<Rightarrow> Batching" where
  "NewBatching lastLogPosition =
     \<lparr> bg_openBatch = None, bg_stop = False, bg_flushQueue = [], bg_flusherDone = False,
       bg_lastLogPosition = lastLogPosition, bg_committedWrites = Map.empty, bg_flushing = None,
       bg_nextChan = 0, bg_results = Map.empty \<rparr>"

text \<open>\<^verbatim>\<open>Batching.Add\<close> up to the point where it releases the lock and waits on the channel.\<close>

definition Batching_Add :: "Batching \<Rightarrow> LogRecord \<Rightarrow> TxnMeta \<Rightarrow> Batching \<times> nat" where
  "Batching_Add b logRecord txnMeta =
     (let ch = bg_nextChan b;
          b' = b \<lparr> bg_nextChan := ch + 1 \<rparr>;
          fresh = Some (batch_add newTxnBatch logRecord txnMeta ch)
      in case bg_openBatch b of
           Some ob \<Rightarrow>
             if CanBatchWith ob txnMeta
             then (b' \<lparr> bg_openBatch := Some (batch_add ob logRecord txnMeta ch) \<rparr>, ch)
             else (b' \<lparr> bg_flushQueue := bg_flushQueue b @ [ob], bg_openBatch := fresh \<rparr>, ch)
         | None \<Rightarrow> (b' \<lparr> bg_openBatch := fresh \<rparr>, ch))"

text \<open>
  One round of \<^verbatim>\<open>doBackgroundFlush\<close> from the end of the window to the release of the lock: take the
  oldest queued batch, or else the open one; with neither, a stopped flusher ends.
\<close>

definition grab_batch :: "Batching \<Rightarrow> Batching" where
  "grab_batch b =
     (case bg_flushQueue b of
        f # fs \<Rightarrow> b \<lparr> bg_flushing := Some f, bg_flushQueue := fs \<rparr>
      | [] \<Rightarrow>
          (case bg_openBatch b of
             Some ob \<Rightarrow> b \<lparr> bg_flushing := Some ob, bg_openBatch := None \<rparr>
           | None \<Rightarrow> if bg_stop b then b \<lparr> bg_flusherDone := True \<rparr> else b))"

text \<open>The two delivery loops at the end of \<^verbatim>\<open>flushBatch\<close>.\<close>

fun deliver_accepted :: "revision \<Rightarrow> nat list \<Rightarrow> (nat \<rightharpoonup> BatchResult) \<Rightarrow> (nat \<rightharpoonup> BatchResult)" where
  "deliver_accepted r [] res = res"
| "deliver_accepted r (ch # chs) res =
     deliver_accepted (r + 1) chs (res(ch \<mapsto> \<lparr> br_revision = r + 1, br_success = True \<rparr>))"

definition deliver_rejected :: "nat list \<Rightarrow> (nat \<rightharpoonup> BatchResult) \<Rightarrow> (nat \<rightharpoonup> BatchResult)" where
  "deliver_rejected chs res = fold (\<lambda>ch m. m(ch \<mapsto> \<lparr> br_revision = 0, br_success = False \<rparr>)) chs res"

definition flushBatch :: "'l flush_func \<Rightarrow> Batching \<Rightarrow> TxnBatch \<Rightarrow> 'l \<Rightarrow> error + Batching \<times> 'l" where
  "flushBatch flushFunc b batch l =
     (let (batch', commit, accepted, rejected, cw) = prepare batch (bg_lastLogPosition b) (bg_committedWrites b);
          start = bg_lastLogPosition b;
          results = deliver_rejected rejected (deliver_accepted start accepted (bg_results b));
          b' = b \<lparr> bg_committedWrites := cw, bg_flushing := None, bg_results := results \<rparr>
      in case commit of
           None \<Rightarrow> Inr (b', l)
         | Some c \<Rightarrow>
             (case flushFunc l start c of
                (Some err, l') \<Rightarrow> Inl (Panic ''failed to commit log batch'')
              | (None, l') \<Rightarrow>
                  Inr (b' \<lparr> bg_lastLogPosition := start + of_nat (length (bc_transactions c)) \<rparr>, l')))"

definition Batching_Close :: "Batching \<Rightarrow> Batching" where
  "Batching_Close b = b \<lparr> bg_stop := True \<rparr>"

subsection \<open>The history a log holds\<close>

text \<open>
  The specification looks at the log as the list of its records: the record of revision \<^verbatim>\<open>r\<close> is at
  index \<^verbatim>\<open>r - 1\<close>.  \<^verbatim>\<open>last_write h k\<close> is the revision of the last record with an event for \<^verbatim>\<open>k\<close>, \<^verbatim>\<open>0\<close> when
  there is none.
\<close>

type_synonym history = "LogRecord list"

definition touches :: "key \<Rightarrow> LogRecord \<Rightarrow> bool" where
  "touches k r = list_ex (\<lambda>e. kv_key (ev_kv e) = k) (lr_events r)"

definition last_write :: "history \<Rightarrow> key \<Rightarrow> nat" where
  "last_write h k = length (dropWhile (\<lambda>r. \<not> touches k r) (rev h))"

definition reads :: "TxnMeta \<Rightarrow> key set" where
  "reads m = fst ` set (tm_readSet m)"

text \<open>No record after the transaction's snapshot has an event for a key it read or writes.\<close>

definition conflict_free :: "history \<Rightarrow> TxnMeta \<Rightarrow> bool" where
  "conflict_free h m \<longleftrightarrow>
     (\<forall>k \<in> reads m \<union> writes m. \<forall>r \<in> set (drop (unat (tm_snapshotRevision m)) h). \<not> touches k r)"

text \<open>
  The transaction was evaluated at a snapshot of the history taken after \<^verbatim>\<open>base\<close>, and each revision in
  its read set is that of a write of the key (or \<^verbatim>\<open>0\<close>); \<^verbatim>\<open>observed_latest\<close> asks for the latest one.
\<close>

definition observed :: "nat \<Rightarrow> history \<Rightarrow> TxnMeta \<Rightarrow> bool" where
  "observed base h m \<longleftrightarrow> meta_wf m \<and> base \<le> unat (tm_snapshotRevision m) \<and> unat (tm_snapshotRevision m) \<le> length h
     \<and> (\<forall>(k, r) \<in> set (tm_readSet m). unat r \<le> last_write (take (unat (tm_snapshotRevision m)) h) k)"

definition observed_latest :: "history \<Rightarrow> TxnMeta \<Rightarrow> bool" where
  "observed_latest h m \<longleftrightarrow>
     (\<forall>(k, r) \<in> set (tm_readSet m). unat r = last_write (take (unat (tm_snapshotRevision m)) h) k)"

text \<open>\<^verbatim>\<open>committedWrites\<close> holds the last write of every key written since \<^verbatim>\<open>base\<close>.\<close>

definition cw_inv :: "nat \<Rightarrow> history \<Rightarrow> (key \<rightharpoonup> revision) \<Rightarrow> bool" where
  "cw_inv base h cw \<longleftrightarrow> (\<forall>k. unat (map_get cw k) = (if last_write h k > base then last_write h k else 0))"

lemma last_write_Nil [simp]: "last_write [] k = 0"
  by (simp add: last_write_def)

lemma last_write_snoc [simp]:
  "last_write (h @ [r]) k = (if touches k r then Suc (length h) else last_write h k)"
  by (simp add: last_write_def)

lemma last_write_le: "last_write h k \<le> length h"
  using length_dropWhile_le[of "\<lambda>r. \<not> touches k r" "rev h"] by (simp add: last_write_def)

lemma last_write_append:
  "last_write (h @ h') k = (if \<exists>r \<in> set h'. touches k r then length h + last_write h' k else last_write h k)"
proof (induction h' rule: rev_induct)
  case (snoc r h')
  show ?case unfolding append_assoc[symmetric] last_write_snoc snoc by auto
qed simp

lemma last_write_take_mono: "last_write (take n h) k \<le> last_write h k"
proof -
  have "last_write h k = last_write (take n h @ drop n h) k" by simp
  then show ?thesis using last_write_le[of "take n h" k] unfolding last_write_append by (auto split: if_splits)
qed

text \<open>A key's last write is within the first \<^verbatim>\<open>n\<close> records exactly when no later record touches it.\<close>

lemma last_write_le_iff: "last_write h k \<le> n \<longleftrightarrow> (\<forall>r \<in> set (drop n h). \<not> touches k r)" (is "?l \<longleftrightarrow> ?r")
proof -
  have split: "last_write h k = last_write (take n h @ drop n h) k" by simp
  show ?thesis
  proof
    assume ?r
    then show ?l using last_write_le[of "take n h" k] unfolding split last_write_append by auto
  next
    assume l: ?l
    show ?r
    proof (rule ccontr)
      assume "\<not> ?r"
      then have ex: "\<exists>r \<in> set (drop n h). touches k r" by blast
      then have "drop n h \<noteq> []" by auto
      then have len: "length (take n h) = n" by simp
      obtain a r b where ab: "drop n h = a @ r # b" "touches k r" using ex by (meson in_set_conv_decomp)
      then have "last_write (drop n h) k > 0"
        unfolding ab using last_write_append[of "a @ [r]" b k] by auto
      then show False using l ex len unfolding split last_write_append by auto
    qed
  qed
qed

lemma last_write_take: "last_write h k \<le> n \<Longrightarrow> last_write (take n h) k = last_write h k"
  using last_write_append[of "take n h" "drop n h" k] by (auto simp: last_write_le_iff)

lemma conflict_free_alt:
  "conflict_free h m \<longleftrightarrow> (\<forall>k \<in> reads m \<union> writes m. last_write h k \<le> unat (tm_snapshotRevision m))"
  by (simp add: conflict_free_def last_write_le_iff)

lemma restamp_event_key [simp]: "kv_key (ev_kv (restamp_event r e)) = kv_key (ev_kv e)"
  by (cases "ev_type e") (simp_all add: restamp_event_def Let_def)

lemma touches_restamp [simp]: "touches k (restamp r rec) \<longleftrightarrow> touches k rec"
  by (simp add: touches_def restamp_def list_ex_iff)

lemma observed_append: "observed base h m \<Longrightarrow> observed base (h @ h') m"
  by (auto simp: observed_def)

lemma observed_latest_append:
  "observed base h m \<Longrightarrow> observed_latest h m \<Longrightarrow> observed_latest (h @ h') m"
  by (auto simp: observed_latest_def observed_def)

subsection \<open>Validation\<close>

lemma validate_point:
  assumes "\<not> tm_hasRangeRead m"
  shows "validateTxn m p cw \<longleftrightarrow>
    (\<forall>(k, r) \<in> set (tm_readSet m). unat (map_get cw k) \<le> unat r)
    \<and> (\<forall>k \<in> writes m. unat (map_get cw k) \<le> unat (tm_snapshotRevision m))"
  unfolding validateTxn_def writes_def list_ex_iff word_le_nat_alt[symmetric] case_prod_beta
  by (simp add: assms) (fastforce simp: not_less)

lemma validate_sound:
  assumes v: "validateTxn m p cw" and nr: "\<not> tm_hasRangeRead m"
    and ob: "observed base h m" and cw: "cw_inv base h cw"
  shows "conflict_free h m"
  unfolding conflict_free_alt
proof
  fix k assume k: "k \<in> reads m \<union> writes m"
  let ?s = "unat (tm_snapshotRevision m)"
  have s: "base \<le> ?s" using ob by (simp add: observed_def)
  have vv: "\<forall>(k, r) \<in> set (tm_readSet m). unat (map_get cw k) \<le> unat r"
    "\<forall>k \<in> writes m. unat (map_get cw k) \<le> ?s"
    using v unfolding validate_point[OF nr] by blast+
  have "unat (map_get cw k) \<le> ?s"
  proof (cases "k \<in> writes m")
    case True
    then show ?thesis using vv(2) by blast
  next
    case False
    then obtain r where r: "(k, r) \<in> set (tm_readSet m)" using k by (auto simp: reads_def)
    then have "unat r \<le> last_write (take ?s h) k" using ob by (auto simp: observed_def)
    also have "\<dots> \<le> ?s" using last_write_le[of "take ?s h" k] by simp
    finally show ?thesis using vv(1) r by fastforce
  qed
  then show "last_write h k \<le> ?s" using cw s by (auto simp: cw_inv_def split: if_splits)
qed

lemma validate_complete:
  assumes cf: "conflict_free h m" and nr: "\<not> tm_hasRangeRead m"
    and ob: "observed_latest h m" and cw: "cw_inv base h cw"
  shows "validateTxn m p cw"
  unfolding validate_point[OF nr]
proof
  let ?s = "unat (tm_snapshotRevision m)"
  have cf': "k \<in> reads m \<union> writes m \<Longrightarrow> last_write h k \<le> ?s" for k using cf by (simp add: conflict_free_alt)
  have cw': "unat (map_get cw k) \<le> last_write h k" for k using cw by (auto simp: cw_inv_def)
  show "\<forall>k \<in> writes m. unat (map_get cw k) \<le> ?s" using cf' cw' order.trans by blast
  show "\<forall>(k, r) \<in> set (tm_readSet m). unat (map_get cw k) \<le> unat r"
  proof clarify
    fix k r assume kr: "(k, r) \<in> set (tm_readSet m)"
    then have "k \<in> reads m" by (force simp: reads_def)
    then have "last_write (take ?s h) k = last_write h k" using cf' by (intro last_write_take) auto
    then show "unat (map_get cw k) \<le> unat r" using ob kr cw'[of k] by (auto simp: observed_latest_def)
  qed
qed

lemma record_writes_get:
  "map_get (record_writes m r cw) k = (if k \<in> writes m then r else map_get cw k)"
proof -
  have "map_get (fold (\<lambda>(k, v) m. m(k \<mapsto> r)) ws cw) k = (if k \<in> fst ` set ws then r else map_get cw k)" for ws :: "(key \<times> bool) list"
    by (induction ws arbitrary: cw) (auto simp: map_get_def)
  then show ?thesis by (simp add: record_writes_def writes_def)
qed

lemma cw_inv_record:
  assumes "cw_inv base h cw" and "unat r = Suc (length h)" and "base \<le> length h" and "writes m = {k. touches k rec}"
  shows "cw_inv base (h @ [restamp r rec]) (record_writes m r cw)"
  using assms by (auto simp: cw_inv_def record_writes_get)

subsection \<open>Preparing a batch\<close>

text \<open>
  What may be committed on top of a history: a transaction with a range read only when its snapshot is
  the position the batch was prepared at, any other when it is free of conflicts.
\<close>

definition admissible :: "revision \<Rightarrow> history \<Rightarrow> TxnMeta \<Rightarrow> bool" where
  "admissible lastLogPosition h m \<longleftrightarrow>
     (if tm_hasRangeRead m then tm_snapshotRevision m = lastLogPosition else conflict_free h m)"

fun serial_commits :: "revision \<Rightarrow> history \<Rightarrow> PendingTxn list \<Rightarrow> bool" where
  "serial_commits p h [] \<longleftrightarrow> True"
| "serial_commits p h (t # ts) \<longleftrightarrow> admissible p h (pt_meta t) \<and> serial_commits p (h @ [pt_logRecord t]) ts"

text \<open>The transactions of a commit with the revisions after \<^verbatim>\<open>r\<close> stamped on them, in order.\<close>

fun restamp_from :: "revision \<Rightarrow> PendingTxn list \<Rightarrow> PendingTxn list" where
  "restamp_from r [] = []"
| "restamp_from r (t # ts) = t \<lparr> pt_logRecord := restamp (r + 1) (pt_logRecord t) \<rparr> # restamp_from (r + 1) ts"

definition pending_ok :: "nat \<Rightarrow> history \<Rightarrow> PendingTxn \<Rightarrow> bool" where
  "pending_ok base h t \<longleftrightarrow> observed base h (pt_meta t) \<and> writes (pt_meta t) = {k. touches k (pt_logRecord t)}"

lemma pending_ok_append: "pending_ok base h t \<Longrightarrow> pending_ok base (h @ h') t"
  by (simp add: pending_ok_def observed_append)

lemma length_restamp_from [simp]: "length (restamp_from r ts) = length ts"
  by (induction r ts rule: restamp_from.induct) auto

lemma nth_restamp_from:
  "i < length ts \<Longrightarrow> restamp_from r ts ! i =
     (ts ! i) \<lparr> pt_logRecord := restamp (r + of_nat (Suc i)) (pt_logRecord (ts ! i)) \<rparr>"
  by (induction r ts arbitrary: i rule: restamp_from.induct) (auto simp: nth_Cons add_ac split: nat.splits)

lemma serial_commits_nth:
  "serial_commits p h ts \<Longrightarrow> i < length ts \<Longrightarrow>
     admissible p (h @ map pt_logRecord (take i ts)) (pt_meta (ts ! i))"
proof (induction ts arbitrary: h i)
  case (Cons t ts)
  then show ?case by (cases i) (auto dest: Cons.IH)
qed simp

lemma unat_Suc64: "Suc (unat r) < 2 ^ 64 \<Longrightarrow> unat (r + 1 :: revision) = Suc (unat r)"
  by (simp add: unat_word_ariths)

lemma prepare_loop_sound:
  assumes "prepare_loop p pend r cw = (commit, accepted, rejected, cw')"
    and "cw_inv base h cw" and "unat r = length h" and "base \<le> length h"
    and "length h + length pend < 2 ^ 64" and "\<forall>t \<in> set pend. pending_ok base h t"
  shows "\<exists>ts. subseq ts pend \<and> commit = restamp_from r ts \<and> accepted = map pt_resultChan ts
    \<and> mset accepted + mset rejected = mset (map pt_resultChan pend)
    \<and> serial_commits p h commit \<and> cw_inv base (h @ map pt_logRecord commit) cw'"
  using assms
proof (induction p pend r cw arbitrary: h commit accepted rejected cw' rule: prepare_loop.induct)
  case (1 p r cw)
  then show ?case by simp
next
  case (2 p t ts r cw)
  show ?case
  proof (cases "validateTxn (pt_meta t) p cw")
    case False
    obtain c a rj cw1 where IHe: "prepare_loop p ts r cw = (c, a, rj, cw1)" by (metis prod_cases4)
    have eqs: "commit = c" "accepted = a" "rejected = pt_resultChan t # rj" "cw' = cw1"
      using "2.prems"(1) False IHe by auto
    have "length h + length ts < 2 ^ 64" "\<forall>t \<in> set ts. pending_ok base h t" using "2.prems"(5,6) by auto
    then obtain us where us: "subseq us ts" "c = restamp_from r us" "a = map pt_resultChan us"
      "mset a + mset rj = mset (map pt_resultChan ts)" "serial_commits p h c" "cw_inv base (h @ map pt_logRecord c) cw1"
      using "2.IH"(1)[OF False IHe "2.prems"(2-4)] by blast
    show ?thesis unfolding eqs using us by (intro exI[of _ us]) (auto simp: subseq_Cons')
  next
    case True
    let ?r = "r + 1" let ?rec = "restamp (r + 1) (pt_logRecord t)"
    let ?cw = "record_writes (pt_meta t) ?r cw"
    obtain c a rj cw1 where IHe: "prepare_loop p ts ?r ?cw = (c, a, rj, cw1)" by (metis prod_cases4)
    have eqs: "commit = t \<lparr> pt_logRecord := ?rec \<rparr> # c" "accepted = pt_resultChan t # a" "rejected = rj" "cw' = cw1"
      using "2.prems"(1) True IHe by (auto simp: Let_def)
    have r: "unat ?r = Suc (length h)" using "2.prems"(3,5) by (simp add: unat_Suc64)
    have t: "pending_ok base h t" using "2.prems"(6) by simp
    have cw: "cw_inv base (h @ [?rec]) ?cw"
      using cw_inv_record[OF "2.prems"(2) r "2.prems"(4)] t by (simp add: pending_ok_def)
    have adm: "admissible p h (pt_meta t)"
      using True validate_sound[OF True _ _ "2.prems"(2)] t
      by (auto simp: admissible_def pending_ok_def validateTxn_def)
    have pre: "unat ?r = length (h @ [?rec])" "base \<le> length (h @ [?rec])"
      "length (h @ [?rec]) + length ts < 2 ^ 64" "\<forall>t \<in> set ts. pending_ok base (h @ [?rec]) t"
      using r "2.prems"(4,5,6) pending_ok_append by auto
    obtain us where us: "subseq us ts" "c = restamp_from ?r us" "a = map pt_resultChan us"
      "mset a + mset rj = mset (map pt_resultChan ts)" "serial_commits p (h @ [?rec]) c"
      "cw_inv base ((h @ [?rec]) @ map pt_logRecord c) cw1"
      using "2.IH"(2)[OF _ refl refl IHe cw pre] True by blast
    show ?thesis unfolding eqs using us adm by (intro exI[of _ "t # us"]) auto
  qed
qed

subsection \<open>Runs of the batching layer\<close>

definition flushed_records :: "Batching \<Rightarrow> TxnBatch \<Rightarrow> history" where
  "flushed_records b batch =
     (case fst (snd (prepare batch (bg_lastLogPosition b) (bg_committedWrites b))) of
        None \<Rightarrow> []
      | Some c \<Rightarrow> map pt_logRecord (bc_transactions c))"

text \<open>
  Every interleaving of \<^verbatim>\<open>Add\<close> calls, the flusher and \<^verbatim>\<open>Close\<close> from a log with history \<^verbatim>\<open>h0\<close>: \<^verbatim>\<open>adds\<close> lists
  the transactions added so far (the one with result channel \<^verbatim>\<open>i\<close> at index \<^verbatim>\<open>i\<close>), \<^verbatim>\<open>h\<close> the records
  committed.  Clients add transactions evaluated at a snapshot of the log, with a record that has an
  event for exactly the keys of the write set.  A panic of the flusher ends the run.
\<close>

inductive batching_run :: "'l flush_func \<Rightarrow> revision \<Rightarrow> history \<Rightarrow> 'l
    \<Rightarrow> (LogRecord \<times> TxnMeta) list \<Rightarrow> history \<Rightarrow> Batching \<Rightarrow> 'l \<Rightarrow> bool"
  for flushFunc start h0 l0 where
  run_init: "batching_run flushFunc start h0 l0 [] h0 (NewBatching start) l0"
| run_add: "batching_run flushFunc start h0 l0 adds h b l
    \<Longrightarrow> observed (length h0) h m \<Longrightarrow> writes m = {k. touches k lr}
    \<Longrightarrow> batching_run flushFunc start h0 l0 (adds @ [(lr, m)]) h (fst (Batching_Add b lr m)) l"
| run_grab: "batching_run flushFunc start h0 l0 adds h b l
    \<Longrightarrow> \<not> bg_flusherDone b \<Longrightarrow> bg_flushing b = None
    \<Longrightarrow> bg_stop b \<or> bg_flushQueue b \<noteq> [] \<or> bg_openBatch b \<noteq> None
    \<Longrightarrow> batching_run flushFunc start h0 l0 adds h (grab_batch b) l"
| run_flush: "batching_run flushFunc start h0 l0 adds h b l
    \<Longrightarrow> bg_flushing b = Some batch \<Longrightarrow> flushBatch flushFunc b batch l = Inr (b', l')
    \<Longrightarrow> batching_run flushFunc start h0 l0 adds (h @ flushed_records b batch) b' l'"
| run_close: "batching_run flushFunc start h0 l0 adds h b l
    \<Longrightarrow> batching_run flushFunc start h0 l0 adds h (Batching_Close b) l"

definition all_batches :: "Batching \<Rightarrow> TxnBatch list" where
  "all_batches b = (case bg_flushing b of None \<Rightarrow> [] | Some f \<Rightarrow> [f]) @ bg_flushQueue b
     @ (case bg_openBatch b of None \<Rightarrow> [] | Some ob \<Rightarrow> [ob])"

definition all_pending :: "Batching \<Rightarrow> PendingTxn list" where
  "all_pending b = concat (map tb_pendingBatch (all_batches b))"

definition batch_inv :: "history \<Rightarrow> (LogRecord \<times> TxnMeta) list \<Rightarrow> history \<Rightarrow> Batching \<Rightarrow> bool" where
  "batch_inv h0 adds h b \<longleftrightarrow> unat (bg_lastLogPosition b) = length h \<and> length h0 \<le> length h
     \<and> cw_inv (length h0) h (bg_committedWrites b)
     \<and> (\<forall>t \<in> set (all_pending b). pending_ok (length h0) h t
          \<and> pt_resultChan t < length adds \<and> adds ! pt_resultChan t = (pt_logRecord t, pt_meta t))
     \<and> (\<forall>f \<in> set (all_batches b). \<not> tb_flushed f \<and> tb_pendingBatch f \<noteq> [])"

definition chan_inv :: "(LogRecord \<times> TxnMeta) list \<Rightarrow> Batching \<Rightarrow> bool" where
  "chan_inv adds b \<longleftrightarrow> bg_nextChan b = length adds
     \<and> mset (map pt_resultChan (all_pending b)) + mset_set (dom (bg_results b)) = mset_set {..<length adds}
     \<and> finite (dom (bg_results b))"

text \<open>A successful result names the revision whose record is the transaction's own, stamped with it.\<close>

definition result_ok :: "history \<Rightarrow> history \<Rightarrow> LogRecord \<times> TxnMeta \<Rightarrow> revision \<Rightarrow> bool" where
  "result_ok h0 h a r \<longleftrightarrow> length h0 < unat r \<and> unat r \<le> length h \<and> h ! (unat r - 1) = restamp r (fst a)
     \<and> (\<not> tm_hasRangeRead (snd a) \<longrightarrow> conflict_free (take (unat r - 1) h) (snd a))"

definition result_inv :: "history \<Rightarrow> (LogRecord \<times> TxnMeta) list \<Rightarrow> history \<Rightarrow> Batching \<Rightarrow> bool" where
  "result_inv h0 adds h b \<longleftrightarrow>
     (\<forall>ch r. bg_results b ch = Some \<lparr> br_revision = r, br_success = True \<rparr> \<longrightarrow> result_ok h0 h (adds ! ch) r)
     \<and> (\<forall>n. length h0 < n \<and> n \<le> length h \<longrightarrow>
          (\<exists>ch. bg_results b ch = Some \<lparr> br_revision = of_nat n, br_success = True \<rparr>))
     \<and> (\<forall>ch ch' r. bg_results b ch = Some \<lparr> br_revision = r, br_success = True \<rparr>
          \<and> bg_results b ch' = Some \<lparr> br_revision = r, br_success = True \<rparr> \<longrightarrow> ch = ch')"

lemma result_ok_append: "result_ok h0 h a r \<Longrightarrow> result_ok h0 (h @ h') a r"
  by (auto simp: result_ok_def nth_append)

subsubsection \<open>Delivery of results\<close>

lemma deliver_accepted_other: "ch \<notin> set chs \<Longrightarrow> deliver_accepted r chs res ch = res ch"
  by (induction r chs res rule: deliver_accepted.induct) auto

lemma deliver_accepted_nth:
  "distinct chs \<Longrightarrow> i < length chs \<Longrightarrow>
     deliver_accepted r chs res (chs ! i) = Some \<lparr> br_revision = r + of_nat (Suc i), br_success = True \<rparr>"
proof (induction chs arbitrary: r res i)
  case (Cons ch chs)
  then show ?case by (cases i) (auto simp: deliver_accepted_other add_ac)
qed simp

lemma deliver_accepted_dom: "dom (deliver_accepted r chs res) = dom res \<union> set chs"
  by (induction chs arbitrary: r res) auto

lemma deliver_rejected_apply:
  "deliver_rejected chs res ch = (if ch \<in> set chs then Some \<lparr> br_revision = 0, br_success = False \<rparr> else res ch)"
proof -
  have "fold (\<lambda>ch m. m(ch \<mapsto> v)) chs res ch = (if ch \<in> set chs then Some v else res ch)" for v :: BatchResult
    by (induction chs arbitrary: res) auto
  then show ?thesis by (simp add: deliver_rejected_def)
qed

lemma deliver_rejected_dom: "dom (deliver_rejected chs res) = dom res \<union> set chs"
  by (auto simp: deliver_rejected_apply dom_def)

subsubsection \<open>What one flush does\<close>

lemma flushBatch_cases:
  assumes f: "flushBatch flushFunc b batch l = Inr (b', l')" and ok: "\<not> tb_flushed batch" "tb_pendingBatch batch \<noteq> []"
  obtains commit accepted rejected cw where
    "prepare_loop (bg_lastLogPosition b) (tb_pendingBatch batch) (bg_lastLogPosition b) (bg_committedWrites b)
       = (commit, accepted, rejected, cw)"
    "b' = b \<lparr> bg_committedWrites := cw, bg_flushing := None,
        bg_results := deliver_rejected rejected (deliver_accepted (bg_lastLogPosition b) accepted (bg_results b)),
        bg_lastLogPosition := bg_lastLogPosition b + of_nat (length commit) \<rparr>"
    "flushed_records b batch = map pt_logRecord commit"
    "commit = [] \<and> l' = l \<or> commit \<noteq> [] \<and> flushFunc l (bg_lastLogPosition b) \<lparr> bc_transactions = commit \<rparr> = (None, l')"
proof -
  obtain commit accepted rejected cw where e:
    "prepare_loop (bg_lastLogPosition b) (tb_pendingBatch batch) (bg_lastLogPosition b) (bg_committedWrites b)
       = (commit, accepted, rejected, cw)" by (metis prod_cases4)
  show ?thesis
    by (rule that[OF e])
      (use f ok e in \<open>auto simp: flushBatch_def prepare_def flushed_records_def Let_def split: if_splits prod.splits option.splits\<close>)
qed

subsubsection \<open>The invariant\<close>

lemma all_pending_add:
  "all_pending (fst (Batching_Add b lr m))
     = all_pending b @ [\<lparr> pt_logRecord = lr, pt_meta = m, pt_resultChan = bg_nextChan b \<rparr>]"
  by (simp add: all_pending_def all_batches_def Batching_Add_def Let_def batch_add_def newTxnBatch_def split: option.splits)

lemma all_batches_add:
  assumes "\<forall>f \<in> set (all_batches b). \<not> tb_flushed f \<and> tb_pendingBatch f \<noteq> []"
  shows "\<forall>f \<in> set (all_batches (fst (Batching_Add b lr m))). \<not> tb_flushed f \<and> tb_pendingBatch f \<noteq> []"
proof (cases "bg_openBatch b")
  case None
  then show ?thesis
    using assms by (simp add: all_batches_def Batching_Add_def Let_def batch_add_def newTxnBatch_def ball_Un)
next
  case (Some ob)
  then show ?thesis
    using assms by (simp add: all_batches_def Batching_Add_def Let_def batch_add_def newTxnBatch_def ball_Un)
qed

lemma Batching_Add_other [simp]:
  "bg_lastLogPosition (fst (Batching_Add b lr m)) = bg_lastLogPosition b"
  "bg_committedWrites (fst (Batching_Add b lr m)) = bg_committedWrites b"
  "bg_results (fst (Batching_Add b lr m)) = bg_results b"
  "bg_nextChan (fst (Batching_Add b lr m)) = Suc (bg_nextChan b)"
  by (simp_all add: Batching_Add_def Let_def split: option.splits)

lemma all_batches_grab: "bg_flushing b = None \<Longrightarrow> all_batches (grab_batch b) = all_batches b"
  by (simp add: all_batches_def grab_batch_def split: list.splits option.splits)

lemma grab_batch_other [simp]:
  "bg_lastLogPosition (grab_batch b) = bg_lastLogPosition b"
  "bg_committedWrites (grab_batch b) = bg_committedWrites b"
  "bg_results (grab_batch b) = bg_results b"
  "bg_nextChan (grab_batch b) = bg_nextChan b"
  by (simp_all add: grab_batch_def split: list.splits option.splits)

lemma batch_inv_add:
  assumes i: "batch_inv h0 adds h b" and n: "bg_nextChan b = length adds"
    and ob: "observed (length h0) h m" and w: "writes m = {k. touches k lr}"
  shows "batch_inv h0 (adds @ [(lr, m)]) h (fst (Batching_Add b lr m))"
  unfolding batch_inv_def Batching_Add_other
proof (intro conjI)
  show "\<forall>t \<in> set (all_pending (fst (Batching_Add b lr m))). pending_ok (length h0) h t
      \<and> pt_resultChan t < length (adds @ [(lr, m)])
      \<and> (adds @ [(lr, m)]) ! pt_resultChan t = (pt_logRecord t, pt_meta t)" (is "\<forall>t \<in> _. ?P t")
  proof
    fix t assume "t \<in> set (all_pending (fst (Batching_Add b lr m)))"
    then consider "t \<in> set (all_pending b)"
      | "t = \<lparr> pt_logRecord = lr, pt_meta = m, pt_resultChan = length adds \<rparr>"
      unfolding all_pending_add n by auto
    then show "?P t"
    proof cases
      case 1
      then show ?thesis using i by (simp add: batch_inv_def nth_append less_Suc_eq)
    next
      case 2
      then show ?thesis using ob w by (simp add: pending_ok_def)
    qed
  qed
  show "\<forall>f \<in> set (all_batches (fst (Batching_Add b lr m))). \<not> tb_flushed f \<and> tb_pendingBatch f \<noteq> []"
    by (rule all_batches_add) (use i in \<open>simp add: batch_inv_def\<close>)
qed (use i in \<open>simp_all add: batch_inv_def\<close>)

lemma chan_inv_add: "chan_inv adds b \<Longrightarrow> chan_inv (adds @ [(lr, m)]) (fst (Batching_Add b lr m))"
  by (auto simp: chan_inv_def all_pending_add lessThan_Suc)

lemma result_inv_add:
  assumes "result_inv h0 adds h b" and d: "dom (bg_results b) \<subseteq> {..<length adds}"
  shows "result_inv h0 (adds @ [(lr, m)]) h (fst (Batching_Add b lr m))"
  using assms by (fastforce simp: result_inv_def nth_append)

lemma mset_partition:
  assumes eq: "mset xs + mset_set D = mset_set A" and f: "finite D" "finite A"
  shows "distinct xs" and "set xs \<inter> D = {}" and "set xs \<union> D = A"
proof -
  have c: "count (mset xs) x + count (mset_set D) x = count (mset_set A) x" for x
    unfolding count_union[symmetric] eq by (rule refl)
  define n where "n = count (mset xs)"
  have n: "0 < n x \<longleftrightarrow> x \<in> set xs" for x by (simp add: n_def)
  have le: "n x + (if x \<in> D then 1 else 0) = (if x \<in> A then 1 else 0)" for x
    using c[of x] f unfolding n_def[symmetric] by (simp add: count_mset_set' split: if_splits)
  have one: "n x = (if x \<in> set xs then 1 else 0)" for x
    using le[of x] n[of x] by (cases "x \<in> D"; cases "x \<in> A"; cases "x \<in> set xs") auto
  have mem: "(x \<in> set xs \<longrightarrow> x \<notin> D) \<and> (x \<in> set xs \<or> x \<in> D \<longleftrightarrow> x \<in> A)" for x
    using le[of x] one[of x] by (cases "x \<in> D"; cases "x \<in> A"; cases "x \<in> set xs") auto
  show "distinct xs" unfolding distinct_count_atmost_1 using one by (simp add: n_def)
  show "set xs \<inter> D = {}" "set xs \<union> D = A" using mem by auto
qed

lemma chan_inv_pending:
  assumes "chan_inv adds b"
  shows "distinct (map pt_resultChan (all_pending b))"
    and "set (map pt_resultChan (all_pending b)) \<inter> dom (bg_results b) = {}"
    and "set (map pt_resultChan (all_pending b)) \<union> dom (bg_results b) = {..<length adds}"
  using mset_partition[of "map pt_resultChan (all_pending b)" "dom (bg_results b)" "{..<length adds}"] assms
  unfolding chan_inv_def by blast+

lemma deliver_all:
  assumes ch: "mset accepted + mset rejected = mset pend" and d: "distinct pend"
    and disj: "set pend \<inter> dom res = {}"
    and res'_def: "res' = deliver_rejected rejected (deliver_accepted r accepted res)"
  shows "dom res' = set pend \<union> dom res"
    and "i < length accepted \<Longrightarrow> res' (accepted ! i) = Some \<lparr> br_revision = r + of_nat (Suc i), br_success = True \<rparr>"
    and "res' c = Some v \<Longrightarrow> br_success v \<Longrightarrow>
      res c = Some v \<or> (\<exists>i < length accepted. c = accepted ! i \<and> v = \<lparr> br_revision = r + of_nat (Suc i), br_success = True \<rparr>)"
    and "c \<notin> set pend \<Longrightarrow> res' c = res c"
proof -
  have s: "set pend = set accepted \<union> set rejected"
    using arg_cong[OF ch, of set_mset] by simp
  have "distinct (accepted @ rejected)" using d ch by (metis mset_append mset_eq_imp_distinct_iff)
  then have da: "distinct accepted" and dj: "set accepted \<inter> set rejected = {}" by auto
  show "dom res' = set pend \<union> dom res"
    by (auto simp: res'_def deliver_rejected_dom deliver_accepted_dom s)
  have notin: "i < length accepted \<Longrightarrow> accepted ! i \<notin> set rejected" for i using dj nth_mem[of i accepted] by blast
  show nth: "i < length accepted \<Longrightarrow> res' (accepted ! i) = Some \<lparr> br_revision = r + of_nat (Suc i), br_success = True \<rparr>" for i
    using notin[of i] by (simp add: res'_def deliver_rejected_apply deliver_accepted_nth[OF da])
  show "c \<notin> set pend \<Longrightarrow> res' c = res c"
    by (simp add: res'_def deliver_rejected_apply deliver_accepted_other s)
  show "res' c = Some v \<Longrightarrow> br_success v \<Longrightarrow>
      res c = Some v \<or> (\<exists>i < length accepted. c = accepted ! i \<and> v = \<lparr> br_revision = r + of_nat (Suc i), br_success = True \<rparr>)"
  proof (cases "c \<in> set accepted")
    case True
    assume v: "res' c = Some v"
    obtain i where i: "i < length accepted" "accepted ! i = c" using True by (meson in_set_conv_nth)
    then show ?thesis using nth[OF i(1)] v by auto
  next
    case False
    assume "res' c = Some v" "br_success v"
    then show ?thesis using False by (auto simp: res'_def deliver_rejected_apply deliver_accepted_other split: if_splits)
  qed
qed

text \<open>One flush, seen from the invariants.\<close>

lemma flush_step:
  assumes inv: "batch_inv h0 adds h b" "chan_inv adds b" and fl: "bg_flushing b = Some batch"
    and f: "flushBatch flushFunc b batch l = Inr (b', l')"
    and bound: "length h + length (tb_pendingBatch batch) < 2 ^ 64"
  obtains ts rejected cw where
    "subseq ts (tb_pendingBatch batch)"
    "flushed_records b batch = map pt_logRecord (restamp_from (bg_lastLogPosition b) ts)"
    "mset (map pt_resultChan ts) + mset rejected = mset (map pt_resultChan (tb_pendingBatch batch))"
    "serial_commits (bg_lastLogPosition b) h (restamp_from (bg_lastLogPosition b) ts)"
    "cw_inv (length h0) (h @ flushed_records b batch) cw"
    "b' = b \<lparr> bg_committedWrites := cw, bg_flushing := None,
        bg_results := deliver_rejected rejected (deliver_accepted (bg_lastLogPosition b) (map pt_resultChan ts) (bg_results b)),
        bg_lastLogPosition := bg_lastLogPosition b + of_nat (length ts) \<rparr>"
    "ts = [] \<and> l' = l \<or> ts \<noteq> [] \<and>
     flushFunc l (bg_lastLogPosition b) \<lparr> bc_transactions = restamp_from (bg_lastLogPosition b) ts \<rparr> = (None, l')"
    "all_batches b = batch # all_batches b'"
proof -
  have mem: "batch \<in> set (all_batches b)" using fl by (simp add: all_batches_def)
  have ok: "\<not> tb_flushed batch" "tb_pendingBatch batch \<noteq> []" using inv(1) mem by (auto simp: batch_inv_def)
  have pend: "\<forall>t \<in> set (tb_pendingBatch batch). pending_ok (length h0) h t"
    using inv(1) mem by (auto simp: batch_inv_def all_pending_def)
  have pos: "unat (bg_lastLogPosition b) = length h" "length h0 \<le> length h"
    "cw_inv (length h0) h (bg_committedWrites b)" using inv(1) by (auto simp: batch_inv_def)
  obtain commit accepted rejected cw where c:
    "prepare_loop (bg_lastLogPosition b) (tb_pendingBatch batch) (bg_lastLogPosition b) (bg_committedWrites b)
       = (commit, accepted, rejected, cw)"
    "b' = b \<lparr> bg_committedWrites := cw, bg_flushing := None,
        bg_results := deliver_rejected rejected (deliver_accepted (bg_lastLogPosition b) accepted (bg_results b)),
        bg_lastLogPosition := bg_lastLogPosition b + of_nat (length commit) \<rparr>"
    "flushed_records b batch = map pt_logRecord commit"
    "commit = [] \<and> l' = l \<or> commit \<noteq> [] \<and> flushFunc l (bg_lastLogPosition b) \<lparr> bc_transactions = commit \<rparr> = (None, l')"
    by (rule flushBatch_cases[OF f ok])
  obtain ts where ts: "subseq ts (tb_pendingBatch batch)" "commit = restamp_from (bg_lastLogPosition b) ts"
    "accepted = map pt_resultChan ts"
    "mset accepted + mset rejected = mset (map pt_resultChan (tb_pendingBatch batch))"
    "serial_commits (bg_lastLogPosition b) h commit" "cw_inv (length h0) (h @ map pt_logRecord commit) cw"
    using prepare_loop_sound[OF c(1) pos(3,1,2) bound pend] by blast
  show ?thesis
  proof (rule that[of ts rejected cw])
    show "ts = [] \<and> l' = l \<or> ts \<noteq> [] \<and>
     flushFunc l (bg_lastLogPosition b) \<lparr> bc_transactions = restamp_from (bg_lastLogPosition b) ts \<rparr> = (None, l')"
      using c(4) ts(2) by (cases ts) auto
  qed (use ts c fl in \<open>simp_all add: all_batches_def\<close>)
qed

lemma batch_inv_flush:
  assumes inv: "batch_inv h0 adds h b" "chan_inv adds b" and fl: "bg_flushing b = Some batch"
    and f: "flushBatch flushFunc b batch l = Inr (b', l')"
    and bound: "length h + length (tb_pendingBatch batch) < 2 ^ 64"
  shows "batch_inv h0 adds (h @ flushed_records b batch) b'" (is "batch_inv h0 adds ?h b'")
proof (rule flush_step[OF assms])
  fix ts rejected cw
  assume s: "subseq ts (tb_pendingBatch batch)"
    and r: "flushed_records b batch = map pt_logRecord (restamp_from (bg_lastLogPosition b) ts)"
    and cw: "cw_inv (length h0) ?h cw" and b': "b' = b \<lparr> bg_committedWrites := cw, bg_flushing := None,
        bg_results := deliver_rejected rejected (deliver_accepted (bg_lastLogPosition b) (map pt_resultChan ts) (bg_results b)),
        bg_lastLogPosition := bg_lastLogPosition b + of_nat (length ts) \<rparr>"
    and ab: "all_batches b = batch # all_batches b'"
  have pos: "unat (bg_lastLogPosition b) = length h" "length h0 \<le> length h" using inv(1) by (auto simp: batch_inv_def)
  have "length ts \<le> length (tb_pendingBatch batch)" using s by (rule list_emb_length)
  then have "unat (bg_lastLogPosition b + of_nat (length ts)) = length h + length ts"
    using bound pos by (simp add: unat_word_ariths unat_of_nat take_bit_nat_eq_self)
  then have len: "unat (bg_lastLogPosition b') = length ?h" by (simp add: b' r)
  have sub: "set (all_pending b') \<subseteq> set (all_pending b)" "set (all_batches b') \<subseteq> set (all_batches b)"
    by (auto simp: all_pending_def ab)
  show ?thesis
    unfolding batch_inv_def
  proof (intro conjI)
    show "unat (bg_lastLogPosition b') = length ?h" by (rule len)
    show "length h0 \<le> length ?h" using pos by simp
    show "cw_inv (length h0) ?h (bg_committedWrites b')" using cw by (simp add: b')
    show "\<forall>t \<in> set (all_pending b'). pending_ok (length h0) ?h t
          \<and> pt_resultChan t < length adds \<and> adds ! pt_resultChan t = (pt_logRecord t, pt_meta t)"
      using inv(1) sub(1) pending_ok_append unfolding batch_inv_def by blast
    show "\<forall>f \<in> set (all_batches b'). \<not> tb_flushed f \<and> tb_pendingBatch f \<noteq> []"
      using inv(1) sub(2) unfolding batch_inv_def by blast
  qed
qed

lemma chan_inv_flush:
  assumes inv: "batch_inv h0 adds h b" "chan_inv adds b" and fl: "bg_flushing b = Some batch"
    and f: "flushBatch flushFunc b batch l = Inr (b', l')"
    and bound: "length h + length (tb_pendingBatch batch) < 2 ^ 64"
  shows "chan_inv adds b'"
proof (rule flush_step[OF assms])
  fix ts rejected cw
  let ?pend = "map pt_resultChan (tb_pendingBatch batch)"
  assume ch: "mset (map pt_resultChan ts) + mset rejected = mset ?pend"
    and b': "b' = b \<lparr> bg_committedWrites := cw, bg_flushing := None,
        bg_results := deliver_rejected rejected (deliver_accepted (bg_lastLogPosition b) (map pt_resultChan ts) (bg_results b)),
        bg_lastLogPosition := bg_lastLogPosition b + of_nat (length ts) \<rparr>"
    and ab: "all_batches b = batch # all_batches b'"
  have ap: "map pt_resultChan (all_pending b) = ?pend @ map pt_resultChan (all_pending b')"
    by (simp add: all_pending_def ab)
  have d: "distinct ?pend" and dj: "set ?pend \<inter> dom (bg_results b) = {}"
    using chan_inv_pending(1,2)[OF inv(2)] unfolding ap by auto
  have dom: "dom (bg_results b') = set ?pend \<union> dom (bg_results b)"
    by (rule deliver_all(1)[OF ch d dj]) (simp add: b')
  have fin: "finite (dom (bg_results b))" using inv(2) by (simp add: chan_inv_def)
  have eq: "mset (map pt_resultChan (all_pending b)) + mset_set (dom (bg_results b)) = mset_set {..<length adds}"
    using inv(2) by (simp only: chan_inv_def)
  have "mset_set (dom (bg_results b')) = mset ?pend + mset_set (dom (bg_results b))"
    unfolding dom using mset_set_Union[OF _ fin dj] mset_set_set[OF d] by simp
  then have "mset (map pt_resultChan (all_pending b')) + mset_set (dom (bg_results b')) = mset_set {..<length adds}"
    unfolding eq[symmetric] ap by (simp add: add_ac)
  then show ?thesis using inv(2) fin dom b' by (simp add: chan_inv_def)
qed

lemma result_inv_flush:
  assumes inv: "batch_inv h0 adds h b" "chan_inv adds b" and fl: "bg_flushing b = Some batch"
    and f: "flushBatch flushFunc b batch l = Inr (b', l')"
    and bound: "length h + length (tb_pendingBatch batch) < 2 ^ 64" and res: "result_inv h0 adds h b"
  shows "result_inv h0 adds (h @ flushed_records b batch) b'" (is "result_inv h0 adds ?h b'")
proof (rule flush_step[OF assms(1-5)])
  fix ts rejected cw
  let ?pend = "map pt_resultChan (tb_pendingBatch batch)" and ?p = "bg_lastLogPosition b"
  assume sub: "subseq ts (tb_pendingBatch batch)"
    and rec: "flushed_records b batch = map pt_logRecord (restamp_from ?p ts)"
    and ch: "mset (map pt_resultChan ts) + mset rejected = mset ?pend"
    and ser: "serial_commits ?p h (restamp_from ?p ts)"
    and b': "b' = b \<lparr> bg_committedWrites := cw, bg_flushing := None,
        bg_results := deliver_rejected rejected (deliver_accepted ?p (map pt_resultChan ts) (bg_results b)),
        bg_lastLogPosition := ?p + of_nat (length ts) \<rparr>"
    and ab: "all_batches b = batch # all_batches b'"
  have ap: "map pt_resultChan (all_pending b) = ?pend @ map pt_resultChan (all_pending b')"
    by (simp add: all_pending_def ab)
  have d: "distinct ?pend" and dj: "set ?pend \<inter> dom (bg_results b) = {}"
    using chan_inv_pending(1,2)[OF inv(2)] unfolding ap by auto
  have r': "bg_results b' = deliver_rejected rejected (deliver_accepted ?p (map pt_resultChan ts) (bg_results b))"
    by (simp add: b')
  note del = deliver_all[OF ch d dj r']
  have pos: "unat ?p = length h" "length h0 \<le> length h" using inv(1) by (auto simp: batch_inv_def)
  have lts: "length ts \<le> length (tb_pendingBatch batch)" using sub by (rule list_emb_length)
  have rev: "unat (?p + of_nat (Suc i)) = length h + Suc i" if "i < length ts" for i
    using that lts bound pos by (simp add: unat_word_ariths unat_of_nat take_bit_nat_eq_self del: of_nat_Suc)
  have new: "result_ok h0 ?h (adds ! pt_resultChan (ts ! i)) (?p + of_nat (Suc i))" if i: "i < length ts" for i
  proof -
    have "ts ! i \<in> set ts" using i by simp
    then have mem: "ts ! i \<in> set (all_pending b)" using sub list_emb_set[OF sub]
      by (auto simp: all_pending_def ab)
    then have ad: "adds ! pt_resultChan (ts ! i) = (pt_logRecord (ts ! i), pt_meta (ts ! i))"
      using inv(1) by (auto simp: batch_inv_def)
    have tk: "take (length h + i) ?h = h @ map pt_logRecord (take i (restamp_from ?p ts))"
      by (simp add: rec take_map)
    have "admissible ?p (take (length h + i) ?h) (pt_meta (ts ! i))"
      using serial_commits_nth[OF ser, of i] i unfolding tk by (simp add: nth_restamp_from)
    moreover have "?h ! (length h + i) = restamp (?p + of_nat (Suc i)) (pt_logRecord (ts ! i))"
      using i by (simp add: rec nth_append nth_restamp_from)
    ultimately show ?thesis
      using rev[OF i] i pos unfolding result_ok_def ad by (simp add: admissible_def rec)
  qed
  have old: "result_ok h0 h (adds ! c) r" if "bg_results b c = Some \<lparr> br_revision = r, br_success = True \<rparr>" for c r
    using res that unfolding result_inv_def by blast
  have cases: "bg_results b c = Some \<lparr> br_revision = r, br_success = True \<rparr>
      \<or> (\<exists>i < length ts. c = pt_resultChan (ts ! i) \<and> r = ?p + of_nat (Suc i))"
    if "bg_results b' c = Some \<lparr> br_revision = r, br_success = True \<rparr>" for c r
    using del(3)[OF that] by auto
  show ?thesis unfolding result_inv_def
  proof (intro conjI allI impI)
    fix c r assume "bg_results b' c = Some \<lparr> br_revision = r, br_success = True \<rparr>"
    from cases[OF this] consider "bg_results b c = Some \<lparr> br_revision = r, br_success = True \<rparr>"
      | i where "i < length ts" "c = pt_resultChan (ts ! i)" "r = ?p + of_nat (Suc i)" by blast
    then show "result_ok h0 ?h (adds ! c) r"
    proof cases
      case 1
      then show ?thesis by (intro result_ok_append old)
    next
      case 2
      then show ?thesis using new[OF 2(1)] by simp
    qed
  next
    fix c c' r assume a: "bg_results b' c = Some \<lparr> br_revision = r, br_success = True \<rparr>
      \<and> bg_results b' c' = Some \<lparr> br_revision = r, br_success = True \<rparr>"
    show "c = c'"
    proof (cases "unat r \<le> length h")
      case True
      then have "bg_results b c = Some \<lparr> br_revision = r, br_success = True \<rparr>"
        "bg_results b c' = Some \<lparr> br_revision = r, br_success = True \<rparr>"
        using cases[of c r] cases[of c' r] a rev by auto
      then show ?thesis using res unfolding result_inv_def by blast
    next
      case False
      then have no: "bg_results b d \<noteq> Some \<lparr> br_revision = r, br_success = True \<rparr>" for d
        using old[of d r] by (auto simp: result_ok_def)
      obtain i j where i: "i < length ts" "c = pt_resultChan (ts ! i)" "r = ?p + of_nat (Suc i)"
        and j: "j < length ts" "c' = pt_resultChan (ts ! j)" "r = ?p + of_nat (Suc j)"
        using cases[of c r] cases[of c' r] a no by blast
      have "i = j" using rev[OF i(1)] rev[OF j(1)] i(3) j(3) by simp
      then show ?thesis using i j by simp
    qed
  next
    fix n assume n: "length h0 < n \<and> n \<le> length ?h"
    show "\<exists>c. bg_results b' c = Some \<lparr> br_revision = of_nat n, br_success = True \<rparr>"
    proof (cases "n \<le> length h")
      case True
      then obtain c where c: "bg_results b c = Some \<lparr> br_revision = of_nat n, br_success = True \<rparr>"
        using res n unfolding result_inv_def by blast
      then have "c \<notin> set ?pend" using dj by blast
      then show ?thesis using c del(4) by metis
    next
      case False
      then obtain i where i: "n = length h + Suc i" by (metis add_Suc_right less_imp_Suc_add not_le)
      then have "i < length ts" using n by (simp add: rec)
      moreover have "of_nat n = ?p + of_nat (Suc i)" by (simp add: i pos(1)[symmetric])
      ultimately show ?thesis using del(2)[of i] by (metis length_map)
    qed
  qed
qed

definition count_inv :: "history \<Rightarrow> (LogRecord \<times> TxnMeta) list \<Rightarrow> history \<Rightarrow> Batching \<Rightarrow> bool" where
  "count_inv h0 adds h b \<longleftrightarrow> length h + length (all_pending b) \<le> length h0 + length adds"

definition run_inv :: "history \<Rightarrow> (LogRecord \<times> TxnMeta) list \<Rightarrow> history \<Rightarrow> Batching \<Rightarrow> bool" where
  "run_inv h0 adds h b \<longleftrightarrow>
     batch_inv h0 adds h b \<and> chan_inv adds b \<and> result_inv h0 adds h b \<and> count_inv h0 adds h b"

lemma run_inv_add:
  assumes "run_inv h0 adds h b" and "observed (length h0) h m" and "writes m = {k. touches k lr}"
  shows "run_inv h0 (adds @ [(lr, m)]) h (fst (Batching_Add b lr m))"
proof -
  have i: "batch_inv h0 adds h b" "chan_inv adds b" "result_inv h0 adds h b" "count_inv h0 adds h b"
    using assms(1) by (auto simp: run_inv_def)
  have n: "bg_nextChan b = length adds" using i(2) by (simp add: chan_inv_def)
  have d: "dom (bg_results b) \<subseteq> {..<length adds}" using chan_inv_pending(3)[OF i(2)] by blast
  show ?thesis unfolding run_inv_def
    using batch_inv_add[OF i(1) n assms(2,3)] chan_inv_add[OF i(2)] result_inv_add[OF i(3) d] i(4)
    by (simp add: count_inv_def all_pending_add)
qed

lemma run_inv_flush:
  assumes "run_inv h0 adds h b" and fl: "bg_flushing b = Some batch"
    and f: "flushBatch flushFunc b batch l = Inr (b', l')" and bound: "length h0 + length adds < 2 ^ 64"
  shows "run_inv h0 adds (h @ flushed_records b batch) b'"
proof -
  have i: "batch_inv h0 adds h b" "chan_inv adds b" "result_inv h0 adds h b" "count_inv h0 adds h b"
    using assms(1) by (auto simp: run_inv_def)
  have ap: "length (all_pending b) = length (tb_pendingBatch batch) + length (concat (map tb_pendingBatch (tl (all_batches b))))"
    using fl by (simp add: all_pending_def all_batches_def)
  have bd: "length h + length (tb_pendingBatch batch) < 2 ^ 64"
    using i(4) ap bound by (simp add: count_inv_def)
  have "count_inv h0 adds (h @ flushed_records b batch) b'"
  proof (rule flush_step[OF i(1,2) fl f bd])
    fix ts assume s: "subseq ts (tb_pendingBatch batch)"
      and r: "flushed_records b batch = map pt_logRecord (restamp_from (bg_lastLogPosition b) ts)"
      and ab: "all_batches b = batch # all_batches b'"
    have "length ts \<le> length (tb_pendingBatch batch)" using s by (rule list_emb_length)
    then show ?thesis using i(4) ap by (simp add: count_inv_def r ab all_pending_def)
  qed
  then show ?thesis unfolding run_inv_def
    using batch_inv_flush[OF i(1,2) fl f bd] chan_inv_flush[OF i(1,2) fl f bd] result_inv_flush[OF i(1,2) fl f bd i(3)]
    by blast
qed

lemma run_inv_cong:
  assumes "run_inv h0 adds h b" and "all_batches b' = all_batches b" and "bg_lastLogPosition b' = bg_lastLogPosition b"
    and "bg_committedWrites b' = bg_committedWrites b" and "bg_results b' = bg_results b" and "bg_nextChan b' = bg_nextChan b"
  shows "run_inv h0 adds h b'"
  using assms by (simp add: run_inv_def batch_inv_def chan_inv_def result_inv_def count_inv_def all_pending_def)

lemma batching_run_inv:
  assumes "batching_run flushFunc start h0 l0 adds h b l" and "unat start = length h0"
    and "length h0 + length adds < 2 ^ 64" and "length h0 < 2 ^ 64"
  shows "run_inv h0 adds h b"
  using assms
proof (induction rule: batching_run.induct)
  case run_init
  have "cw_inv (length h0) h0 Map.empty" using last_write_le[of h0] by (auto simp: cw_inv_def map_get_def not_less)
  with run_init show ?case
    by (simp add: run_inv_def batch_inv_def chan_inv_def result_inv_def count_inv_def all_pending_def all_batches_def NewBatching_def)
next
  case (run_add adds h b l m lr)
  then have "run_inv h0 adds h b" by simp
  from run_inv_add[OF this run_add.hyps(2,3)] show ?case .
next
  case (run_grab adds h b l)
  then show ?case by - (rule run_inv_cong[of h0 adds h b], simp_all add: all_batches_grab)
next
  case (run_flush adds h b l batch b' l')
  then have "run_inv h0 adds h b" by simp
  from run_inv_flush[OF this run_flush.hyps(2,3)] run_flush.prems show ?case by simp
next
  case (run_close adds h b l)
  then show ?case by - (rule run_inv_cong[of h0 adds h b], simp_all add: all_batches_def Batching_Close_def)
qed

subsection \<open>The interface to the backend\<close>

text \<open>
  What batching relies on: a commit that returns without an error has appended the records of the
  batch to the log.  \<^verbatim>\<open>holds l h\<close> relates the backend's state to the history of its records.
\<close>

locale commit_log =
  fixes flushFunc :: "'l flush_func" and holds :: "'l \<Rightarrow> history \<Rightarrow> bool" and storable :: "LogRecord \<Rightarrow> bool"
  assumes commit_appends:
    "holds l h \<Longrightarrow> unat p = length h \<Longrightarrow> length h + length (bc_transactions c) < 2 ^ 63
     \<Longrightarrow> bc_transactions c \<noteq> [] \<Longrightarrow> \<forall>t \<in> set (bc_transactions c). storable (pt_logRecord t)
     \<Longrightarrow> flushFunc l p c = (None, l')
     \<Longrightarrow> holds l' (h @ map pt_logRecord (bc_transactions c))"
begin

lemma run_holds:
  assumes "batching_run flushFunc start h0 l0 adds h b l" and "unat start = length h0"
    and "length h0 + length adds < 2 ^ 63" and "holds l0 h0" and "\<forall>a \<in> set adds. \<forall>r. storable (restamp r (fst a))"
  shows "holds l h"
  using assms
proof (induction rule: batching_run.induct)
  case (run_flush adds h b l batch b' l')
  have run: "run_inv h0 adds h b"
    by (rule batching_run_inv[OF run_flush.hyps(1)]) (use run_flush.prems in simp_all)
  then have i: "batch_inv h0 adds h b" "chan_inv adds b" "count_inv h0 adds h b" by (auto simp: run_inv_def)
  have ap: "set (tb_pendingBatch batch) \<subseteq> set (all_pending b)" "length (tb_pendingBatch batch) \<le> length (all_pending b)"
    using run_flush.hyps(2) by (auto simp: all_pending_def all_batches_def)
  have bd63: "length h + length (tb_pendingBatch batch) < 2 ^ 63"
    using i(3) ap(2) run_flush.prems by (simp add: count_inv_def)
  then have bd: "length h + length (tb_pendingBatch batch) < 2 ^ 64" by simp
  show ?case
  proof (rule flush_step[OF i(1,2) run_flush.hyps(2,3) bd])
    fix ts
    let ?p = "bg_lastLogPosition b"
    assume s: "subseq ts (tb_pendingBatch batch)"
      and r: "flushed_records b batch = map pt_logRecord (restamp_from ?p ts)"
      and c: "ts = [] \<and> l' = l \<or> ts \<noteq> [] \<and> flushFunc l ?p \<lparr> bc_transactions = restamp_from ?p ts \<rparr> = (None, l')"
    have l: "holds l h" using run_flush by simp
    have len: "length h + length ts < 2 ^ 63" using bd63 list_emb_length[OF s] by simp
    have pos: "unat ?p = length h" using i(1) by (simp add: batch_inv_def)
    have st: "storable (restamp q (pt_logRecord t))" if "t \<in> set ts" for t q
    proof -
      have "t \<in> set (all_pending b)" using that ap(1) list_emb_set[OF s] by blast
      then have "pt_resultChan t < length adds" "adds ! pt_resultChan t = (pt_logRecord t, pt_meta t)"
        using i(1) by (auto simp: batch_inv_def)
      then have "(pt_logRecord t, pt_meta t) \<in> set adds" by (metis nth_mem)
      then show ?thesis using run_flush.prems(4) by force
    qed
    have "storable (pt_logRecord (restamp_from ?p ts ! k))" if "k < length ts" for k
      using st[OF nth_mem[OF that]] by (simp add: nth_restamp_from[OF that] del: of_nat_Suc)
    then have "\<forall>t \<in> set (restamp_from ?p ts). storable (pt_logRecord t)"
      by (metis in_set_conv_nth length_restamp_from)
    moreover have "restamp_from ?p ts \<noteq> [] \<longleftrightarrow> ts \<noteq> []" by (metis length_0_conv length_restamp_from)
    ultimately show ?thesis
      using commit_appends[OF l pos, of "\<lparr> bc_transactions = restamp_from ?p ts \<rparr>" l'] c l len by (auto simp: r)
  qed
qed simp_all

end

subsection \<open>Independence within a batch\<close>

text \<open>The transactions of a batch were admitted one by one with \<^verbatim>\<open>CanBatchWith\<close>.\<close>

definition batchable :: "TxnBatch \<Rightarrow> bool" where
  "batchable b \<longleftrightarrow> (\<forall>t \<in> set (tb_pendingBatch b). meta_wf (pt_meta t))
     \<and> sorted_wrt (\<lambda>t u. CanBatchTogether (pt_meta t) (pt_meta u)) (tb_pendingBatch b)"

lemma list_ex_fst: "list_ex (\<lambda>(k, v). k \<in> A) xs \<longleftrightarrow> fst ` set xs \<inter> A \<noteq> {}"
  by (induction xs) auto

lemma CanBatchTogether_iff:
  assumes "meta_wf m" and "meta_wf m'"
  shows "CanBatchTogether m m' \<longleftrightarrow> writes m \<inter> (writes m' \<union> reads m') = {}"
  unfolding CanBatchTogether_def in_writeSet_writes[OF assms(1)] in_writeSet_writes[OF assms(2)]
  unfolding list_ex_fst writes_def[symmetric] reads_def[symmetric] by auto

lemma batchable_add:
  assumes "batchable b" and "CanBatchWith b m" and "meta_wf m"
  shows "batchable (batch_add b lr m ch)"
  using assms by (auto simp: batchable_def CanBatchWith_def batch_add_def sorted_wrt_append list_all_iff)

lemma validate_record_writes:
  assumes "meta_wf m" and "meta_wf m'" and "CanBatchTogether m m'"
  shows "validateTxn m' p (record_writes m r cw) = validateTxn m' p cw"
proof -
  have "k \<notin> writes m" if "k \<in> fst ` set (tm_readSet m') \<union> fst ` set (tm_writeSet m')" for k
    using assms that by (auto simp: CanBatchTogether_iff reads_def writes_def)
  then have "map_get (record_writes m r cw) k = map_get cw k"
    if "k \<in> fst ` set (tm_readSet m') \<union> fst ` set (tm_writeSet m')" for k
    using that by (simp add: record_writes_get)
  then have "list_ex (\<lambda>(k, r'). map_get (record_writes m r cw) k > r') (tm_readSet m')
      = list_ex (\<lambda>(k, r'). map_get cw k > r') (tm_readSet m')"
    "list_ex (\<lambda>(k, v). map_get (record_writes m r cw) k > tm_snapshotRevision m') (tm_writeSet m')
      = list_ex (\<lambda>(k, v). map_get cw k > tm_snapshotRevision m') (tm_writeSet m')"
    by (force simp: list_ex_iff)+
  then show ?thesis unfolding validateTxn_def by simp
qed

lemma prepare_loop_filter:
  assumes "\<forall>t \<in> set pend. meta_wf (pt_meta t)"
    and "sorted_wrt (\<lambda>t u. CanBatchTogether (pt_meta t) (pt_meta u)) pend"
    and "\<forall>t \<in> set pend. validateTxn (pt_meta t) p cw = validateTxn (pt_meta t) p cw0"
  shows "\<exists>cw'. prepare_loop p pend r cw =
    (restamp_from r (filter (\<lambda>t. validateTxn (pt_meta t) p cw0) pend),
     map pt_resultChan (filter (\<lambda>t. validateTxn (pt_meta t) p cw0) pend),
     map pt_resultChan (filter (\<lambda>t. \<not> validateTxn (pt_meta t) p cw0) pend), cw')"
  using assms
proof (induction pend arbitrary: r cw)
  case (Cons t ts)
  let ?cw = "record_writes (pt_meta t) (r + 1) cw"
  have "\<forall>u \<in> set ts. validateTxn (pt_meta u) p ?cw = validateTxn (pt_meta u) p cw0"
    using Cons.prems validate_record_writes by (metis list.set_intros(1,2) sorted_wrt.simps(2))
  then obtain cw1 where 1: "prepare_loop p ts (r + 1) ?cw =
    (restamp_from (r + 1) (filter (\<lambda>t. validateTxn (pt_meta t) p cw0) ts),
     map pt_resultChan (filter (\<lambda>t. validateTxn (pt_meta t) p cw0) ts),
     map pt_resultChan (filter (\<lambda>t. \<not> validateTxn (pt_meta t) p cw0) ts), cw1)"
    using Cons.IH[of ?cw "r + 1"] Cons.prems by auto
  obtain cw2 where 2: "prepare_loop p ts r cw =
    (restamp_from r (filter (\<lambda>t. validateTxn (pt_meta t) p cw0) ts),
     map pt_resultChan (filter (\<lambda>t. validateTxn (pt_meta t) p cw0) ts),
     map pt_resultChan (filter (\<lambda>t. \<not> validateTxn (pt_meta t) p cw0) ts), cw2)"
    using Cons.IH[of cw r] Cons.prems by auto
  show ?case using Cons.prems(3) 1 2 by (cases "validateTxn (pt_meta t) p cw0") (simp_all add: Let_def)
qed simp

subsection \<open>Draining the queue\<close>

text \<open>One round of the flusher loop without interleaved calls: take a batch, then flush it.\<close>

definition flusher_round :: "'l flush_func \<Rightarrow> Batching \<times> 'l \<Rightarrow> error + Batching \<times> 'l" where
  "flusher_round flushFunc s =
     (let b = grab_batch (fst s)
      in case bg_flushing b of None \<Rightarrow> Inr (b, snd s) | Some batch \<Rightarrow> flushBatch flushFunc b batch (snd s))"

fun flusher_rounds :: "'l flush_func \<Rightarrow> nat \<Rightarrow> Batching \<times> 'l \<Rightarrow> error + Batching \<times> 'l" where
  "flusher_rounds flushFunc 0 s = Inr s"
| "flusher_rounds flushFunc (Suc n) s =
     (case flusher_round flushFunc s of Inl e \<Rightarrow> Inl e | Inr s' \<Rightarrow> flusher_rounds flushFunc n s')"

lemma flushBatch_total:
  assumes "\<forall>l p c. fst (flushFunc l p c) = None"
  shows "\<exists>b' l'. flushBatch flushFunc b batch l = Inr (b', l') \<and> bg_flushing b' = None
    \<and> bg_flushQueue b' = bg_flushQueue b \<and> bg_openBatch b' = bg_openBatch b \<and> bg_stop b' = bg_stop b"
proof -
  obtain bt c a r cw where p: "prepare batch (bg_lastLogPosition b) (bg_committedWrites b) = (bt, c, a, r, cw)"
    by (metis prod_cases5)
  show ?thesis
  proof (cases c)
    case None
    with p show ?thesis by (simp add: flushBatch_def Let_def)
  next
    case (Some cc)
    obtain e l' where f: "flushFunc l (bg_lastLogPosition b) cc = (e, l')" by force
    have "e = None" using assms f by (metis fst_conv)
    with p Some f show ?thesis by (simp add: flushBatch_def Let_def)
  qed
qed

lemma flusher_drains:
  assumes "\<forall>l p c. fst (flushFunc l p c) = None" and "bg_flushing b = None" and "bg_stop b"
  shows "\<exists>b' l'. flusher_rounds flushFunc (Suc (length (all_batches b))) (b, l) = Inr (b', l')
    \<and> bg_flusherDone b' \<and> all_batches b' = []"
  using assms(2,3)
proof (induction "length (all_batches b)" arbitrary: b l)
  case 0
  then have "bg_flushQueue b = []" "bg_openBatch b = None" by (auto simp: all_batches_def split: option.splits)
  then have "grab_batch b = b \<lparr> bg_flusherDone := True \<rparr>" using 0 by (simp add: grab_batch_def)
  then show ?case using 0 by (simp add: flusher_round_def all_batches_def)
next
  case (Suc n)
  have ab: "all_batches (grab_batch b) = all_batches b" using Suc.prems(1) by (rule all_batches_grab)
  have st: "bg_stop (grab_batch b)" using Suc.prems(2) by (simp add: grab_batch_def split: list.splits option.splits)
  have "bg_flushing (grab_batch b) \<noteq> None" using Suc.hyps(2) Suc.prems(1)
    by (cases "bg_flushQueue b"; cases "bg_openBatch b") (simp_all add: all_batches_def grab_batch_def)
  then obtain f where f: "bg_flushing (grab_batch b) = Some f" by blast
  obtain b' l' where b': "flushBatch flushFunc (grab_batch b) f l = Inr (b', l')" "bg_flushing b' = None"
    "bg_flushQueue b' = bg_flushQueue (grab_batch b)" "bg_openBatch b' = bg_openBatch (grab_batch b)"
    "bg_stop b' = bg_stop (grab_batch b)"
    using flushBatch_total[OF assms(1)] by metis
  have len: "length (all_batches b) = Suc (length (all_batches b'))"
    unfolding ab[symmetric] by (simp add: all_batches_def f b')
  have "\<exists>b'' l''. flusher_rounds flushFunc (Suc (length (all_batches b'))) (b', l') = Inr (b'', l'')
    \<and> bg_flusherDone b'' \<and> all_batches b'' = []"
    using Suc.hyps(1)[of b' l'] Suc.hyps(2) len b' st by simp
  moreover have "flusher_round flushFunc (b, l) = Inr (b', l')" by (simp add: flusher_round_def f b')
  ultimately show ?case unfolding len by (simp only: flusher_rounds.simps(2)[of _ "Suc _"] sum.case)
qed

subsection \<open>Properties\<close>


definition demo_record :: "byte \<Rightarrow> LogRecord" where
  "demo_record c = \<lparr> lr_events = [\<lparr> ev_type = PUT, ev_kv = \<lparr> kv_key = [c], kv_createRevision = 1,
      kv_modRevision = 1, kv_version = 1, kv_value = [7], kv_lease = 0 \<rparr>, ev_prevKv = None \<rparr>] \<rparr>"

definition demo_meta :: "byte \<Rightarrow> TxnMeta" where
  "demo_meta c = AddWrite (AddRead (NewTxnMeta 0) [c] 0) [c]"

lemma demo_touches [simp]: "touches k (demo_record c) \<longleftrightarrow> k = [c]"
  by (auto simp: touches_def demo_record_def)

lemma demo_meta_simps [simp]:
  "writes (demo_meta c) = {[c]}" "reads (demo_meta c) = {[c]}" "tm_snapshotRevision (demo_meta c) = 0"
  "\<not> tm_hasRangeRead (demo_meta c)" "meta_wf (demo_meta c)" "tm_readSet (demo_meta c) = [([c], 0)]"
  by (simp_all add: demo_meta_def reads_def) (simp_all add: AddWrite_def AddRead_def NewTxnMeta_def)

lemma demo_observed [simp]: "observed 0 h (demo_meta c)" "observed_latest h (demo_meta c)"
  by (simp_all add: observed_def observed_latest_def)



definition demo_flush :: "unit flush_func" where
  "demo_flush l p c = (None, l)"

text \<open>Two transactions that write the same key from the same snapshot, added before the first flush.\<close>

definition demo_adds :: "(LogRecord \<times> TxnMeta) list" where
  "demo_adds = [(demo_record 1, demo_meta 1), (demo_record 1, demo_meta 1)]"

definition demo_added :: Batching where
  "demo_added = grab_batch (fst (Batching_Add (fst (Batching_Add (NewBatching 0) (demo_record 1) (demo_meta 1)))
     (demo_record 1) (demo_meta 1)))"

definition demo_flushed :: "Batching \<Rightarrow> Batching" where
  "demo_flushed b = fst (projr (flushBatch demo_flush b (the (bg_flushing b)) ()))"

definition demo_final :: Batching where
  "demo_final = demo_flushed (grab_batch (demo_flushed demo_added))"

lemma demo_flush_step:
  assumes "batching_run demo_flush 0 [] () adds h b ()" and "bg_flushing b \<noteq> None"
  shows "batching_run demo_flush 0 [] () adds (h @ flushed_records b (the (bg_flushing b))) (demo_flushed b) ()"
proof -
  obtain b' where "flushBatch demo_flush b (the (bg_flushing b)) () = Inr (b', ())"
    using flushBatch_total[of demo_flush b "the (bg_flushing b)" "()"] by (auto simp: demo_flush_def)
  then show ?thesis using run_flush[OF assms(1)] assms(2) by (force simp: demo_flushed_def)
qed

lemma demo_run: "batching_run demo_flush 0 [] () demo_adds [restamp 1 (demo_record 1)] demo_final ()"
proof -
  have "batching_run demo_flush 0 [] () demo_adds []
      (fst (Batching_Add (fst (Batching_Add (NewBatching 0) (demo_record 1) (demo_meta 1))) (demo_record 1) (demo_meta 1))) ()"
    using run_add[OF run_add[OF run_init[of demo_flush 0 "[]" "()"], of "demo_meta 1" "demo_record 1"],
        of "demo_meta 1" "demo_record 1"]
    by (simp add: demo_adds_def)
  then have 1: "batching_run demo_flush 0 [] () demo_adds [] demo_added ()"
    unfolding demo_added_def by (rule run_grab) (code_simp | code_simp)+
  have f: "bg_flushing demo_added \<noteq> None" "bg_flushing (grab_batch (demo_flushed demo_added)) \<noteq> None"
    "\<not> bg_flusherDone (demo_flushed demo_added)" "bg_flushing (demo_flushed demo_added) = None"
    "bg_openBatch (demo_flushed demo_added) \<noteq> None"
    "flushed_records demo_added (the (bg_flushing demo_added)) = [restamp 1 (demo_record 1)]"
    "flushed_records (grab_batch (demo_flushed demo_added)) (the (bg_flushing (grab_batch (demo_flushed demo_added)))) = []"
    by code_simp+
  show ?thesis unfolding demo_final_def
    using demo_flush_step[OF run_grab[OF demo_flush_step[OF 1 f(1)] f(3,4)] f(2)] f(5,6,7) by simp
qed


text \<open>C7: Exactly one outcome.  In every interleaving, each transaction added is either still in
  exactly one batch or has been answered, never both, and each revision committed since the start was
  acknowledged to exactly one transaction: no transaction is lost, committed twice or acknowledged with
  another's revision.\<close>

theorem batching_exactly_once:
  assumes "batching_run flushFunc start h0 l0 adds h b l" and "unat start = length h0"
    and "length h0 + length adds < 2 ^ 64"
  shows "distinct (map pt_resultChan (all_pending b))
    \<and> (\<forall>ch < length adds. (ch \<in> pt_resultChan ` set (all_pending b)) \<noteq> (bg_results b ch \<noteq> None))
    \<and> (\<forall>n. length h0 < n \<and> n \<le> length h \<longrightarrow>
         (\<exists>!ch. bg_results b ch = Some \<lparr> br_revision = of_nat n, br_success = True \<rparr>))"
proof -
  have inv: "run_inv h0 adds h b" by (rule batching_run_inv[OF assms(1,2,3)]) (use assms(3) in simp)
  then have c: "chan_inv adds b" and r: "result_inv h0 adds h b" by (simp_all add: run_inv_def)
  have "\<forall>ch < length adds. (ch \<in> pt_resultChan ` set (all_pending b)) \<noteq> (bg_results b ch \<noteq> None)"
  proof (intro allI impI)
    fix ch assume ch: "ch < length adds"
    let ?P = "set (map pt_resultChan (all_pending b))" and ?D = "dom (bg_results b)"
    have "ch \<in> ?P \<union> ?D" "?P \<inter> ?D = {}" using chan_inv_pending(2,3)[OF c] ch by blast+
    then have "(ch \<in> ?P) \<noteq> (ch \<in> ?D)" by blast
    then show "(ch \<in> pt_resultChan ` set (all_pending b)) \<noteq> (bg_results b ch \<noteq> None)"
      unfolding set_map domIff .
  qed
  moreover have "\<forall>n. length h0 < n \<and> n \<le> length h \<longrightarrow>
         (\<exists>!ch. bg_results b ch = Some \<lparr> br_revision = of_nat n, br_success = True \<rparr>)"
    using r unfolding result_inv_def by blast
  ultimately show ?thesis using chan_inv_pending(1)[OF c] by blast
qed

theorem batching_exactly_once_witness:
  "\<exists>!ch. bg_results demo_final ch = Some \<lparr> br_revision = of_nat 1, br_success = True \<rparr>"
proof -
  have "length ([] :: history) + length demo_adds < 2 ^ 64" "unat (0 :: revision) = length ([] :: history)"
    by (simp_all add: demo_adds_def)
  from spec[OF conjunct2[OF conjunct2[OF batching_exactly_once[OF demo_run this(2,1)]]], of 1] show ?thesis by simp
qed

text \<open>C24: The transactions of one batch do not interfere.  For a batch whose transactions were each
  admitted by \<^verbatim>\<open>CanBatchWith\<close>, \<^verbatim>\<open>prepare\<close> commits exactly the transactions that are valid against the
  writes committed before the batch, in the order they were added and with consecutive revisions, and
  rejects exactly the others.\<close>

theorem prepare_validates_independently:
  assumes "batchable b" and "\<not> tb_flushed b" and "tb_pendingBatch b \<noteq> []"
  shows "\<exists>cw'. prepare b p cw =
    (let ok = (\<lambda>t. validateTxn (pt_meta t) p cw); ts = filter ok (tb_pendingBatch b)
     in (b \<lparr> tb_flushed := True \<rparr>, if ts = [] then None else Some \<lparr> bc_transactions = restamp_from p ts \<rparr>,
         map pt_resultChan ts, map pt_resultChan (filter (\<lambda>t. \<not> ok t) (tb_pendingBatch b)), cw'))"
proof -
  let ?ts = "filter (\<lambda>t. validateTxn (pt_meta t) p cw) (tb_pendingBatch b)"
  have nil: "restamp_from p ?ts = [] \<longleftrightarrow> ?ts = []" by (metis length_0_conv length_restamp_from)
  obtain cw' where "prepare_loop p (tb_pendingBatch b) p cw = (restamp_from p ?ts, map pt_resultChan ?ts,
      map pt_resultChan (filter (\<lambda>t. \<not> validateTxn (pt_meta t) p cw) (tb_pendingBatch b)), cw')"
    using prepare_loop_filter[of "tb_pendingBatch b" p cw cw p] assms(1) unfolding batchable_def by blast
  then show ?thesis using assms(2,3) nil by (simp add: prepare_def Let_def)
qed

definition demo_batch :: TxnBatch where
  "demo_batch = batch_add (batch_add newTxnBatch (demo_record 1) (demo_meta 1) 0) (demo_record 2) (demo_meta 2) 1"

theorem prepare_validates_independently_witness:
  "batchable demo_batch \<and> fst (snd (snd (prepare demo_batch 5 [[1] \<mapsto> 3]))) = [1]
   \<and> fst (snd (snd (snd (prepare demo_batch 5 [[1] \<mapsto> 3])))) = [0]"
proof -
  have b: "batchable demo_batch" unfolding demo_batch_def
    by (intro batchable_add) (simp_all add: batchable_def newTxnBatch_def CanBatchWith_def batch_add_def CanBatchTogether_iff)
  have n: "\<not> tb_flushed demo_batch" "tb_pendingBatch demo_batch \<noteq> []" by code_simp+
  have "filter (\<lambda>t. validateTxn (pt_meta t) 5 [[1] \<mapsto> 3]) (tb_pendingBatch demo_batch) = [tb_pendingBatch demo_batch ! 1]"
    "filter (\<lambda>t. \<not> validateTxn (pt_meta t) 5 [[1] \<mapsto> 3]) (tb_pendingBatch demo_batch) = [tb_pendingBatch demo_batch ! 0]"
    "map pt_resultChan (tb_pendingBatch demo_batch) = [0, 1]"
    by code_simp+
  then show ?thesis using prepare_validates_independently[OF b n, of 5 "[[1] \<mapsto> 3]"] b
    by (auto simp: Let_def)
qed



text \<open>C6: Range reads are not validated within a batch.  Two transactions evaluated at the current
  position, a write of a key and a transaction that listed a range with that key and writes another,
  are admitted into one batch and both committed: the second one's list misses the first one's write,
  although it is ordered after it.\<close>

definition lister_meta :: TxnMeta where
  "lister_meta = AddWrite (AddList (NewTxnMeta 0)) [2]"


end
