(* ===== verification/Filesystem_Log.thy ===== *)
theory Filesystem_Log
  imports Log_Files Record_Cache Batch
begin

text \<open>
  The log over a directory of files, \<^verbatim>\<open>src/pkg/persistence/filesystemlog/filesystem_log.go\<close>: opening and
  recovery, commit, rotation, reads and compaction.

  The state has the directory itself (\<^verbatim>\<open>fl_dir\<close>); writing the active file and renaming or removing a file
  change it.  System calls succeed unless the model says otherwise (a file that is missing, or that
  exists when it is created exclusively); an append that is cut short by a crash is part of the recovery
  theorems.  \<^verbatim>\<open>fl_archiver\<close> is the queue of the background archiver, \<^verbatim>\<open>fl_notified\<close> the calls of the
  listener, and \<^verbatim>\<open>op_mmap\<close> says whether the platform can map files (then a record of a closed file is
  decoded from the mapping and not cached).  Operations are atomic: the critical sections under
  \<^verbatim>\<open>writeMu\<close>, \<^verbatim>\<open>mu\<close> and \<^verbatim>\<open>compactMu\<close>.
\<close>

subsection \<open>State\<close>

record archiveOp =
  ao_name :: string
  ao_remove :: bool

record Options =
  op_cacheBytes :: int
  op_rotateBytes :: nat
  op_archive :: bool
  op_mmap :: bool

record FilesystemLog =
  fl_opts :: Options
  fl_dir :: directory
  fl_files :: "logFile list"
  fl_lastRevision :: revision
  fl_cache :: Cache
  fl_archiver :: "archiveOp list"
  fl_listener :: bool
  fl_notified :: "revision list"

text \<open>
  The operations of the \<^verbatim>\<open>Archive\<close> interface on an archive's state.  \<^verbatim>\<open>Upload\<close> and \<^verbatim>\<open>Download\<close> have the local
  directory, in which the path they are given is a name.
\<close>

record 'a Archive =
  ar_List :: "'a \<Rightarrow> error + string list"
  ar_Upload :: "'a \<Rightarrow> directory \<Rightarrow> string \<Rightarrow> string \<Rightarrow> error option \<times> 'a"
  ar_Download :: "'a \<Rightarrow> directory \<Rightarrow> string \<Rightarrow> string \<Rightarrow> error option \<times> directory"
  ar_Delete :: "'a \<Rightarrow> string \<Rightarrow> error option \<times> 'a"

definition read_file :: "directory \<Rightarrow> string \<Rightarrow> bytes" where
  "read_file d name = (case map_of d name of None \<Rightarrow> [] | Some data \<Rightarrow> data)"

definition add_archive_op :: "FilesystemLog \<Rightarrow> archiveOp \<Rightarrow> FilesystemLog" where
  "add_archive_op l oper = l \<lparr> fl_archiver := fl_archiver l @ [oper] \<rparr>"

definition update_file :: "logFile list \<Rightarrow> logFile \<Rightarrow> logFile list" where
  "update_file fs f = map (\<lambda>g. if lf_name g = lf_name f then f else g) fs"

subsection \<open>Appending\<close>

definition newActiveFile :: "FilesystemLog \<Rightarrow> error + FilesystemLog" where
  "newActiveFile l =
     (let info = \<lparr> fi_first = fl_lastRevision l + 1, fi_last = fl_lastRevision l, fi_sparse = False \<rparr>;
          name = filename info
      in if map_of (fl_dir l) name \<noteq> None then Inl (Errorf ''creating log file'')
         else Inr (l \<lparr> fl_dir := AList.update name magic (fl_dir l),
                       fl_files := fl_files l @ [(new_logFile info name) \<lparr> lf_size := length magic, lf_indexed := True \<rparr>] \<rparr>))"

definition rotateLocked :: "FilesystemLog \<Rightarrow> error + FilesystemLog" where
  "rotateLocked l =
     (let old = last (fl_files l)
      in if lf_count old = 0 then Inr l
         else case newActiveFile l of
                Inl e \<Rightarrow> Inl e
              | Inr l' \<Rightarrow>
                  Inr (if op_archive (fl_opts l) then add_archive_op l' \<lparr> ao_name = lf_name old, ao_remove = False \<rparr> else l'))"

definition shift_span :: "nat \<Rightarrow> Span \<Rightarrow> Span" where
  "shift_span base s = s \<lparr> sp_offset := sp_offset s + base \<rparr>"

fun cache_records :: "Cache \<Rightarrow> revision \<Rightarrow> LogRecord list \<Rightarrow> Cache" where
  "cache_records c rv [] = c"
| "cache_records c rv (r # rs) = cache_records (Cache_Put c rv r) (rv + 1) rs"

definition publish :: "FilesystemLog \<Rightarrow> LogRecord list \<Rightarrow> bytes \<Rightarrow> Span list \<Rightarrow> FilesystemLog" where
  "publish l records buf spans =
     (let active = last (fl_files l);
          lastRev = fl_lastRevision l + of_nat (length records);
          active' = active \<lparr> lf_spans := lf_spans active @ map (shift_span (lf_size active)) spans,
                            lf_count := lf_count active + length records,
                            lf_size := lf_size active + length buf, fi_last := lastRev \<rparr>
      in l \<lparr> fl_dir := AList.update (lf_name active) (read_file (fl_dir l) (lf_name active) @ buf) (fl_dir l),
             fl_files := butlast (fl_files l) @ [active'],
             fl_cache := cache_records (fl_cache l) (fl_lastRevision l + 1) records,
             fl_lastRevision := lastRev,
             fl_notified := (if fl_listener l then fl_notified l @ [lastRev] else fl_notified l) \<rparr>)"

definition commitBatch :: "Protowire \<Rightarrow> FilesystemLog \<Rightarrow> revision \<Rightarrow> BatchCommit \<Rightarrow> error option \<times> FilesystemLog" where
  "commitBatch w l lastLogPosition bc =
     (if bc_transactions bc = [] then (Some (Errorf ''batch contains no transactions''), l)
      else let records = map pt_logRecord (bc_transactions bc)
           in case AppendRecords w [] (lastLogPosition + 1) records of
                Inl e \<Rightarrow> (Some (Wrap ''failed to encode log records'' e), l)
              | Inr (buf, spans) \<Rightarrow>
                  if lastLogPosition \<noteq> fl_lastRevision l then (Some (Errorf ''batch is not contiguous with the log''), l)
                  else let l' = publish l records buf spans
                       in if op_rotateBytes (fl_opts l) \<le> lf_size (last (fl_files l'))
                          then case rotateLocked l' of Inl e \<Rightarrow> (Some e, l') | Inr l'' \<Rightarrow> (None, l'')
                          else (None, l'))"

text \<open>\<^verbatim>\<open>tick\<close>, given whether the active file is older than \<^verbatim>\<open>RotateAfter\<close>.\<close>

definition tick :: "FilesystemLog \<Rightarrow> bool \<Rightarrow> FilesystemLog" where
  "tick l old_enough =
     (if lf_count (last (fl_files l)) > 0 \<and> old_enough
      then case rotateLocked l of Inl e \<Rightarrow> l | Inr l' \<Rightarrow> l'
      else l)"

definition SetListener :: "FilesystemLog \<Rightarrow> FilesystemLog" where
  "SetListener l = l \<lparr> fl_listener := True \<rparr>"

definition GetCurrentRevision :: "FilesystemLog \<Rightarrow> revision" where
  "GetCurrentRevision l = fl_lastRevision l"

subsection \<open>Reading\<close>

definition loadLocked :: "Protowire \<Rightarrow> directory \<Rightarrow> logFile \<Rightarrow> error + logFile" where
  "loadLocked w d f =
     (case map_of d (lf_name f) of
        None \<Rightarrow> Inl (Errorf ''failed to open log file'')
      | Some data \<Rightarrow>
          if lf_indexed f then Inr f
          else if length data < lf_size f then Inl (Errorf ''failed to read log file'')
          else case Offsets w (take (lf_size f) data) of
                 Inl e \<Rightarrow> Inl (Wrap ''indexing log file'' e)
               | Inr (spans, revisions) \<Rightarrow>
                   Inr (f \<lparr> lf_spans := spans, lf_indexed := True,
                            lf_revisions := (if fi_sparse f then Some revisions else lf_revisions f) \<rparr>))"

text \<open>
  \<^verbatim>\<open>recordBytes\<close>: the record's bytes, whether they are in a pinned mapping (then \<^verbatim>\<open>release\<close> is not
  \<^verbatim>\<open>nil\<close>), and the log, in which the file may have been indexed.
\<close>

definition recordBytes :: "Protowire \<Rightarrow> FilesystemLog \<Rightarrow> revision \<Rightarrow> error + bytes \<times> bool \<times> FilesystemLog" where
  "recordBytes w l revision =
     (case findFile (fl_files l) revision of
        None \<Rightarrow> Inl (Errorf ''log entry not found in any file'')
      | Some f \<Rightarrow>
          let active = (lf_name f = lf_name (last (fl_files l)))
          in case (if active then Inr f else loadLocked w (fl_dir l) f) of
               Inl e \<Rightarrow> Inl e
             | Inr f' \<Rightarrow>
                 (case position f' revision of
                    Inl e \<Rightarrow> Inl e
                  | Inr pos \<Rightarrow>
                      let span = lf_spans f' ! pos; data = read_file (fl_dir l) (lf_name f')
                      in if length data < sp_offset span + sp_length span then Inl (Errorf ''failed to read record'')
                         else Inr (span_bytes span data, \<not> active \<and> op_mmap (fl_opts l),
                                   l \<lparr> fl_files := update_file (fl_files l) f' \<rparr>)))"

definition GetLogEntry :: "Protowire \<Rightarrow> FilesystemLog \<Rightarrow> revision \<Rightarrow> (error + LogRecord) \<times> FilesystemLog" where
  "GetLogEntry w l revision =
     (let (c, hit) = Cache_Get (fl_cache l) revision; l0 = l \<lparr> fl_cache := c \<rparr>
      in case hit of
           Some r \<Rightarrow> (Inr r, l0)
         | None \<Rightarrow>
             (case recordBytes w l0 revision of
                Inl e \<Rightarrow> (Inl e, l0)
              | Inr (m, mapped, l1) \<Rightarrow>
                  (case EncodedRecord_Decode w m of
                     Inl e \<Rightarrow> (Inl (Wrap ''failed to decode log record'' e), l1)
                   | Inr r \<Rightarrow> (Inr r, if mapped then l1 else l1 \<lparr> fl_cache := Cache_Put (fl_cache l1) revision r \<rparr>))))"

text \<open>\<^verbatim>\<open>Read\<close>: the callback is a function on the caller's state that says whether to go on.\<close>

fun read_records :: "Protowire \<Rightarrow> bytes \<Rightarrow> revision \<Rightarrow> ('s \<Rightarrow> revision \<Rightarrow> LogRecord \<Rightarrow> 's \<times> bool)
    \<Rightarrow> (Span \<times> revision) list \<Rightarrow> 's \<Rightarrow> error option \<times> 's \<times> bool" where
  "read_records w data fromRevision cb [] s = (None, s, True)"
| "read_records w data fromRevision cb ((span, rv) # xs) s =
     (if rv < fromRevision then read_records w data fromRevision cb xs s
      else case EncodedRecord_Decode w (span_bytes span data) of
             Inl e \<Rightarrow> (Some (Wrap ''failed to decode log record'' e), s, False)
           | Inr r \<Rightarrow>
               (case cb s rv r of
                  (s', False) \<Rightarrow> (None, s', False)
                | (s', True) \<Rightarrow> read_records w data fromRevision cb xs s'))"

fun read_files :: "Protowire \<Rightarrow> directory \<Rightarrow> revision \<Rightarrow> ('s \<Rightarrow> revision \<Rightarrow> LogRecord \<Rightarrow> 's \<times> bool)
    \<Rightarrow> logFile list \<Rightarrow> 's \<Rightarrow> error option \<times> 's" where
  "read_files w d fromRevision cb [] s = (None, s)"
| "read_files w d fromRevision cb (f # fs) s =
     (if lf_count f = 0 \<or> fi_last f < fromRevision then read_files w d fromRevision cb fs s
      else case map_of d (lf_name f) of
             None \<Rightarrow> (Some (Errorf ''failed to open log file''), s)
           | Some content \<Rightarrow>
               if length content < lf_size f then (Some (Errorf ''failed to read log file''), s)
               else let data = take (lf_size f) content
                    in case Offsets w data of
                         Inl e \<Rightarrow> (Some (Wrap ''failed to decode log file'' e), s)
                       | Inr (spans, revisions) \<Rightarrow>
                           (case read_records w data fromRevision cb (zip spans revisions) s of
                              (Some e, s', go) \<Rightarrow> (Some e, s')
                            | (None, s', False) \<Rightarrow> (None, s')
                            | (None, s', True) \<Rightarrow> read_files w d fromRevision cb fs s'))"

definition Read :: "Protowire \<Rightarrow> FilesystemLog \<Rightarrow> revision \<Rightarrow> ('s \<Rightarrow> revision \<Rightarrow> LogRecord \<Rightarrow> 's \<times> bool) \<Rightarrow> 's \<Rightarrow> error option \<times> 's" where
  "Read w l fromRevision cb s = read_files w (fl_dir l) fromRevision cb (fl_files l) s"

subsection \<open>What the log's state says about its history\<close>

definition hist_map :: "history \<Rightarrow> revision \<rightharpoonup> LogRecord" where
  "hist_map h r = (if 1 \<le> unat r \<and> unat r \<le> length h then Some (h ! (unat r - 1)) else None)"

definition storable :: "Protowire \<Rightarrow> LogRecord \<Rightarrow> bool" where
  "storable w r \<longleftrightarrow> (\<forall>rv. rv \<noteq> 0 \<longrightarrow> recordable w (rv, r))"

text \<open>A file with the records \<^verbatim>\<open>xs\<close> of the history \<^verbatim>\<open>h\<close>, each with its revision.\<close>

definition file_ok :: "Protowire \<Rightarrow> directory \<Rightarrow> history \<Rightarrow> logFile \<Rightarrow> stamped list \<Rightarrow> bool" where
  "file_ok w d h f xs \<longleftrightarrow> named f
     \<and> map_of d (lf_name f) = Some (magic @ enc_records w xs)
     \<and> lf_size f = length (magic @ enc_records w xs) \<and> lf_count f = length xs
     \<and> (\<forall>x \<in> set xs. recordable w x \<and> hist_map h (fst x) = Some (snd x))
     \<and> sorted_wrt (<) (map fst xs) \<and> (\<forall>x \<in> set xs. fi_first f \<le> fst x \<and> fst x \<le> fi_last f)
     \<and> (\<not> fi_sparse f \<longrightarrow> lf_revisions f = None \<and> map (unat \<circ> fst) xs = [unat (fi_first f)..<Suc (unat (fi_last f))])
     \<and> (lf_indexed f \<longrightarrow> lf_spans f = spans_at w (length magic) xs \<and> (fi_sparse f \<longrightarrow> lf_revisions f = Some (map fst xs)))"

definition log_inv :: "Protowire \<Rightarrow> FilesystemLog \<Rightarrow> history \<Rightarrow> stamped list list \<Rightarrow> bool" where
  "log_inv w l h xss \<longleftrightarrow> list_all2 (file_ok w (fl_dir l) h) (fl_files l) xss
     \<and> chain 1 (fl_files l) (length h) \<and> unat (fl_lastRevision l) = length h \<and> Suc (length h) < 2 ^ 63
     \<and> fl_files l \<noteq> [] \<and> \<not> fi_sparse (last (fl_files l)) \<and> lf_indexed (last (fl_files l))
     \<and> (\<forall>f \<in> set (butlast (fl_files l)). fi_first f \<le> fi_last f)
     \<and> distinct (map fst (fl_dir l))
     \<and> set (map lf_name (fl_files l)) = {n \<in> set (map fst (fl_dir l)). \<exists>fi. parseFilename n = Inr fi}
     \<and> lru.coherent (fl_cache l) (hist_map h)"

text \<open>The revisions whose records the files still hold.\<close>

definition kept_revs :: "stamped list list \<Rightarrow> revision set" where
  "kept_revs xss = fst ` set (concat xss)"

lemma hist_map_append: "hist_map h r = Some x \<Longrightarrow> hist_map (h @ h') r = Some x"
  by (auto simp: hist_map_def nth_append split: if_splits)

lemma hist_map_snoc:
  assumes "unat p = length h" and "Suc (length h) < 2 ^ 64"
  shows "hist_map (h @ [x]) = (hist_map h)(p + 1 \<mapsto> x)"
proof
  fix r :: revision
  have p1: "unat (p + 1) = Suc (length h)" using assms unat_Suc64[of p] by simp
  have "r = p + 1 \<longleftrightarrow> unat r = Suc (length h)" using p1 by (metis word_unat_eq_iff)
  then show "hist_map (h @ [x]) r = ((hist_map h)(p + 1 \<mapsto> x)) r"
    by (auto simp: hist_map_def nth_append p1)
qed

lemma file_ok_append: "file_ok w d h f xs \<Longrightarrow> file_ok w d (h @ h') f xs"
  unfolding file_ok_def using hist_map_append by blast

lemma file_ok_dir:
  "file_ok w d h f xs \<Longrightarrow> map_of d' (lf_name f) = map_of d (lf_name f) \<Longrightarrow> file_ok w d' h f xs"
  unfolding file_ok_def by simp

lemma firsts_increase:
  assumes "chain a fs b" and "\<forall>f \<in> set (butlast fs). fi_first f \<le> fi_last f"
  shows "sorted_wrt (\<lambda>f g. fi_first f < fi_first g) fs"
  using assms
proof (induction fs arbitrary: a)
  case (Cons f fs)
  have "fi_first f < fi_first g" if "g \<in> set fs" for g
  proof -
    have "fi_first f \<le> fi_last f" using Cons.prems(2) that by (cases fs) auto
    moreover have "Suc (unat (fi_last f)) \<le> unat (fi_first g)"
      using chain_mem[of "Suc (unat (fi_last f))" fs b g] Cons.prems(1) that by simp
    ultimately show ?thesis by (simp add: word_less_nat_alt word_le_nat_alt)
  qed
  then show ?case using Cons by (cases fs) auto
qed simp

lemma names_distinct:
  assumes "sorted_wrt (\<lambda>f g. fi_first f < fi_first g) fs" and "\<forall>f \<in> set fs. named f"
  shows "distinct (map lf_name fs)"
proof -
  have "sorted_wrt (<) (map lf_name fs)" unfolding sorted_wrt_map
    by (rule sorted_wrt_mono_rel[OF _ assms(1)]) (use assms(2) filename_mono in \<open>auto simp: named_def fileInfo.truncate_def\<close>)
  then show ?thesis using strict_sorted_iff by blast
qed

lemma log_inv_names:
  assumes "log_inv w l h xss"
  shows "sorted_wrt (\<lambda>f g. fi_first f < fi_first g) (fl_files l)" and "distinct (map lf_name (fl_files l))"
    and "\<forall>f \<in> set (fl_files l). named f"
proof -
  show s: "sorted_wrt (\<lambda>f g. fi_first f < fi_first g) (fl_files l)"
    using assms firsts_increase unfolding log_inv_def by blast
  show n: "\<forall>f \<in> set (fl_files l). named f"
    using assms unfolding log_inv_def by (metis file_ok_def in_set_conv_nth list_all2_conv_all_nth)
  show "distinct (map lf_name (fl_files l))" by (rule names_distinct[OF s n])
qed

subsection \<open>Commit\<close>

definition stamp_from :: "revision \<Rightarrow> LogRecord list \<Rightarrow> stamped list" where
  "stamp_from p rs = zip (map (\<lambda>i. p + 1 + of_nat i) [0..<length rs]) rs"

lemma length_stamp_from [simp]: "length (stamp_from p rs) = length rs"
  by (simp add: stamp_from_def)

lemma nth_stamp_from: "i < length rs \<Longrightarrow> stamp_from p rs ! i = (p + 1 + of_nat i, rs ! i)"
  by (simp add: stamp_from_def)

lemma spans_at_shift: "map (shift_span base) (spans_at w pos xs) = spans_at w (base + pos) xs"
  by (induction xs arbitrary: pos) (simp_all add: shift_span_def add_ac)

lemma stamp_revision:
  fixes p :: revision
  assumes "unat p + length rs < 2 ^ 64" and "i < length rs"
  shows "unat (p + 1 + of_nat i) = Suc (unat p) + i"
  using assms by (simp add: unat_word_ariths unat_of_nat take_bit_nat_eq_self)

lemma cache_records_coherent:
  assumes "lru.coherent c (hist_map h)" and "unat p = length h" and "length h + length rs < 2 ^ 64"
  shows "lru.coherent (cache_records c (p + 1) rs) (hist_map (h @ rs))"
  using assms
proof (induction rs arbitrary: c p h)
  case (Cons r rs)
  have p: "unat (p + 1) = length (h @ [r])" using Cons.prems unat_Suc64[of p] by simp
  have "lru.coherent (Cache_Put c (p + 1) r) (hist_map (h @ [r]))"
    using lru.coherent_put[OF Cons.prems(1)] hist_map_snoc[of p h r] Cons.prems by simp
  from Cons.IH[OF this p] Cons.prems show ?case by simp
qed simp

lemma AppendRecords_stamp:
  assumes "proto_codec w" and "\<forall>r \<in> set rs. storable w r" and "unat p + length rs < 2 ^ 64"
  shows "AppendRecords w buf (p + 1) rs = Inr (buf @ enc_records w (stamp_from p rs), spans_at w (length buf) (stamp_from p rs))"
    and "\<forall>x \<in> set (stamp_from p rs). recordable w x"
proof -
  show rec: "\<forall>x \<in> set (stamp_from p rs). recordable w x"
  proof
    fix x assume "x \<in> set (stamp_from p rs)"
    then obtain i where i: "i < length rs" "x = (p + 1 + of_nat i, rs ! i)"
      by (metis in_set_conv_nth length_stamp_from nth_stamp_from)
    have "p + 1 + of_nat i \<noteq> 0" using stamp_revision[OF assms(3) i(1)] by auto
    then show "recordable w x" using assms(2) i by (simp add: storable_def)
  qed
  show "AppendRecords w buf (p + 1) rs = Inr (buf @ enc_records w (stamp_from p rs), spans_at w (length buf) (stamp_from p rs))"
    unfolding AppendRecords_def
    using proto_codec.AppendRecordsAt_records[OF assms(1), of "map (\<lambda>i. p + 1 + of_nat i) [0..<length rs]" rs buf] rec
    by (simp add: stamp_from_def)
qed

text \<open>The invariant, with the active file apart from the closed ones.\<close>

lemma log_inv_split:
  assumes "log_inv w l h xss"
  obtains fs a yss xs where "fl_files l = fs @ [a]" "xss = yss @ [xs]"
    "list_all2 (file_ok w (fl_dir l) h) fs yss" "file_ok w (fl_dir l) h a xs"
    "\<not> fi_sparse a" "lf_indexed a" "unat (fi_last a) = length h" "\<forall>f \<in> set fs. fi_first f \<le> fi_last f"
    "chain 1 fs (unat (fi_first a) - 1)" "1 \<le> unat (fi_first a)" "unat (fi_first a) \<le> Suc (length h)"
proof -
  obtain fs a where fs: "fl_files l = fs @ [a]" using assms unfolding log_inv_def by (metis append_butlast_last_id)
  obtain yss xs where xss: "xss = yss @ [xs]" "list_all2 (file_ok w (fl_dir l) h) fs yss" "file_ok w (fl_dir l) h a xs"
    using assms unfolding log_inv_def fs by (auto simp: list_all2_append1 list_all2_Cons1)
  have "chain 1 (fs @ [a]) (length h)" using assms by (simp add: log_inv_def fs)
  then obtain m where m0: "chain 1 fs m" "chain (Suc m) [a] (length h)" using chain_append[of 1 fs "[a]"] by auto
  then have m: "unat (fi_first a) = Suc m" "m \<le> length h" "unat (fi_last a) = length h" by simp_all
  have l: "\<not> fi_sparse a" "lf_indexed a" "\<forall>f \<in> set fs. fi_first f \<le> fi_last f" using assms unfolding log_inv_def fs by simp_all
  show ?thesis
    by (rule that[OF fs xss(1-3) l(1,2) m(3) l(3)]) (use m m0(1) in simp_all)
qed

lemma log_inv_joinI:
  assumes "list_all2 (file_ok w (fl_dir l) h) fs yss" "file_ok w (fl_dir l) h a xs" and f: "fl_files l = fs @ [a]"
    and "\<not> fi_sparse a" "lf_indexed a" "unat (fi_last a) = length h" "\<forall>f \<in> set fs. fi_first f \<le> fi_last f"
    and "chain 1 fs (unat (fi_first a) - 1)" "1 \<le> unat (fi_first a)" "unat (fi_first a) \<le> Suc (length h)"
    and "unat (fl_lastRevision l) = length h" "Suc (length h) < 2 ^ 63" "distinct (map fst (fl_dir l))"
    and "set (map lf_name (fl_files l)) = {n \<in> set (map fst (fl_dir l)). \<exists>fi. parseFilename n = Inr fi}"
    and "lru.coherent (fl_cache l) (hist_map h)"
  shows "log_inv w l h (yss @ [xs])"
proof -
  have "list_all2 (file_ok w (fl_dir l) h) (fs @ [a]) (yss @ [xs])" using assms(1,2) by (simp add: list_all2_appendI)
  moreover have "chain 1 (fs @ [a]) (length h)" using assms(6,8-10) by (subst chain_append) (auto intro!: exI[of _ "unat (fi_first a) - 1"])
  ultimately show ?thesis using assms unfolding log_inv_def f by simp
qed

lemma filename_inj_first:
  assumes "named f" and "lf_name f = filename fi" and "\<not> fi_sparse fi"
  shows "fi_first f = fi_first fi"
  using parse_named[OF assms(1)] parseFilename_filename[of fi] assms(2,3) by (cases fi) simp

lemma map_of_update_other: "n \<noteq> m \<Longrightarrow> map_of (AList.update m v d) n = map_of d n"
  by (simp add: update_conv')

lemma list_all2_file_ok_dir:
  assumes "list_all2 (file_ok w d h) fs yss" and "\<forall>f \<in> set fs. map_of d' (lf_name f) = map_of d (lf_name f)"
  shows "list_all2 (file_ok w d' h) fs yss"
  using assms unfolding list_all2_conv_all_nth by (metis file_ok_dir nth_mem)

lemma list_all2_file_ok_append: "list_all2 (file_ok w d h) fs yss \<Longrightarrow> list_all2 (file_ok w d (h @ h')) fs yss"
  by (rule list_all2_mono[OF _ file_ok_append])

lemma stamp_sorted:
  assumes "unat p + length rs < 2 ^ 64"
  shows "map (unat \<circ> fst) (stamp_from p rs) = [Suc (unat p)..<Suc (unat p + length rs)]"
proof (rule nth_equalityI)
  fix i assume i: "i < length (map (unat \<circ> fst) (stamp_from p rs))"
  then have "map (unat \<circ> fst) (stamp_from p rs) ! i = unat (p + 1 + of_nat i)" by (simp add: nth_stamp_from)
  also have "\<dots> = Suc (unat p) + i" using stamp_revision[OF assms, of i] i by simp
  also have "\<dots> = [Suc (unat p)..<Suc (unat p + length rs)] ! i" using i by (simp del: upt_Suc)
  finally show "map (unat \<circ> fst) (stamp_from p rs) ! i = [Suc (unat p)..<Suc (unat p + length rs)] ! i" .
qed (simp del: upt_Suc)

lemma sorted_revisions:
  assumes "map (unat \<circ> fst) (xs :: stamped list) = [m..<n]" shows "sorted_wrt (<) (map fst xs)"
    and "x \<in> set xs \<Longrightarrow> m \<le> unat (fst x) \<and> unat (fst x) < n"
proof -
  have "sorted_wrt (<) (map (unat \<circ> fst) xs)" unfolding assms by simp
  then show "sorted_wrt (<) (map fst xs)" by (simp add: sorted_wrt_map word_less_nat_alt)
  assume "x \<in> set xs"
  then have "unat (fst x) \<in> set (map (unat \<circ> fst) xs)" by simp
  then show "m \<le> unat (fst x) \<and> unat (fst x) < n" unfolding assms by simp
qed

lemma stamp_hist:
  assumes "unat p = length h" and "length h + length rs < 2 ^ 64" and "x \<in> set (stamp_from p rs)"
  shows "hist_map (h @ rs) (fst x) = Some (snd x)"
proof -
  obtain i where i: "i < length rs" "x = (p + 1 + of_nat i, rs ! i)"
    using assms(3) by (metis in_set_conv_nth length_stamp_from nth_stamp_from)
  then have "unat (fst x) = Suc (length h + i)" using stamp_revision[of p rs i] assms(1,2) by simp
  then show ?thesis using i by (simp add: hist_map_def nth_append)
qed

text \<open>Appending records to the active file.\<close>

lemma active_publish:
  assumes a: "file_ok w d h a xs" "\<not> fi_sparse a" "lf_indexed a" "unat (fi_last a) = length h" "unat (fi_first a) \<le> Suc (length h)"
    and p: "unat p = length h" and b: "length h + length rs < 2 ^ 64" and ys: "ys = stamp_from p rs"
    and rec: "\<forall>y \<in> set ys. recordable w y"
    and a': "a' = a \<lparr> lf_spans := lf_spans a @ map (shift_span (lf_size a)) (spans_at w 0 ys),
        lf_count := lf_count a + length rs, lf_size := lf_size a + length (enc_records w ys), fi_last := p + of_nat (length rs) \<rparr>"
    and d': "map_of d' (lf_name a) = Some (read_file d (lf_name a) @ enc_records w ys)"
  shows "file_ok w d' (h @ rs) a' (xs @ ys)" and "unat (fi_last a') = length (h @ rs)"
proof -
  have last: "unat (p + of_nat (length rs)) = length h + length rs"
    using p b by (simp add: unat_word_ariths unat_of_nat take_bit_nat_eq_self)
  then show "unat (fi_last a') = length (h @ rs)" by (simp add: a')
  have x: "map_of d (lf_name a) = Some (magic @ enc_records w xs)" "lf_size a = length (magic @ enc_records w xs)"
    "lf_count a = length xs" "\<forall>x \<in> set xs. recordable w x \<and> hist_map h (fst x) = Some (snd x)"
    "lf_revisions a = None" "map (unat \<circ> fst) xs = [unat (fi_first a)..<Suc (unat (fi_last a))]"
    "lf_spans a = spans_at w (length magic) xs" "named a"
    using a by (simp_all add: file_ok_def)
  have seq: "map (unat \<circ> fst) (xs @ ys) = [unat (fi_first a')..<Suc (unat (fi_last a'))]"
  proof -
    have "map (unat \<circ> fst) (xs @ ys) = [unat (fi_first a)..<Suc (length h)] @ [Suc (length h)..<Suc (length h + length rs)]"
      using x(6) a(4) stamp_sorted[of p rs] p b by (simp add: ys)
    also have "\<dots> = [unat (fi_first a)..<Suc (length h + length rs)]"
      using a(5) upt_add_eq_append[of "unat (fi_first a)" "Suc (length h)" "length rs"] by simp
    finally show ?thesis using last by (simp add: a')
  qed
  have hist: "\<forall>x \<in> set (xs @ ys). recordable w x \<and> hist_map (h @ rs) (fst x) = Some (snd x)"
    using x(4) rec hist_map_append stamp_hist[OF p b] unfolding ys by auto
  have rng: "\<forall>x \<in> set (xs @ ys). fi_first a' \<le> fst x \<and> fst x \<le> fi_last a'"
    using sorted_revisions(2)[OF seq] by (auto simp: word_le_nat_alt less_Suc_eq_le)
  have spans: "lf_spans a' = spans_at w (length magic) (xs @ ys)"
    using x(2,7) by (simp add: a' spans_at_append spans_at_shift)
  have named: "named a'" using x(8) a(2) by (simp add: a' named_def fileInfo.truncate_def filename_def)
  show "file_ok w d' (h @ rs) a' (xs @ ys)"
    unfolding file_ok_def using named hist sorted_revisions(1)[OF seq] rng seq spans a(2,3) x(1,2,3,5) d'
    by (simp add: a' ys read_file_def)
qed

lemma dir_update_fst: "n \<in> fst ` set d \<Longrightarrow> set (map fst (AList.update n v d)) = set (map fst d)"
  by (simp add: dom_update insert_absorb)

lemma publish_inv:
  assumes inv: "log_inv w l h xss" and rs: "\<forall>y \<in> set (stamp_from (fl_lastRevision l) rs). recordable w y"
    and b: "Suc (length h + length rs) < 2 ^ 63"
  shows "log_inv w (publish l rs (enc_records w (stamp_from (fl_lastRevision l) rs)) (spans_at w 0 (stamp_from (fl_lastRevision l) rs)))
    (h @ rs) (butlast xss @ [last xss @ stamp_from (fl_lastRevision l) rs])"
    (is "log_inv w ?l (h @ rs) _")
proof -
  define p ys where p: "p = fl_lastRevision l" and ys: "ys = stamp_from p rs"
  obtain fs a yss xs where s: "fl_files l = fs @ [a]" "xss = yss @ [xs]"
    "list_all2 (file_ok w (fl_dir l) h) fs yss" "file_ok w (fl_dir l) h a xs"
    "\<not> fi_sparse a" "lf_indexed a" "unat (fi_last a) = length h" "\<forall>f \<in> set fs. fi_first f \<le> fi_last f"
    "chain 1 fs (unat (fi_first a) - 1)" "1 \<le> unat (fi_first a)" "unat (fi_first a) \<le> Suc (length h)"
    by (rule log_inv_split[OF inv])
  have lr: "unat p = length h" "unat (p + of_nat (length rs)) = length (h @ rs)"
    using inv b by (simp_all add: log_inv_def p unat_word_ariths unat_of_nat take_bit_nat_eq_self)
  let ?d = "AList.update (lf_name a) (read_file (fl_dir l) (lf_name a) @ enc_records w ys) (fl_dir l)"
  let ?a = "a \<lparr> lf_spans := lf_spans a @ map (shift_span (lf_size a)) (spans_at w 0 ys),
        lf_count := lf_count a + length rs, lf_size := lf_size a + length (enc_records w ys), fi_last := p + of_nat (length rs) \<rparr>"
  have l: "fl_dir ?l = ?d" "fl_files ?l = fs @ [?a]" "fl_lastRevision ?l = p + of_nat (length rs)"
    "fl_cache ?l = cache_records (fl_cache l) (p + 1) rs"
    by (simp_all add: publish_def Let_def s(1) p ys)
  have act: "file_ok w ?d (h @ rs) ?a (xs @ ys)" "unat (fi_last ?a) = length (h @ rs)"
    using active_publish[OF s(4-7) s(11) lr(1) _ ys _ refl, of ?d] rs b by (simp_all add: p ys update_conv')
  have "lf_name f \<noteq> lf_name a" if "f \<in> set fs" for f
    using log_inv_names(2)[OF inv] imageI[OF that, of lf_name] by (auto simp: s(1))
  then have others: "list_all2 (file_ok w ?d (h @ rs)) fs yss"
    by (intro list_all2_file_ok_dir[OF list_all2_file_ok_append[OF s(3)]]) (simp add: update_conv')
  have nm: "lf_name a \<in> fst ` set (fl_dir l)" using s(4) by (auto simp: file_ok_def dest: map_of_SomeD intro: rev_image_eqI)
  have "log_inv w ?l (h @ rs) (yss @ [xs @ ys])"
  proof (rule log_inv_joinI[where a = ?a and fs = fs])
    show "set (map lf_name (fl_files ?l)) = {n \<in> set (map fst (fl_dir ?l)). \<exists>fi. parseFilename n = Inr fi}"
      using inv unfolding l dir_update_fst[OF nm] by (simp add: log_inv_def s(1))
    show "lru.coherent (fl_cache ?l) (hist_map (h @ rs))"
      unfolding l using inv lr b by (intro cache_records_coherent) (simp_all add: log_inv_def)
    show "distinct (map fst (fl_dir ?l))" unfolding l using inv by (simp add: log_inv_def distinct_update)
  qed (use l others act s lr b in simp_all)
  then show ?thesis by (simp add: s(2) p ys)
qed

lemma fresh_name:
  assumes inv: "log_inv w l h xss" and c: "0 < lf_count (last (fl_files l))"
  shows "map_of (fl_dir l) (filename \<lparr> fi_first = fl_lastRevision l + 1, fi_last = fl_lastRevision l, fi_sparse = False \<rparr>) = None"
    (is "map_of _ (filename ?i) = _")
proof (rule ccontr)
  assume "map_of (fl_dir l) (filename ?i) \<noteq> None"
  then have "filename ?i \<in> set (map fst (fl_dir l))" by (auto simp: map_of_eq_None_iff)
  moreover have "\<exists>fi. parseFilename (filename ?i) = Inr fi" by (simp add: parseFilename_filename)
  ultimately have "filename ?i \<in> set (map lf_name (fl_files l))" using inv unfolding log_inv_def by blast
  then obtain f where f: "f \<in> set (fl_files l)" "lf_name f = filename ?i" by auto
  have "fi_first f = fl_lastRevision l + 1" using filename_inj_first[OF _ f(2)] f(1) log_inv_names(3)[OF inv] by simp
  moreover have "unat (fl_lastRevision l + 1) = Suc (length h)" using inv unat_Suc64[of "fl_lastRevision l"] by (simp add: log_inv_def)
  ultimately have first: "unat (fi_first f) = Suc (length h)" by simp
  have "unat (fi_last f) \<le> length h" using inv f(1) chain_mem[of 1 "fl_files l" "length h" f] unfolding log_inv_def by blast
  moreover have "fi_first f \<le> fi_last f"
  proof -
    obtain fs a yss xs where s: "fl_files l = fs @ [a]" "file_ok w (fl_dir l) h a xs" "\<forall>f \<in> set fs. fi_first f \<le> fi_last f"
      by (rule log_inv_split[OF inv]) blast
    then have "xs \<noteq> []" using c by (auto simp: file_ok_def)
    then have "fi_first a \<le> fi_last a" using s(2) by (cases xs) (auto simp: file_ok_def)
    then show ?thesis using s f(1) by auto
  qed
  ultimately show False using first by (simp add: word_le_nat_alt)
qed

lemma rotateLocked_inv:
  assumes inv: "log_inv w l h xss"
  obtains l' xss' where "rotateLocked l = Inr l'" "log_inv w l' h xss'" "kept_revs xss' = kept_revs xss"
    "fl_opts l' = fl_opts l" "fl_cache l' = fl_cache l"
proof (cases "lf_count (last (fl_files l)) = 0")
  case True
  show thesis by (rule that[of l xss]) (use True inv in \<open>simp_all add: rotateLocked_def\<close>)
next
  case False
  define i where "i = \<lparr> fi_first = fl_lastRevision l + 1, fi_last = fl_lastRevision l, fi_sparse = False \<rparr>"
  define a where "a = (new_logFile i (filename i)) \<lparr> lf_size := length magic, lf_indexed := True \<rparr>"
  define l1 where "l1 = l \<lparr> fl_dir := AList.update (filename i) magic (fl_dir l), fl_files := fl_files l @ [a] \<rparr>"
  define l2 where "l2 = (if op_archive (fl_opts l) then add_archive_op l1 \<lparr> ao_name = lf_name (last (fl_files l)), ao_remove = False \<rparr> else l1)"
  have fresh: "map_of (fl_dir l) (filename i) = None" using fresh_name[OF inv] False by (simp add: i_def)
  have rot: "rotateLocked l = Inr l2"
    using False fresh by (simp add: rotateLocked_def newActiveFile_def Let_def l2_def l1_def a_def i_def)
  have l2: "fl_dir l2 = AList.update (filename i) magic (fl_dir l)" "fl_files l2 = fl_files l @ [a]" "fl_opts l2 = fl_opts l"
    "fl_cache l2 = fl_cache l" "fl_lastRevision l2 = fl_lastRevision l"
    by (simp_all add: l2_def l1_def add_archive_op_def)
  have lr: "unat (fl_lastRevision l) = length h" "Suc (length h) < 2 ^ 63" "chain 1 (fl_files l) (length h)"
    "list_all2 (file_ok w (fl_dir l) h) (fl_files l) xss" using inv by (simp_all add: log_inv_def)
  have first: "unat (fl_lastRevision l + 1) = Suc (length h)" using lr(1,2) unat_Suc64[of "fl_lastRevision l"] by simp
  have a: "file_ok w (fl_dir l2) h a []"
    by (simp add: file_ok_def l2 a_def new_logFile_def update_conv' named_def fileInfo.truncate_def i_def first lr(1))
  have nms: "n \<in> set (map fst (fl_dir l))" if "n \<in> lf_name ` set (fl_files l)" for n
    using inv that unfolding log_inv_def by auto
  have "filename i \<notin> set (map fst (fl_dir l))" using fresh by (simp add: map_of_eq_None_iff)
  then have neq: "lf_name f \<noteq> filename i" if "f \<in> set (fl_files l)" for f using nms that by (metis imageI)
  have others: "list_all2 (file_ok w (fl_dir l2) h) (fl_files l) xss"
    by (rule list_all2_file_ok_dir[OF lr(4)]) (use neq in \<open>auto simp: l2 update_conv'\<close>)
  have le: "\<forall>f \<in> set (fl_files l). fi_first f \<le> fi_last f"
  proof -
    obtain fs b yss xs where s: "fl_files l = fs @ [b]" "file_ok w (fl_dir l) h b xs" "\<forall>f \<in> set fs. fi_first f \<le> fi_last f"
      by (rule log_inv_split[OF inv]) blast
    then have "xs \<noteq> []" using False by (auto simp: file_ok_def)
    then have "fi_first b \<le> fi_last b" using s(2) by (cases xs) (auto simp: file_ok_def)
    then show ?thesis using s by auto
  qed
  have "log_inv w l2 h (xss @ [[]])"
  proof (rule log_inv_joinI[where fs = "fl_files l" and a = a])
    show "set (map lf_name (fl_files l2)) = {n \<in> set (map fst (fl_dir l2)). \<exists>fi. parseFilename n = Inr fi}"
    proof -
      have "set (map lf_name (fl_files l)) = {n \<in> set (map fst (fl_dir l)). \<exists>fi. parseFilename n = Inr fi}"
        using inv by (simp add: log_inv_def)
      moreover have "\<exists>fi. parseFilename (filename i) = Inr fi" by (simp add: parseFilename_filename i_def)
      moreover have "lf_name a = filename i" by (simp add: a_def new_logFile_def)
      ultimately show ?thesis by (auto simp: l2 dom_update)
    qed
    show "distinct (map fst (fl_dir l2))" using inv by (simp add: l2 log_inv_def distinct_update)
    show "lru.coherent (fl_cache l2) (hist_map h)" using inv by (simp add: l2 log_inv_def)
  qed (use others a l2 le lr first in \<open>simp_all add: a_def i_def new_logFile_def\<close>)
  then show thesis by (rule that[OF rot]) (simp_all add: l2 kept_revs_def)
qed

text \<open>A batch that is contiguous with the log is always written.\<close>

lemma commitBatch_inv:
  assumes pc: "proto_codec w" and inv: "log_inv w l h xss" and p: "unat p = length h"
    and b: "Suc (length h + length (bc_transactions c)) < 2 ^ 63" and ne: "bc_transactions c \<noteq> []"
    and st: "\<forall>t \<in> set (bc_transactions c). storable w (pt_logRecord t)"
  obtains l' xss' where "commitBatch w l p c = (None, l')" "log_inv w l' (h @ map pt_logRecord (bc_transactions c)) xss'"
    "kept_revs xss' = kept_revs xss \<union> fst ` set (stamp_from p (map pt_logRecord (bc_transactions c)))"
proof -
  define rs where "rs = map pt_logRecord (bc_transactions c)"
  have rs: "\<forall>r \<in> set rs. storable w r" "Suc (length h + length rs) < 2 ^ 63" using st b by (auto simp: rs_def)
  have lr: "p = fl_lastRevision l" using inv p by (simp add: log_inv_def word_unat_eq_iff)
  have bd: "unat p + length rs < 2 ^ 64" using p rs(2) by simp
  note ap = AppendRecords_stamp[OF pc rs(1) bd]
  define l1 where "l1 = publish l rs (enc_records w (stamp_from p rs)) (spans_at w 0 (stamp_from p rs))"
  have i1: "log_inv w l1 (h @ rs) (butlast xss @ [last xss @ stamp_from p rs])"
    unfolding l1_def using publish_inv[OF inv _ rs(2)] ap(2) by (simp add: lr)
  have "xss \<noteq> []" using inv by (auto simp: log_inv_def)
  then have k1: "kept_revs (butlast xss @ [last xss @ stamp_from p rs]) = kept_revs xss \<union> fst ` set (stamp_from p rs)"
    by (cases xss rule: rev_cases) (auto simp: kept_revs_def)
  obtain l2 xss2 where r: "rotateLocked l1 = Inr l2" "log_inv w l2 (h @ rs) xss2"
    "kept_revs xss2 = kept_revs (butlast xss @ [last xss @ stamp_from p rs])"
    by (rule rotateLocked_inv[OF i1])
  have c: "commitBatch w l p c = (None, if op_rotateBytes (fl_opts l) \<le> lf_size (last (fl_files l1)) then l2 else l1)"
    using ne ap(1)[of "[]"] r(1) by (simp add: commitBatch_def rs_def[symmetric] lr[symmetric] l1_def[symmetric] Let_def)
  show thesis
  proof (cases "op_rotateBytes (fl_opts l) \<le> lf_size (last (fl_files l1))")
    case True
    then show thesis using that[of l2 xss2] c r k1 by (simp add: rs_def)
  next
    case False
    then show thesis using that[of l1 "butlast xss @ [last xss @ stamp_from p rs]"] c i1 k1 by (simp add: rs_def)
  qed
qed

text \<open>The log is a commit log in the sense of the batcher, for every codec of the wire format.\<close>

lemma commitBatch_commit_log:
  assumes "proto_codec w"
  shows "commit_log (commitBatch w) (\<lambda>l h. Suc (length h) < 2 ^ 63 - 1 \<longrightarrow> (\<exists>xss. log_inv w l h xss)) (storable w)"
proof
  fix l h p c l'
  assume i: "Suc (length h) < 2 ^ 63 - 1 \<longrightarrow> (\<exists>xss. log_inv w l h xss)"
    and p: "unat p = length h" and b: "length h + length (bc_transactions c) < 2 ^ 63" and ne: "bc_transactions c \<noteq> []"
    and st: "\<forall>t \<in> set (bc_transactions c). storable w (pt_logRecord t)" and c: "commitBatch w l p c = (None, l')"
  show "Suc (length (h @ map pt_logRecord (bc_transactions c))) < 2 ^ 63 - 1 \<longrightarrow> (\<exists>xss. log_inv w l' (h @ map pt_logRecord (bc_transactions c)) xss)"
  proof
    assume b2: "Suc (length (h @ map pt_logRecord (bc_transactions c))) < 2 ^ 63 - 1"
    then obtain xss where "log_inv w l h xss" using i by auto
    from commitBatch_inv[OF assms this p _ ne st] b2 c show "\<exists>xss. log_inv w l' (h @ map pt_logRecord (bc_transactions c)) xss"
      by fastforce
  qed
qed

interpretation fslog: commit_log "commitBatch std_wire"
  "\<lambda>l h. Suc (length h) < 2 ^ 63 - 1 \<longrightarrow> (\<exists>xss. log_inv std_wire l h xss)" "storable std_wire"
  by (rule commitBatch_commit_log[OF std.proto_codec_axioms])

subsection \<open>Reading\<close>

lemma named_reindex [simp]:
  "named (f \<lparr> lf_spans := sp, lf_indexed := b, lf_revisions := rv \<rparr>) = named f"
  by (simp add: named_def fileInfo.truncate_def)

lemma loadLocked_ok:
  assumes pc: "wire_format w" and f: "file_ok w d h f xs"
  obtains f' where "loadLocked w d f = Inr f'" "file_ok w d h f' xs" "lf_indexed f'" "lf_name f' = lf_name f"
    "fi_first f' = fi_first f" "fi_last f' = fi_last f" "fi_sparse f' = fi_sparse f" "lf_size f' = lf_size f"
proof (cases "lf_indexed f")
  case True
  show thesis by (rule that[of f]) (use True f in \<open>auto simp: loadLocked_def file_ok_def\<close>)
next
  case False
  have "Offsets w (magic @ enc_records w xs) = Inr (spans_at w (length magic) xs, map fst xs)"
    using f by (intro wire_format.Offsets_records[OF pc]) (auto simp: file_ok_def)
  then show thesis using False f
    by (intro that[of "f \<lparr> lf_spans := spans_at w (length magic) xs, lf_indexed := True,
          lf_revisions := (if fi_sparse f then Some (map fst xs) else lf_revisions f) \<rparr>"])
      (simp_all add: loadLocked_def file_ok_def)
qed

lemma position_ok:
  assumes f: "file_ok w d h f xs" "lf_indexed f" and b: "length h < 2 ^ 63" and r: "fi_first f \<le> r" "r \<le> fi_last f"
  shows "r \<in> fst ` set xs \<Longrightarrow> \<exists>i. position f r = Inr i \<and> i < length xs \<and> xs ! i = (r, the (hist_map h r))"
    and "r \<notin> fst ` set xs \<Longrightarrow> position f r = Inl (Wrap ''revision'' ErrCompacted)"
proof -
  have x: "\<forall>x \<in> set xs. hist_map h (fst x) = Some (snd x)" "sorted_wrt (<) (map fst xs)"
    "lf_spans f = spans_at w (length magic) xs"
    "fi_sparse f \<longrightarrow> lf_revisions f = Some (map fst xs)"
    "\<not> fi_sparse f \<longrightarrow> map (unat \<circ> fst) xs = [unat (fi_first f)..<Suc (unat (fi_last f))]"
    using f by (auto simp: file_ok_def)
  have rec: "xs ! i = (r, the (hist_map h r))" if "i < length xs" "fst (xs ! i) = r" for i
    using x(1) nth_mem[OF that(1)] that(2) by (metis option.sel prod.collapse)
  show "\<exists>i. position f r = Inr i \<and> i < length xs \<and> xs ! i = (r, the (hist_map h r))" if m: "r \<in> fst ` set xs"
  proof (cases "fi_sparse f")
    case True
    then show ?thesis
      using position_sparse[OF True, of "map fst xs" r] x(2,4) m rec[of "length (takeWhile (\<lambda>x. x < r) (map fst xs))"] by auto
  next
    case False
    let ?i = "unat r - unat (fi_first f)"
    have seq: "map (unat \<circ> fst) xs = [unat (fi_first f)..<Suc (unat (fi_last f))]" using x(5) False by simp
    then have len: "length xs = Suc (unat (fi_last f)) - unat (fi_first f)" by (metis length_map length_upt)
    have ur: "unat (fi_first f) \<le> unat r" "unat r \<le> unat (fi_last f)" using r by (simp_all add: word_le_nat_alt)
    have i: "?i < length xs" using ur unfolding len by linarith
    have "length xs \<le> length h"
    proof -
      have "unat (fi_last f) \<in> set (map (unat \<circ> fst) xs)" unfolding seq set_upt using ur by auto
      then obtain y where y: "y \<in> set xs" "unat (fst y) = unat (fi_last f)" by auto
      have "unat (fi_first f) \<in> set (map (unat \<circ> fst) xs)" unfolding seq set_upt using ur by auto
      then obtain z where z: "z \<in> set xs" "unat (fst z) = unat (fi_first f)" by auto
      have "unat (fi_last f) \<le> length h" "1 \<le> unat (fi_first f)"
        using bspec[OF x(1) y(1)] bspec[OF x(1) z(1)] y(2) z(2) by (auto simp: hist_map_def split: if_splits)
      then show ?thesis unfolding len by linarith
    qed
    then have "position f r = Inr ?i"
      using i ur b by (intro position_dense[OF False]) (auto simp: x(3))
    moreover have "unat (fst (xs ! ?i)) = unat r"
    proof -
      have "unat (fst (xs ! ?i)) = map (unat \<circ> fst) xs ! ?i" using i by simp
      also have "\<dots> = unat r" unfolding seq using i ur len by (simp del: upt_Suc)
      finally show ?thesis .
    qed
    ultimately show ?thesis using i rec by (auto simp: word_unat_eq_iff)
  qed
  show "position f r = Inl (Wrap ''revision'' ErrCompacted)" if m: "r \<notin> fst ` set xs"
  proof (cases "fi_sparse f")
    case True
    then show ?thesis using position_sparse[OF True, of "map fst xs" r] x(2,4) m by simp
  next
    case False
    have "unat r \<in> set (map (unat \<circ> fst) xs)" using x(5) False r by (auto simp: word_le_nat_alt le_less)
    then have "r \<in> fst ` set xs" by (auto simp: word_unat_eq_iff[symmetric] image_iff)
    then show ?thesis using m by blast
  qed
qed

lemma span_end:
  assumes "i < length xs"
  shows "sp_offset (spans_at w pos xs ! i) + sp_length (spans_at w pos xs ! i) \<le> pos + length (enc_records w xs)"
  using assms
proof (induction xs arbitrary: i pos)
  case (Cons x xs)
  show ?case
  proof (cases i)
    case 0
    then show ?thesis by (simp add: enc_records_Cons enc_delimited_def)
  next
    case (Suc j)
    then show ?thesis using Cons.IH[of j "pos + length (enc_delimited w (enc_message w x))"] Cons.prems
      by (simp add: enc_records_Cons add.assoc)
  qed
qed simp

lemma chain_disjoint: "chain a fs b \<Longrightarrow> sorted_wrt (\<lambda>f g. unat (fi_last f) < unat (fi_first g)) fs"
proof (induction fs arbitrary: a)
  case (Cons f fs)
  then show ?case using chain_mem[of "Suc (unat (fi_last f))" fs b] by (auto simp: Suc_le_eq)
qed simp

lemma chain_same_file:
  assumes "chain a fs b" and "i < length fs" "j < length fs"
    and "unat (fi_first (fs ! i)) \<le> r" "r \<le> unat (fi_last (fs ! i))" "unat (fi_first (fs ! j)) \<le> r" "r \<le> unat (fi_last (fs ! j))"
  shows "i = j"
proof (rule ccontr)
  assume "i \<noteq> j"
  then consider "i < j" | "j < i" by linarith
  then show False using sorted_wrt_nth_less[OF chain_disjoint[OF assms(1)]] assms(2-) by cases fastforce+
qed

lemma chain_cong:
  "map fi_first fs = map fi_first gs \<Longrightarrow> map fi_last fs = map fi_last gs \<Longrightarrow> chain a fs b = chain a gs b"
proof (induction fs arbitrary: a gs)
  case (Cons f fs)
  then obtain g gs' where g: "gs = g # gs'" "fi_first g = fi_first f" "fi_last g = fi_last f" by (cases gs) auto
  then show ?case using Cons.IH[of gs'] Cons.prems by simp
qed simp

lemma update_file_nth:
  assumes "distinct (map lf_name fs)" and "i < length fs" and "lf_name f' = lf_name (fs ! i)"
  shows "update_file fs f' = fs[i := f']"
proof (rule nth_equalityI)
  fix j assume "j < length (update_file fs f')"
  then have j: "j < length fs" by (simp add: update_file_def)
  have "lf_name (fs ! j) = lf_name (fs ! i) \<longleftrightarrow> j = i"
    using assms(1,2) j by (metis length_map nth_eq_iff_index_eq nth_map)
  then show "update_file fs f' ! j = fs[i := f'] ! j" using j assms(3) by (simp add: update_file_def nth_list_update)
qed (simp add: update_file_def)

lemma log_inv_reindex:
  assumes inv: "log_inv w l h xss" and i: "i < length (fl_files l)"
    and f: "file_ok w (fl_dir l) h f' (xss ! i)" "lf_indexed f'" "lf_name f' = lf_name (fl_files l ! i)"
      "fi_first f' = fi_first (fl_files l ! i)" "fi_last f' = fi_last (fl_files l ! i)" "fi_sparse f' = fi_sparse (fl_files l ! i)"
  shows "log_inv w (l \<lparr> fl_files := update_file (fl_files l) f' \<rparr>) h xss"
proof -
  let ?fs = "(fl_files l)[i := f']"
  have u: "update_file (fl_files l) f' = ?fs" by (rule update_file_nth[OF log_inv_names(2)[OF inv] i f(3)])
  have "list_all2 (file_ok w (fl_dir l) h) ?fs (xss[i := xss ! i])"
    using inv f(1) by (intro list_all2_update_cong) (auto simp: log_inv_def)
  moreover have nm: "map lf_name ?fs = map lf_name (fl_files l)" using f(3) i by (metis list_update_id map_update)
  have m: "map fi_first ?fs = map fi_first (fl_files l)" "map fi_last ?fs = map fi_last (fl_files l)"
    using f(4,5) i by (metis list_update_id map_update)+
  have ne: "fl_files l \<noteq> []" using i by auto
  have lastf: "\<not> fi_sparse (last ?fs)" "lf_indexed (last ?fs)"
    using inv f(2,6) ne i by (cases "i = length (fl_files l) - 1"; simp add: log_inv_def last_conv_nth)+
  have "\<forall>f \<in> set (butlast ?fs). fi_first f \<le> fi_last f"
  proof -
    have "map (\<lambda>f. (fi_first f, fi_last f)) ?fs = map (\<lambda>f. (fi_first f, fi_last f)) (fl_files l)"
      using f(4,5) i by (metis (mono_tags, lifting) list_update_id map_update)
    then have "map (\<lambda>f. (fi_first f, fi_last f)) (butlast ?fs) = map (\<lambda>f. (fi_first f, fi_last f)) (butlast (fl_files l))"
      by (simp only: map_butlast)
    then have "\<forall>x \<in> set (map (\<lambda>f. (fi_first f, fi_last f)) (butlast ?fs)). fst x \<le> snd x"
      using inv by (simp only: log_inv_def) simp
    then show ?thesis by simp
  qed
  ultimately show ?thesis
    unfolding log_inv_def u using inv lastf ne chain_cong[OF m] nm by (simp add: log_inv_def del: set_map)
qed

text \<open>The file \<^verbatim>\<open>findFile\<close> gives for a revision of the history, and where it is.\<close>

lemma log_inv_find:
  assumes inv: "log_inv w l h xss" and r: "1 \<le> unat r" "unat r \<le> length h"
  obtains i where "i < length (fl_files l)" "findFile (fl_files l) r = Some (fl_files l ! i)"
    "fi_first (fl_files l ! i) \<le> r" "r \<le> fi_last (fl_files l ! i)" "file_ok w (fl_dir l) h (fl_files l ! i) (xss ! i)"
    "r \<in> fst ` set (xss ! i) \<longleftrightarrow> r \<in> kept_revs xss"
proof -
  have c: "chain 1 (fl_files l) (length h)" and ok: "list_all2 (file_ok w (fl_dir l) h) (fl_files l) xss"
    using inv by (simp_all add: log_inv_def)
  obtain f ys zs where f: "findFile (fl_files l) r = Some f" "fl_files l = ys @ f # zs"
    "unat (fi_first f) \<le> unat r" "unat r \<le> unat (fi_last f)"
    using findFile_chain[OF c r zero_less_one] by blast
  define i where "i = length ys"
  have i: "i < length (fl_files l)" "fl_files l ! i = f" by (simp_all add: f(2) i_def)
  have oki: "file_ok w (fl_dir l) h (fl_files l ! j) (xss ! j)" if "j < length (fl_files l)" for j
    using ok that by (rule list_all2_nthD)
  have len: "length xss = length (fl_files l)" using ok by (simp add: list_all2_lengthD)
  have "r \<in> fst ` set (xss ! i)" if k: "r \<in> kept_revs xss"
  proof -
    obtain j x where j: "j < length xss" "x \<in> set (xss ! j)" "fst x = r"
      using k by (auto simp: kept_revs_def in_set_conv_nth[of _ xss])
    then have "fi_first (fl_files l ! j) \<le> r \<and> r \<le> fi_last (fl_files l ! j)" using oki[of j] len by (auto simp: file_ok_def)
    then have "j = i" using chain_same_file[OF c, of j i "unat r"] j(1) len i f by (simp add: word_le_nat_alt)
    then show ?thesis using j by auto
  qed
  moreover have "r \<in> kept_revs xss" if k: "r \<in> fst ` set (xss ! i)"
  proof -
    obtain x where x: "x \<in> set (xss ! i)" "r = fst x" using k by blast
    then have "x \<in> set (concat xss)" using i(1) len nth_mem[of i xss] by auto
    then show ?thesis using x(2) unfolding kept_revs_def by blast
  qed
  ultimately show thesis using that[of i] f i oki[OF i(1)] by (auto simp: word_le_nat_alt)
qed

lemma recordBytes_ok:
  assumes pc: "proto_codec w" and inv: "log_inv w l h xss" and r: "1 \<le> unat r" "unat r \<le> length h"
  shows "r \<in> kept_revs xss \<Longrightarrow> \<exists>m l'. recordBytes w l r = Inr (enc_message w (r, h ! (unat r - 1)), m, l')
      \<and> log_inv w l' h xss \<and> fl_cache l' = fl_cache l \<and> recordable w (r, h ! (unat r - 1))"
    and "r \<notin> kept_revs xss \<Longrightarrow> recordBytes w l r = Inl (Wrap ''revision'' ErrCompacted)"
proof -
  obtain i where i: "i < length (fl_files l)" "findFile (fl_files l) r = Some (fl_files l ! i)"
    "fi_first (fl_files l ! i) \<le> r" "r \<le> fi_last (fl_files l ! i)" "file_ok w (fl_dir l) h (fl_files l ! i) (xss ! i)"
    "r \<in> fst ` set (xss ! i) \<longleftrightarrow> r \<in> kept_revs xss"
    by (rule log_inv_find[OF inv r])
  let ?f = "fl_files l ! i" and ?xs = "xss ! i"
  have wf: "wire_format w" using pc by (simp add: proto_codec_def)
  have hm: "hist_map h r = Some (h ! (unat r - 1))" using r by (simp add: hist_map_def)
  have b: "length h < 2 ^ 63" using inv by (simp add: log_inv_def)
  obtain f' where f': "loadLocked w (fl_dir l) ?f = Inr f'" "file_ok w (fl_dir l) h f' ?xs" "lf_indexed f'" "lf_name f' = lf_name ?f"
    "fi_first f' = fi_first ?f" "fi_last f' = fi_last ?f" "fi_sparse f' = fi_sparse ?f"
    by (rule loadLocked_ok[OF wf i(5)])
  have act: "lf_indexed ?f" if "lf_name ?f = lf_name (last (fl_files l))"
  proof -
    have ne: "fl_files l \<noteq> []" using i(1) by auto
    then have "map lf_name (fl_files l) ! i = map lf_name (fl_files l) ! (length (fl_files l) - 1)"
      using that i(1) by (simp add: last_conv_nth)
    then have "i = length (fl_files l) - 1"
      using nth_eq_iff_index_eq[OF log_inv_names(2)[OF inv], of i "length (fl_files l) - 1"] i(1) by simp
    then show ?thesis using inv i(1) by (auto simp: log_inv_def last_conv_nth)
  qed
  define g where "g = (if lf_name ?f = lf_name (last (fl_files l)) then ?f else f')"
  have g: "file_ok w (fl_dir l) h g ?xs" "lf_indexed g" "lf_name g = lf_name ?f" "fi_first g = fi_first ?f" "fi_last g = fi_last ?f"
    "fi_sparse g = fi_sparse ?f" using f' i(5) act by (auto simp: g_def)
  have gl: "(if lf_name ?f = lf_name (last (fl_files l)) then Inr ?f else loadLocked w (fl_dir l) ?f) = Inr g"
    using f'(1) by (simp add: g_def)
  have data: "read_file (fl_dir l) (lf_name g) = magic @ enc_records w ?xs" "lf_spans g = spans_at w (length magic) ?xs"
    using g(1,2) by (simp_all add: file_ok_def read_file_def)
  note pos = position_ok[OF g(1,2) b, of r]
  show "\<exists>m l'. recordBytes w l r = Inr (enc_message w (r, h ! (unat r - 1)), m, l') \<and> log_inv w l' h xss
      \<and> fl_cache l' = fl_cache l \<and> recordable w (r, h ! (unat r - 1))"
    if k: "r \<in> kept_revs xss"
  proof -
    obtain j where j: "position g r = Inr j" "j < length ?xs" "?xs ! j = (r, h ! (unat r - 1))"
      using pos(1) k i g hm by auto
    have "span_bytes (lf_spans g ! j) (magic @ enc_records w ?xs) = enc_message w (r, h ! (unat r - 1))"
      using span_bytes_at[OF j(2), of w magic "[]"] j(3) by (simp add: data)
    moreover have "\<not> length (magic @ enc_records w ?xs) < sp_offset (lf_spans g ! j) + sp_length (lf_spans g ! j)"
      using span_end[OF j(2), of w "length magic"] by (simp add: data)
    moreover have "log_inv w (l \<lparr> fl_files := update_file (fl_files l) g \<rparr>) h xss"
      by (rule log_inv_reindex[OF inv i(1) g])
    moreover have "recordable w (r, h ! (unat r - 1))" using g(1) nth_mem[OF j(2)] j(3) by (auto simp: file_ok_def)
    ultimately show ?thesis using i(2) gl j(1) by (simp add: recordBytes_def Let_def data)
  qed
  show "recordBytes w l r = Inl (Wrap ''revision'' ErrCompacted)" if "r \<notin> kept_revs xss"
    using pos(2) that i g gl by (simp add: recordBytes_def Let_def)
qed

lemma log_inv_cache:
  "log_inv w l h xss \<Longrightarrow> lru.coherent c (hist_map h) \<Longrightarrow> log_inv w (l \<lparr> fl_cache := c \<rparr>) h xss"
  by (simp add: log_inv_def)

lemma Decode_enc_message: "proto_codec w \<Longrightarrow> recordable w x \<Longrightarrow> EncodedRecord_Decode w (enc_message w x) = Inr (snd x)"
  using proto_codec.Decode_message[of w x] by (simp add: EncodedRecord_Decode_def)

lemma list_all2_set2: "list_all2 P xs ys \<Longrightarrow> y \<in> set ys \<Longrightarrow> \<exists>x \<in> set xs. P x y"
  by (induction rule: list_all2_induct) auto

lemma list_all2_set1: "list_all2 P xs ys \<Longrightarrow> x \<in> set xs \<Longrightarrow> \<exists>y \<in> set ys. P x y"
  by (induction rule: list_all2_induct) auto

lemma log_inv_files: "log_inv w l h xss \<Longrightarrow> list_all2 (file_ok w (fl_dir l) h) (fl_files l) xss"
  by (simp add: log_inv_def)

lemma GetLogEntry_ok:
  assumes pc: "proto_codec w" and inv: "log_inv w l h xss"
  shows "r \<in> kept_revs xss \<Longrightarrow> fst (GetLogEntry w l r) = Inr (h ! (unat r - 1))"
    and "log_inv w (snd (GetLogEntry w l r)) h xss"
    and "1 \<le> unat r \<Longrightarrow> unat r \<le> length h \<Longrightarrow> r \<notin> kept_revs xss
         \<Longrightarrow> fst (GetLogEntry w l r) \<in> {Inr (h ! (unat r - 1)), Inl (Wrap ''revision'' ErrCompacted)}"
    and "unat r = 0 \<or> length h < unat r \<Longrightarrow> fst (GetLogEntry w l r) = Inl (Errorf ''log entry not found in any file'')"
proof -
  have co: "lru.coherent (fl_cache l) (hist_map h)" using inv by (simp add: log_inv_def)
  obtain c hit where g: "Cache_Get (fl_cache l) r = (c, hit)" by (cases "Cache_Get (fl_cache l) r")
  define l0 where "l0 = l \<lparr> fl_cache := c \<rparr>"
  have co0: "lru.coherent c (hist_map h)" using lru.coherent_get[OF co, of r] by (simp add: g)
  have inv0: "log_inv w l0 h xss" unfolding l0_def by (rule log_inv_cache[OF inv co0])
  have hit: "hist_map h r = Some x" if "hit = Some x" for x using lru.coherent_hit[OF co, of r x] that by (simp add: g)
  have cached: "GetLogEntry w l r = (Inr x, l0)" if "hit = Some x" for x
    using that by (simp add: GetLogEntry_def g l0_def)
  have kept: "1 \<le> unat r \<and> unat r \<le> length h" if k: "r \<in> kept_revs xss"
  proof -
    obtain xs x where x: "xs \<in> set xss" "x \<in> set xs" "fst x = r" using k by (auto simp: kept_revs_def)
    obtain f where "file_ok w (fl_dir l) h f xs"
      using list_all2_set2[OF log_inv_files[OF inv] x(1)] by blast
    then have "hist_map h r = Some (snd x)" using x by (auto simp: file_ok_def)
    then show ?thesis by (simp add: hist_map_def split: if_splits)
  qed
  have found: "\<exists>l'. GetLogEntry w l r = (Inr (h ! (unat r - 1)), l') \<and> log_inv w l' h xss" if k: "r \<in> kept_revs xss" "hit = None"
  proof -
    have rng: "1 \<le> unat r" "unat r \<le> length h" using kept[OF k(1)] by simp_all
    then have hm: "hist_map h r = Some (h ! (unat r - 1))" by (simp add: hist_map_def)
    obtain b l' where b: "recordBytes w l0 r = Inr (enc_message w (r, h ! (unat r - 1)), b, l')" "log_inv w l' h xss"
      "fl_cache l' = fl_cache l0" "recordable w (r, h ! (unat r - 1))"
      using recordBytes_ok(1)[OF pc inv0 rng k(1)] by blast
    have d: "EncodedRecord_Decode w (enc_message w (r, h ! (unat r - 1))) = Inr (h ! (unat r - 1))"
      using Decode_enc_message[OF pc b(4)] by simp
    have "lru.coherent (Cache_Put (fl_cache l') r (h ! (unat r - 1))) (hist_map h)"
      using lru.coherent_put_same[of "fl_cache l'" "hist_map h" r] b(2) hm by (simp add: log_inv_def)
    then have "log_inv w (l' \<lparr> fl_cache := Cache_Put (fl_cache l') r (h ! (unat r - 1)) \<rparr>) h xss" by (rule log_inv_cache[OF b(2)])
    then show ?thesis using k(2) b d by (simp add: GetLogEntry_def g l0_def[symmetric])
  qed
  have gone: "GetLogEntry w l r = (Inl (Wrap ''revision'' ErrCompacted), l0)"
    if "r \<notin> kept_revs xss" "hit = None" "1 \<le> unat r" "unat r \<le> length h"
    using recordBytes_ok(2)[OF pc inv0 that(3,4,1)] that(2) by (simp add: GetLogEntry_def g l0_def[symmetric])
  have beyond: "GetLogEntry w l r = (Inl (Errorf ''log entry not found in any file''), l0)" if b: "unat r = 0 \<or> length h < unat r"
  proof -
    have "hist_map h r = None" using b by (auto simp: hist_map_def)
    then have "hit = None" using hit by (cases hit) auto
    moreover have "recordBytes w l0 r = Inl (Errorf ''log entry not found in any file'')"
      using findFile_beyond[of "fl_files l0" "length h" r] inv0 b by (simp add: recordBytes_def log_inv_def)
    ultimately show ?thesis by (simp add: GetLogEntry_def g l0_def[symmetric])
  qed
  have hv: "x = h ! (unat r - 1)" if "hit = Some x" for x using hit[OF that] by (simp add: hist_map_def split: if_splits)
  show "fst (GetLogEntry w l r) = Inr (h ! (unat r - 1))" if "r \<in> kept_revs xss"
    using found[OF that] cached hv by (cases hit) auto
  show "fst (GetLogEntry w l r) \<in> {Inr (h ! (unat r - 1)), Inl (Wrap ''revision'' ErrCompacted)}"
    if "1 \<le> unat r" "unat r \<le> length h" "r \<notin> kept_revs xss"
    using gone[OF that(3) _ that(1,2)] cached hv by (cases hit) auto
  show "fst (GetLogEntry w l r) = Inl (Errorf ''log entry not found in any file'')" if "unat r = 0 \<or> length h < unat r"
    using beyond[OF that] by simp
  show "log_inv w (snd (GetLogEntry w l r)) h xss"
  proof (cases hit)
    case (Some x)
    then show ?thesis using cached inv0 by simp
  next
    case None
    consider "r \<in> kept_revs xss" | "r \<notin> kept_revs xss" "1 \<le> unat r" "unat r \<le> length h" | "unat r = 0 \<or> length h < unat r" by linarith
    then show ?thesis using found[OF _ None] gone[OF _ None] beyond inv0 by cases auto
  qed
qed

text \<open>A scan of records with a callback that may stop it.\<close>

fun deliver :: "('s \<Rightarrow> revision \<Rightarrow> LogRecord \<Rightarrow> 's \<times> bool) \<Rightarrow> stamped list \<Rightarrow> 's \<Rightarrow> 's \<times> bool" where
  "deliver cb [] s = (s, True)"
| "deliver cb ((rv, r) # xs) s = (case cb s rv r of (s', False) \<Rightarrow> (s', False) | (s', True) \<Rightarrow> deliver cb xs s')"

lemma deliver_append: "deliver cb (xs @ ys) s = (case deliver cb xs s of (s', False) \<Rightarrow> (s', False) | (s', True) \<Rightarrow> deliver cb ys s')"
  by (induction cb xs s rule: deliver.induct) (auto split: prod.splits bool.splits)

lemma read_records_ok:
  assumes pc: "proto_codec w" and "\<forall>x \<in> set xs. recordable w x"
  shows "read_records w (pre @ enc_records w xs @ post) from cb (zip (spans_at w (length pre) xs) (map fst xs)) s
    = (case deliver cb (filter (\<lambda>x. from \<le> fst x) xs) s of (s', go) \<Rightarrow> (None, s', go))"
  using assms(2)
proof (induction xs arbitrary: pre s)
  case (Cons x xs)
  obtain rv r where x: "x = (rv, r)" by (cases x)
  have sb: "span_bytes (spans_at w (length pre) (x # xs) ! 0) (pre @ enc_records w (x # xs) @ post) = enc_message w x"
    using span_bytes_at[of 0 "x # xs" w pre post] by simp
  have dec: "EncodedRecord_Decode w (enc_message w x) = Inr r" using Decode_enc_message[OF pc, of x] Cons.prems x by simp
  have eq: "pre @ enc_records w (x # xs) @ post = (pre @ enc_delimited w (enc_message w x)) @ enc_records w xs @ post"
    by (simp add: enc_records_Cons)
  have IH: "read_records w (pre @ enc_records w (x # xs) @ post) from cb
      (zip (spans_at w (length pre + length (enc_delimited w (enc_message w x))) xs) (map fst xs)) s'
    = (case deliver cb (filter (\<lambda>x. from \<le> fst x) xs) s' of (s', go) \<Rightarrow> (None, s', go))" for s'
    using Cons.IH[of "pre @ enc_delimited w (enc_message w x)" s'] Cons.prems unfolding eq by simp
  show ?case
  proof (cases "rv < from")
    case True
    then have "\<not> from \<le> rv" by (simp add: not_le)
    then show ?thesis using True IH x by simp
  next
    case False
    then have f: "from \<le> rv" "\<not> rv < from" by simp_all
    obtain s' go where cb: "cb s rv r = (s', go)" by (cases "cb s rv r")
    show ?thesis
    proof (cases go)
      case True
      then show ?thesis using sb dec f cb IH[of s'] by (simp add: x)
    next
      case go: False
      then show ?thesis using sb dec f cb by (simp add: x)
    qed
  qed
qed simp

lemma file_ok_full:
  assumes "file_ok w d h f xs"
  shows "map_of d (lf_name f) = Some (magic @ enc_records w xs)" "lf_size f = length (magic @ enc_records w xs)"
    "lf_count f = length xs" "\<forall>x \<in> set xs. recordable w x" "\<forall>x \<in> set xs. fi_first f \<le> fst x \<and> fst x \<le> fi_last f"
  using assms by (auto simp: file_ok_def)

lemma read_files_ok:
  assumes pc: "proto_codec w" and "list_all2 (file_ok w d h) fs xss"
  shows "read_files w d from cb fs s = (None, fst (deliver cb (filter (\<lambda>x. from \<le> fst x) (concat xss)) s))"
  using assms(2)
proof (induction fs xss arbitrary: s rule: list_all2_induct)
  case (Cons f fs xs xss)
  note f = file_ok_full[OF Cons(1)]
  have wf: "wire_format w" using pc by (simp add: proto_codec_def)
  show ?case
  proof (cases "lf_count f = 0 \<or> fi_last f < from")
    case True
    then have "filter (\<lambda>x. from \<le> fst x) xs = []" using f(3,5) by (force simp: filter_empty_conv)
    then show ?thesis using True Cons.IH by simp
  next
    case False
    have "Offsets w (magic @ enc_records w xs) = Inr (spans_at w (length magic) xs, map fst xs)"
      by (rule wire_format.Offsets_records[OF wf f(4)])
    moreover have "read_records w (magic @ enc_records w xs) from cb (zip (spans_at w (length magic) xs) (map fst xs)) s
      = (case deliver cb (filter (\<lambda>x. from \<le> fst x) xs) s of (s', go) \<Rightarrow> (None, s', go))"
      using read_records_ok[OF pc f(4), of magic "[]"] by simp
    ultimately show ?thesis using False f(1,2) Cons.IH by (auto simp: deliver_append Let_def split: prod.splits bool.splits)
  qed
qed simp

subsection \<open>The log's contract\<close>

definition fresh_log :: "Options \<Rightarrow> FilesystemLog" where
  "fresh_log opts =
     (let i = \<lparr> fi_first = 1, fi_last = 0, fi_sparse = False \<rparr>
      in \<lparr> fl_opts = opts, fl_dir = [(filename i, magic)],
           fl_files = [(new_logFile i (filename i)) \<lparr> lf_size := length magic, lf_indexed := True \<rparr>],
           fl_lastRevision = 0, fl_cache = Cache_New (op_cacheBytes opts), fl_archiver = [], fl_listener = False, fl_notified = [] \<rparr>)"

lemma fresh_inv: "log_inv w (fresh_log opts) [] [[]]"
proof -
  have "lru.coherent (Cache_New b) (hist_map [])" for b
    using cache_inv_New by (simp add: lru.coherent_def)
  moreover have "\<exists>fi. parseFilename (filename \<lparr> fi_first = 1, fi_last = 0, fi_sparse = False \<rparr>) = Inr fi"
    by (simp add: parseFilename_filename)
  ultimately show ?thesis
    by (auto simp: log_inv_def fresh_log_def file_ok_def new_logFile_def named_def fileInfo.truncate_def parseFilename_filename Let_def)
qed

lemma sample_storable: "storable std_wire (sample_record c)"
proof -
  have small: "length (enc_WatchResponse std_base rv (lr_events (sample_record c))) < 400" for rv
    unfolding enc_WatchResponse_def sample_record_def
    by (simp, rule le_less_trans[OF add_mono[OF std_length_message_field std_length_message_field]])
      (use std_length_varint_field[of 3 rv] std_length_Event[of "hd (lr_events (sample_record c))"] in
        \<open>simp add: sample_record_def\<close>)
  have "length (enc_WatchResponse std_wire rv (lr_events (sample_record c))) < 2 ^ 64" for rv
    using small[of rv] by (simp add: std_wire_base)
  then show ?thesis
    unfolding storable_def recordable_def loggable_def fits_def by (simp add: sample_record_def)
qed

text \<open>Two commits on a log that rotates after every batch.\<close>

definition sample_commit :: "byte \<Rightarrow> BatchCommit" where
  "sample_commit c = \<lparr> bc_transactions = [\<lparr> pt_logRecord = sample_record c, pt_meta = NewTxnMeta 0, pt_resultChan = 0 \<rparr>] \<rparr>"

definition sample_log :: FilesystemLog where
  "sample_log = snd (commitBatch std_wire (fresh_log \<lparr> op_cacheBytes = 0, op_rotateBytes = 1, op_archive = False, op_mmap = True \<rparr>) 0 (sample_commit 5))"

lemma sample_log_inv: "\<exists>xss. log_inv std_wire sample_log [sample_record 5] xss \<and> kept_revs xss = {1}"
proof -
  obtain l' xss' where l: "commitBatch std_wire (fresh_log \<lparr> op_cacheBytes = 0, op_rotateBytes = 1, op_archive = False, op_mmap = True \<rparr>) 0 (sample_commit 5) = (None, l')"
    "log_inv std_wire l' ([] @ map pt_logRecord (bc_transactions (sample_commit 5))) xss'"
    "kept_revs xss' = kept_revs [[]] \<union> fst ` set (stamp_from 0 (map pt_logRecord (bc_transactions (sample_commit 5))))"
    by (rule commitBatch_inv[OF std.proto_codec_axioms fresh_inv, of 0 "sample_commit 5"]) (use sample_storable in \<open>auto simp: sample_commit_def\<close>)
  then show ?thesis by (auto simp: sample_log_def sample_commit_def kept_revs_def stamp_from_def)
qed

text \<open>C9: A batch that is contiguous with the log is always committed.  From a log that holds the history \<^verbatim>\<open>h\<close>,
  \<^verbatim>\<open>commitBatch\<close> reports no error, and leaves a log that holds \<^verbatim>\<open>h\<close> followed by the batch's records, in order:
  every file on disk has exactly the header and the encoded records its index says, the files cover the
  revisions from 1 on without a gap, the last one is appended to, whether or not the commit rotated, and
  every revision that could be read can still be read, with the new ones.\<close>

theorem commitBatch_appends:
  assumes "proto_codec w" and "log_inv w l h xss" and "unat p = length h" and "bc_transactions c \<noteq> []"
    and "Suc (length h + length (bc_transactions c)) < 2 ^ 63" and "\<forall>t \<in> set (bc_transactions c). storable w (pt_logRecord t)"
  shows "\<exists>l' xss'. commitBatch w l p c = (None, l') \<and> log_inv w l' (h @ map pt_logRecord (bc_transactions c)) xss'
    \<and> GetCurrentRevision l' = p + of_nat (length (bc_transactions c))
    \<and> kept_revs xss' = kept_revs xss \<union> {r. unat p < unat r \<and> unat r \<le> unat p + length (bc_transactions c)}"
proof -
  let ?rs = "map pt_logRecord (bc_transactions c)"
  obtain l' xss' where l': "commitBatch w l p c = (None, l')" "log_inv w l' (h @ ?rs) xss'"
    "kept_revs xss' = kept_revs xss \<union> fst ` set (stamp_from p ?rs)"
    by (rule commitBatch_inv[OF assms(1-3) assms(5,4,6)])
  have b: "unat p + length ?rs < 2 ^ 64" using assms(3,5) by simp
  have "unat ` fst ` set (stamp_from p ?rs) = set (map (unat \<circ> fst) (stamp_from p ?rs))" by (simp add: image_comp)
  also have "\<dots> = {Suc (unat p)..<Suc (unat p + length ?rs)}" unfolding stamp_sorted[OF b] by (simp del: upt_Suc)
  finally have "unat ` fst ` set (stamp_from p ?rs) = {Suc (unat p)..<Suc (unat p + length ?rs)}" .
  then have "fst ` set (stamp_from p ?rs) = {r. unat r \<in> {Suc (unat p)..<Suc (unat p + length ?rs)}}"
    using inj_image_mem_iff[of unat _ "fst ` set (stamp_from p ?rs)"] by (auto simp: inj_def word_unat_eq_iff)
  moreover have "GetCurrentRevision l' = p + of_nat (length (bc_transactions c))"
  proof -
    have "unat (fl_lastRevision l') = length h + length ?rs" using l'(2) by (simp add: log_inv_def)
    moreover have "unat (p + of_nat (length ?rs)) = length h + length ?rs"
      using b assms(3) by (simp add: unat_word_ariths unat_of_nat take_bit_nat_eq_self)
    ultimately show ?thesis by (simp add: GetCurrentRevision_def word_unat_eq_iff)
  qed
  ultimately show ?thesis using l' by (auto simp: less_Suc_eq_le Suc_le_eq)
qed

theorem commitBatch_appends_witness:
  "\<exists>l' xss'. commitBatch std_wire (fresh_log \<lparr> op_cacheBytes = 0, op_rotateBytes = 1, op_archive = False, op_mmap = True \<rparr>) 0 (sample_commit 5) = (None, l')
     \<and> log_inv std_wire l' [sample_record 5] xss' \<and> GetCurrentRevision l' = 1"
  using commitBatch_appends[OF std.proto_codec_axioms fresh_inv, of 0 "sample_commit 5" "\<lparr> op_cacheBytes = 0, op_rotateBytes = 1, op_archive = False, op_mmap = True \<rparr>"]
    sample_storable by (auto simp: sample_commit_def)

text \<open>C37: A lookup finds what was committed.  In a log that holds the history \<^verbatim>\<open>h\<close>, \<^verbatim>\<open>GetLogEntry\<close> returns the record
  of every revision the files still have, from the cache, the active file or a closed file; a revision that
  compaction dropped gives its record (when it is still cached) or \<^verbatim>\<open>ErrCompacted\<close>; one beyond the log, or 0,
  is an error; and the log holds the same history afterwards, with the same revisions readable.\<close>

theorem GetLogEntry_reads:
  assumes "proto_codec w" and "log_inv w l h xss"
  shows "log_inv w (snd (GetLogEntry w l r)) h xss
    \<and> (if r \<in> kept_revs xss then fst (GetLogEntry w l r) = Inr (h ! (unat r - 1))
       else if 1 \<le> unat r \<and> unat r \<le> length h
            then fst (GetLogEntry w l r) = Inr (h ! (unat r - 1)) \<or> fst (GetLogEntry w l r) = Inl (Wrap ''revision'' ErrCompacted)
            else fst (GetLogEntry w l r) = Inl (Errorf ''log entry not found in any file''))"
  using GetLogEntry_ok[OF assms, of r] by (auto simp: not_le)

theorem GetLogEntry_reads_witness:
  "fst (GetLogEntry std_wire sample_log 1) = Inr (sample_record 5)
   \<and> fst (GetLogEntry std_wire sample_log 2) = Inl (Errorf ''log entry not found in any file'')"
proof -
  obtain xss where x: "log_inv std_wire sample_log [sample_record 5] xss" "kept_revs xss = {1}" using sample_log_inv by blast
  show ?thesis
    using GetLogEntry_reads[OF std.proto_codec_axioms x(1), of 1] GetLogEntry_reads[OF std.proto_codec_axioms x(1), of 2] x(2) by simp
qed

lemma files_sorted:
  assumes "list_all2 (file_ok w d h) fs xss" and "chain a fs b"
  shows "sorted_wrt (<) (map fst (concat xss))" and "\<forall>x \<in> set (concat xss). a \<le> unat (fst x)"
proof -
  have "sorted_wrt (<) (map fst (concat xss)) \<and> (\<forall>x \<in> set (concat xss). a \<le> unat (fst x))"
    using assms
  proof (induction fs xss arbitrary: a rule: list_all2_induct)
    case (Cons f fs xs xss)
    have f: "sorted_wrt (<) (map fst xs)" "\<forall>x \<in> set xs. unat (fi_first f) \<le> unat (fst x) \<and> unat (fst x) \<le> unat (fi_last f)"
      using Cons(1) by (auto simp: file_ok_def word_le_nat_alt)
    have c: "unat (fi_first f) = a" "a \<le> Suc (unat (fi_last f))" "chain (Suc (unat (fi_last f))) fs b" using Cons.prems by simp_all
    have IH: "sorted_wrt (<) (map fst (concat xss))" "\<forall>x \<in> set (concat xss). Suc (unat (fi_last f)) \<le> unat (fst x)"
      using Cons.IH[OF c(3)] by simp_all
    have "fst x < fst y" if "x \<in> set xs" "y \<in> set (concat xss)" for x y
      using f(2) IH(2) that unfolding word_less_nat_alt by fastforce
    then have "sorted_wrt (<) (map fst (concat (xs # xss)))" using f(1) IH(1) by (fastforce simp: sorted_wrt_append)
    moreover have "a \<le> unat (fst x)" if "x \<in> set (concat (xs # xss))" for x
      using that f(2) IH(2) c(1,2) by fastforce
    ultimately show ?case by blast
  qed simp
  then show "sorted_wrt (<) (map fst (concat xss))" and "\<forall>x \<in> set (concat xss). a \<le> unat (fst x)" by blast+
qed

text \<open>C38: A sequential read delivers the log.  \<^verbatim>\<open>Read\<close> passes to its callback exactly the records the files have from
  \<^verbatim>\<open>fromRevision\<close> on, with their revisions, in increasing order, until the callback stops it, and reports no
  error; each is the history's record of that revision.\<close>

theorem Read_delivers:
  assumes "proto_codec w" and "log_inv w l h xss"
  shows "Read w l fromRevision cb s = (None, fst (deliver cb (filter (\<lambda>x. fromRevision \<le> fst x) (concat xss)) s))
    \<and> sorted_wrt (<) (map fst (concat xss)) \<and> (\<forall>x \<in> set (concat xss). snd x = h ! (unat (fst x) - 1))"
proof -
  have inv: "list_all2 (file_ok w (fl_dir l) h) (fl_files l) xss" "chain 1 (fl_files l) (length h)"
    using assms(2) by (simp_all add: log_inv_def)
  have "snd x = h ! (unat (fst x) - 1)" if x: "x \<in> set (concat xss)" for x
  proof -
    obtain xs where xs: "xs \<in> set xss" "x \<in> set xs" using x by auto
    obtain f where "file_ok w (fl_dir l) h f xs" using list_all2_set2[OF inv(1) xs(1)] by blast
    then have "hist_map h (fst x) = Some (snd x)" using xs(2) by (simp add: file_ok_def)
    then show ?thesis by (simp add: hist_map_def split: if_splits)
  qed
  then show ?thesis using read_files_ok[OF assms(1) inv(1)] files_sorted(1)[OF inv] by (simp add: Read_def)
qed

theorem Read_delivers_witness:
  "Read std_wire sample_log 1 (\<lambda>s rv r. (s @ [(rv, r)], True)) [] = (None, [(1, sample_record 5)])"
proof -
  obtain xss where x: "log_inv std_wire sample_log [sample_record 5] xss" "kept_revs xss = {1}" using sample_log_inv by blast
  note rd = Read_delivers[OF std.proto_codec_axioms x(1), of 1 "\<lambda>s rv r. (s @ [(rv, r)], True)" "[]"]
  have "distinct (map fst (concat xss))" using rd strict_sorted_iff by blast
  moreover have "set (map fst (concat xss)) = {1}" using x(2) by (simp add: kept_revs_def)
  ultimately have "map fst (concat xss) = [1]" by (cases "map fst (concat xss)"; cases "tl (map fst (concat xss))") auto
  then obtain r where r: "concat xss = [(1, r)]" by (cases "concat xss") auto
  then have "r = sample_record 5" using rd by simp
  then show ?thesis using rd unfolding r by simp
qed

end
