(* ===== verification/Log_Recovery.thy ===== *)
theory Log_Recovery
  imports Filesystem_Log
begin

text \<open>
  Opening, compacting, archiving and closing the log,
  \<^verbatim>\<open>src/pkg/persistence/filesystemlog/filesystem_log.go\<close> and its worker, \<^verbatim>\<open>worker.go\<close>.

  \<^verbatim>\<open>worker_capacity\<close> is the capacity of the archiver's channel.  Before the worker is started nothing is
  taken from the channel, so an opening that queues more operations than that never returns; this is the
  value \<^verbatim>\<open>None\<close> of \<^verbatim>\<open>NewFilesystemLogWithOptions\<close>.
\<close>

subsection \<open>Opening\<close>

text \<open>The revisions of a file's records, against what its name says.\<close>

definition revisions_ok :: "logFile \<Rightarrow> revision list \<Rightarrow> bool" where
  "revisions_ok f revisions =
     (if fi_sparse f
      then \<forall>j \<in> set [0..<length revisions]. \<not> (revisions ! j < fi_first f \<or> fi_last f < revisions ! j \<or> 0 < j \<and> revisions ! j \<le> revisions ! (j - 1))
      else \<forall>j \<in> set [0..<length revisions]. revisions ! j = fi_first f + of_nat j)"

definition scan_file :: "Protowire \<Rightarrow> directory \<Rightarrow> logFile option \<Rightarrow> bool \<Rightarrow> logFile \<Rightarrow> (error + logFile) \<times> directory" where
  "scan_file w d prev is_last f =
     (case map_of d (lf_name f) of
        None \<Rightarrow> (Inl (Errorf ''failed to read log file''), d)
      | Some data \<Rightarrow>
          case Scan w data of
            Inl e \<Rightarrow> (Inl (Wrap ''log file'' e), d)
          | Inr (spans, revisions, complete) \<Rightarrow>
              if complete < length data \<and> (\<not> is_last \<or> fi_sparse f) then (Inl (Errorf ''log file is truncated but is not the active file; recovery needed''), d)
              else let d' = (if complete < length data then AList.update (lf_name f) (take complete data) d else d);
                       f1 = f \<lparr> lf_count := length spans, lf_size := complete \<rparr>
                   in if \<not> revisions_ok f revisions then (Inl (Errorf ''record has a revision outside or out of order; recovery needed''), d')
                      else let f2 = (if fi_sparse f then f1 else f1 \<lparr> fi_last := fi_first f + of_nat (length spans) - 1 \<rparr>)
                           in if fi_first f \<noteq> (case prev of Some p \<Rightarrow> fi_last p + 1 | None \<Rightarrow> 1) then (Inl (Errorf ''log has a gap; recovery needed''), d')
                              else (Inr (if is_last \<and> \<not> fi_sparse f then f2 \<lparr> lf_spans := spans, lf_indexed := True \<rparr> else f2), d'))"

fun scan_files :: "Protowire \<Rightarrow> directory \<Rightarrow> logFile list \<Rightarrow> logFile list \<Rightarrow> (error + logFile list) \<times> directory" where
  "scan_files w d done [] = (Inr done, d)"
| "scan_files w d done (f # fs) =
     (case scan_file w d (if done = [] then None else Some (last done)) (fs = []) f of
        (Inl e, d') \<Rightarrow> (Inl e, d')
      | (Inr f', d') \<Rightarrow> scan_files w d' (done @ [f']) fs)"

fun restore :: "'a Archive \<Rightarrow> 'a \<Rightarrow> directory \<Rightarrow> string list \<Rightarrow> error option \<times> directory" where
  "restore arch ar d [] = (None, d)"
| "restore arch ar d (name # names) =
     (case ar_Download arch ar d name name of
        (Some e, d') \<Rightarrow> (Some (Wrap ''restoring from the archive'' e), d')
      | (None, d') \<Rightarrow> restore arch ar d' names)"

fun reconcile_names :: "FilesystemLog \<Rightarrow> logFile list \<Rightarrow> string list \<Rightarrow> error + (logFile list \<times> FilesystemLog)" where
  "reconcile_names l files [] = Inr (files, l)"
| "reconcile_names l files (name # names) =
     (if name \<in> set (map lf_name files)
      then reconcile_names l (map (\<lambda>f. if lf_name f = name then f \<lparr> lf_archived := True \<rparr> else f) files) names
      else case parseFilename name of
             Inl e \<Rightarrow> Inl (Errorf ''archive holds a file which this log does not have'')
           | Inr info \<Rightarrow>
               if superseded files (fi_first info) then reconcile_names (add_archive_op l \<lparr> ao_name = name, ao_remove = True \<rparr>) files names
               else Inl (Errorf ''archive holds a file which this log does not have''))"

definition reconcileArchive :: "'a Archive \<Rightarrow> 'a \<Rightarrow> FilesystemLog \<Rightarrow> logFile list \<Rightarrow> error + (logFile list \<times> FilesystemLog)" where
  "reconcileArchive arch ar l files =
     (case ar_List arch ar of
        Inl e \<Rightarrow> Inl (Wrap ''listing archive'' e)
      | Inr names \<Rightarrow>
          if files = [] \<and> names \<noteq> []
          then case restore arch ar (fl_dir l) names of
                 (Some e, d) \<Rightarrow> Inl e
               | (None, d) \<Rightarrow> let (d', files') = listFiles d in reconcile_names (l \<lparr> fl_dir := d' \<rparr>) files' names
          else reconcile_names l files names)"

definition queue_unarchived :: "FilesystemLog \<Rightarrow> logFile list \<Rightarrow> FilesystemLog" where
  "queue_unarchived l files = foldl (\<lambda>l f. if lf_archived f then l else add_archive_op l \<lparr> ao_name = lf_name f, ao_remove = False \<rparr>) l files"

text \<open>
  The end of \<^verbatim>\<open>open\<close>: the files are known.  When the last one is appended to again, it is the active file
  as it stands.
\<close>

definition open_active :: "FilesystemLog \<Rightarrow> logFile list \<Rightarrow> error + FilesystemLog" where
  "open_active l files =
     (let l1 = l \<lparr> fl_files := files \<rparr>
      in if files = [] then newActiveFile l1
         else let lst = last files; l2 = l1 \<lparr> fl_lastRevision := fi_last lst \<rparr>;
                  l3 = (if op_archive (fl_opts l) then queue_unarchived l2 (butlast files) else l2)
              in if lf_archived lst \<or> fi_sparse lst
                 then newActiveFile (if \<not> lf_archived lst \<and> op_archive (fl_opts l) then add_archive_op l3 \<lparr> ao_name = lf_name lst, ao_remove = False \<rparr> else l3)
                 else Inr l3)"

definition open_log :: "Protowire \<Rightarrow> 'a Archive \<Rightarrow> 'a \<Rightarrow> FilesystemLog \<Rightarrow> error + FilesystemLog" where
  "open_log w arch ar l =
     (let (d, files) = listFiles (fl_dir l); l0 = l \<lparr> fl_dir := d \<rparr>
      in case (if op_archive (fl_opts l) then reconcileArchive arch ar l0 files else Inr (files, l0)) of
           Inl e \<Rightarrow> Inl e
         | Inr (files1, l1) \<Rightarrow>
             (case scan_files w (fl_dir l1) [] files1 of
                (Inl e, d') \<Rightarrow> Inl e
              | (Inr files2, d') \<Rightarrow> open_active (l1 \<lparr> fl_dir := d' \<rparr>) files2))"

definition DefaultCacheBytes :: int where "DefaultCacheBytes = 268435456"
definition DefaultRotateBytes :: nat where "DefaultRotateBytes = 67108864"
definition worker_capacity :: nat where "worker_capacity = 4096"

definition default_options :: "Options \<Rightarrow> Options" where
  "default_options opts = opts \<lparr> op_cacheBytes := (if op_cacheBytes opts = 0 then DefaultCacheBytes else op_cacheBytes opts),
     op_rotateBytes := (if op_rotateBytes opts = 0 then DefaultRotateBytes else op_rotateBytes opts) \<rparr>"

definition NewFilesystemLogWithOptions ::
    "Protowire \<Rightarrow> 'a Archive \<Rightarrow> 'a \<Rightarrow> directory \<Rightarrow> Options \<Rightarrow> (error + FilesystemLog \<times> Batching) option" where
  "NewFilesystemLogWithOptions w arch ar d opts0 =
     (let opts = default_options opts0;
          l = \<lparr> fl_opts = opts, fl_dir = d, fl_files = [], fl_lastRevision = 0, fl_cache = Cache_New (op_cacheBytes opts),
                fl_archiver = [], fl_listener = False, fl_notified = [] \<rparr>
      in case open_log w arch ar l of
           Inl e \<Rightarrow> Some (Inl e)
         | Inr l' \<Rightarrow> if worker_capacity < length (fl_archiver l') then None else Some (Inr (l', NewBatching (fl_lastRevision l'))))"

definition NewFilesystemLog :: "Protowire \<Rightarrow> 'a Archive \<Rightarrow> 'a \<Rightarrow> directory \<Rightarrow> (error + FilesystemLog \<times> Batching) option" where
  "NewFilesystemLog w arch ar d = NewFilesystemLogWithOptions w arch ar d
     \<lparr> op_cacheBytes = 0, op_rotateBytes = 0, op_archive = False, op_mmap = True \<rparr>"

subsection \<open>Compaction\<close>

type_synonym liveFunc = "key \<Rightarrow> revision \<Rightarrow> bool"

fun live_loop :: "Protowire \<Rightarrow> liveFunc \<Rightarrow> logFile \<Rightarrow> bytes \<Rightarrow> ('s \<Rightarrow> bytes \<Rightarrow> revision \<Rightarrow> 's) \<Rightarrow> nat \<Rightarrow> Span list \<Rightarrow> 's \<Rightarrow> nat \<Rightarrow> error + 's \<times> nat" where
  "live_loop w live f data keep i [] s dead = Inr (s, dead)"
| "live_loop w live f data keep i (span # spans) s dead =
     (let m = span_bytes span data; rv = revisionAt f i
      in case DecodeAlias w m of
           Inl e \<Rightarrow> Inl (Wrap ''failed to decode log record'' e)
         | Inr record \<Rightarrow>
             if list_ex (\<lambda>ev. live (kv_key (ev_kv ev)) rv) (lr_events record)
             then live_loop w live f data keep (Suc i) spans (keep s m rv) dead
             else live_loop w live f data keep (Suc i) spans s (Suc dead))"

definition liveRecords :: "Protowire \<Rightarrow> directory \<Rightarrow> logFile \<Rightarrow> liveFunc \<Rightarrow> ('s \<Rightarrow> bytes \<Rightarrow> revision \<Rightarrow> 's) \<Rightarrow> 's \<Rightarrow> error + logFile \<times> 's \<times> nat" where
  "liveRecords w d f live keep s =
     (case loadLocked w d f of
        Inl e \<Rightarrow> Inl e
      | Inr f' \<Rightarrow>
          let content = read_file d (lf_name f')
          in if length content < lf_size f' then Inl (Errorf ''failed to read log file'')
             else case live_loop w live f' (take (lf_size f') content) keep 0 (lf_spans f') s 0 of
                    Inl e \<Rightarrow> Inl e
                  | Inr (s', dead) \<Rightarrow> Inr (f', s', dead))"

text \<open>The file being written: its bytes, and the spans and revisions of its records.\<close>

definition write_live :: "Protowire \<Rightarrow> bytes \<times> Span list \<times> revision list \<Rightarrow> bytes \<Rightarrow> revision \<Rightarrow> bytes \<times> Span list \<times> revision list" where
  "write_live w s m rv =
     (case s of (out, spans, revisions) \<Rightarrow>
        let out' = WriteRecord w out m
        in (out', spans @ [\<lparr> sp_offset = length out' - length m, sp_length = length m \<rparr>], revisions @ [rv]))"

fun write_group :: "Protowire \<Rightarrow> directory \<Rightarrow> liveFunc \<Rightarrow> logFile list \<Rightarrow> bytes \<times> Span list \<times> revision list
    \<Rightarrow> error + bytes \<times> Span list \<times> revision list" where
  "write_group w d live [] s = Inr s"
| "write_group w d live (f # fs) s =
     (case liveRecords w d f live (write_live w) s of
        Inl e \<Rightarrow> Inl e
      | Inr (f', s', dead) \<Rightarrow> write_group w d live fs s')"

definition remove_files :: "directory \<Rightarrow> string \<Rightarrow> logFile list \<Rightarrow> directory" where
  "remove_files d name grp = foldl (\<lambda>d f. if lf_name f = name then d else AList.delete (lf_name f) d) d grp"

definition index_of :: "logFile list \<Rightarrow> string \<Rightarrow> nat" where
  "index_of files name = length (takeWhile (\<lambda>f. lf_name f \<noteq> name) files)"

definition compactGroup :: "Protowire \<Rightarrow> FilesystemLog \<Rightarrow> logFile list \<Rightarrow> liveFunc \<Rightarrow> error option \<times> FilesystemLog" where
  "compactGroup w l grp live =
     (let info = \<lparr> fi_first = fi_first (hd grp), fi_last = fi_last (last grp), fi_sparse = True \<rparr>;
          name = filename info; tmp = name @ ''.tmp''
      in case write_group w (fl_dir l) live grp (magic, [], []) of
           Inl e \<Rightarrow> (Some e, l \<lparr> fl_dir := AList.delete tmp (fl_dir l) \<rparr>)
         | Inr (out, spans, revisions) \<Rightarrow>
             let d1 = AList.update name out (AList.delete tmp (fl_dir l));
                 compacted = (new_logFile info name) \<lparr> lf_count := length spans, lf_size := length out, lf_indexed := True,
                                                       lf_spans := spans, lf_revisions := Some revisions \<rparr>;
                 i = index_of (fl_files l) (lf_name (hd grp));
                 l1 = l \<lparr> fl_dir := remove_files d1 name grp,
                          fl_files := take i (fl_files l) @ [compacted] @ drop (i + length grp) (fl_files l) \<rparr>;
                 removals = map (\<lambda>f. \<lparr> ao_name = lf_name f, ao_remove = True \<rparr>) (filter (\<lambda>f. lf_name f \<noteq> name) grp)
             in (None, if op_archive (fl_opts l)
                       then l1 \<lparr> fl_archiver := fl_archiver l1 @ \<lparr> ao_name = name, ao_remove = False \<rparr> # removals \<rparr>
                       else l1))"

record measured =
  ms_f :: logFile
  ms_liveBytes :: nat
  ms_dead :: nat

fun measure_files :: "Protowire \<Rightarrow> FilesystemLog \<Rightarrow> liveFunc \<Rightarrow> logFile list \<Rightarrow> measured list \<Rightarrow> (error + measured list) \<times> FilesystemLog" where
  "measure_files w l live [] ms = (Inr ms, l)"
| "measure_files w l live (f # fs) ms =
     (case liveRecords w (fl_dir l) f live (\<lambda>n m rv. n + length m + 4) 0 of
        Inl e \<Rightarrow> (Inl e, l)
      | Inr (f', liveBytes, dead) \<Rightarrow>
          measure_files w (l \<lparr> fl_files := update_file (fl_files l) f' \<rparr>) live fs
            (ms @ [\<lparr> ms_f = f', ms_liveBytes = liveBytes, ms_dead = dead \<rparr>]))"

definition flush_group :: "Protowire \<Rightarrow> FilesystemLog \<Rightarrow> liveFunc \<Rightarrow> logFile list \<Rightarrow> nat \<Rightarrow> error option \<times> FilesystemLog" where
  "flush_group w l live grp groupDead =
     (if grp = [] then (None, l)
      else if length grp = 1 \<and> (groupDead = 0 \<or> groupDead * 10 < lf_count (hd grp)) then (None, l)
      else compactGroup w l grp live)"

fun compact_walk :: "Protowire \<Rightarrow> liveFunc \<Rightarrow> measured list \<Rightarrow> FilesystemLog \<Rightarrow> logFile list \<Rightarrow> nat \<Rightarrow> nat \<Rightarrow> error option \<times> FilesystemLog" where
  "compact_walk w live [] l grp groupBytes groupDead = flush_group w l live grp groupDead"
| "compact_walk w live (m # ms) l grp groupBytes groupDead =
     (if 0 < groupBytes \<and> op_rotateBytes (fl_opts l) < groupBytes + ms_liveBytes m
      then case flush_group w l live grp groupDead of
             (Some e, l') \<Rightarrow> (Some e, l')
           | (None, l') \<Rightarrow> compact_walk w live ms l' [ms_f m] (ms_liveBytes m) (ms_dead m)
      else compact_walk w live ms l (grp @ [ms_f m]) (groupBytes + ms_liveBytes m) (groupDead + ms_dead m))"

definition log_Compact :: "Protowire \<Rightarrow> FilesystemLog \<Rightarrow> revision \<Rightarrow> liveFunc \<Rightarrow> error option \<times> FilesystemLog" where
  "log_Compact w l through live =
     (let eligible = filter (\<lambda>f. fi_last f \<le> through) (butlast (fl_files l))
      in if eligible = [] then (None, l)
         else case measure_files w l live eligible [] of
                (Inl e, l') \<Rightarrow> (Some e, l')
              | (Inr ms, l') \<Rightarrow> compact_walk w live ms l' [] 0 0)"

subsection \<open>The archiver\<close>

text \<open>
  \<^verbatim>\<open>archive\<close> retries until the operation succeeds: \<^verbatim>\<open>attempts\<close> bounds how often it is tried, and the result is
  \<^verbatim>\<open>None\<close> when it is still retrying then.  The first component of the result is the panic of a conflict.
\<close>

definition mark_archived :: "FilesystemLog \<Rightarrow> string \<Rightarrow> FilesystemLog" where
  "mark_archived l name = l \<lparr> fl_files := map (\<lambda>f. if lf_name f = name then f \<lparr> lf_archived := True \<rparr> else f) (fl_files l) \<rparr>"

primrec archive :: "'a Archive \<Rightarrow> nat \<Rightarrow> 'a \<Rightarrow> FilesystemLog \<Rightarrow> archiveOp \<Rightarrow> (error option \<times> 'a \<times> FilesystemLog) option" where
  "archive arch 0 ar l oper = None"
| "archive arch (Suc attempts) ar l oper =
     (case (if ao_remove oper then ar_Delete arch ar (ao_name oper) else ar_Upload arch ar (fl_dir l) (ao_name oper) (ao_name oper)) of
        (None, ar') \<Rightarrow> Some (None, ar', if ao_remove oper then l else mark_archived l (ao_name oper))
      | (Some e, ar') \<Rightarrow>
          if unwrap e = ErrRevisionConflict then Some (Some (Panic ''archiving log file''), ar', l)
          else archive arch attempts ar' l oper)"

text \<open>The worker: it takes the operations in order.\<close>

fun archiver_run :: "'a Archive \<Rightarrow> nat \<Rightarrow> 'a \<Rightarrow> FilesystemLog \<Rightarrow> archiveOp list \<Rightarrow> (error option \<times> 'a \<times> FilesystemLog) option" where
  "archiver_run arch attempts ar l [] = Some (None, ar, l)"
| "archiver_run arch attempts ar l (oper # ops) =
     (case archive arch attempts ar l oper of
        None \<Rightarrow> None
      | Some (Some e, ar', l') \<Rightarrow> Some (Some e, ar', l')
      | Some (None, ar', l') \<Rightarrow> archiver_run arch attempts ar' l' ops)"

definition archiver_drain :: "'a Archive \<Rightarrow> nat \<Rightarrow> 'a \<Rightarrow> FilesystemLog \<Rightarrow> (error option \<times> 'a \<times> FilesystemLog) option" where
  "archiver_drain arch attempts ar l = archiver_run arch attempts ar (l \<lparr> fl_archiver := [] \<rparr>) (fl_archiver l)"

subsection \<open>Closing\<close>

text \<open>
  \<^verbatim>\<open>Close\<close> after the batcher has been closed and drained; the archiver is then given thirty seconds to
  finish, and \<^verbatim>\<open>remove_on_close\<close> removes the directory of a temporary log.
\<close>

definition Close :: "FilesystemLog \<Rightarrow> bool \<Rightarrow> error option \<times> FilesystemLog" where
  "Close l remove_on_close =
     (let (err, l1) = (if op_archive (fl_opts l) then (case rotateLocked l of Inl e \<Rightarrow> (Some e, l) | Inr l' \<Rightarrow> (None, l')) else (None, l))
      in (err, if remove_on_close then l1 \<lparr> fl_dir := [] \<rparr> else l1))"

subsection \<open>Recovery\<close>

text \<open>What scanning finds out about a closed file: all but its index.\<close>

definition unindexed :: "logFile \<Rightarrow> logFile" where
  "unindexed f = f \<lparr> lf_archived := False, lf_indexed := False, lf_spans := [], lf_revisions := None \<rparr>"

lemma unindexed_simps [simp]:
  "fi_first (unindexed f) = fi_first f" "fi_last (unindexed f) = fi_last f" "fi_sparse (unindexed f) = fi_sparse f"
  "lf_name (unindexed f) = lf_name f" "lf_count (unindexed f) = lf_count f" "lf_size (unindexed f) = lf_size f"
  "\<not> lf_indexed (unindexed f)" "lf_revisions (unindexed f) = None" "\<not> lf_archived (unindexed f)"
  by (simp_all add: unindexed_def)

lemma listed_simps [simp]:
  "fi_first (listed f) = fi_first f" "fi_sparse (listed f) = fi_sparse f" "lf_name (listed f) = lf_name f"
  "fi_sparse f \<Longrightarrow> fi_last (listed f) = fi_last f" "\<not> lf_archived (listed f)"
  by (simp_all add: listed_def new_logFile_def)

lemma named_cong:
  "lf_name f = lf_name g \<Longrightarrow> fi_first f = fi_first g \<Longrightarrow> fi_last f = fi_last g \<Longrightarrow> fi_sparse f = fi_sparse g \<Longrightarrow> named f = named g"
  by (simp add: named_def fileInfo.truncate_def)

lemma file_ok_unindexed: "file_ok w d h f xs \<Longrightarrow> file_ok w d h (unindexed f) xs"
  using named_cong[of "unindexed f" f] by (simp add: file_ok_def)

lemma file_ok_length:
  assumes "file_ok w d h f xs" and "\<not> fi_sparse f" and "unat (fi_first f) \<le> Suc (unat (fi_last f))"
  shows "length xs = Suc (unat (fi_last f)) - unat (fi_first f)" and "fi_first f + of_nat (length xs) - 1 = fi_last f"
proof -
  have "length (map (unat \<circ> fst) xs) = length [unat (fi_first f)..<Suc (unat (fi_last f))]"
    using assms(1,2) by (simp add: file_ok_def del: upt_Suc)
  then show len: "length xs = Suc (unat (fi_last f)) - unat (fi_first f)" by (simp del: upt_Suc)
  have "of_nat (unat (fi_first f)) + of_nat (length xs) = (of_nat (Suc (unat (fi_last f))) :: revision)"
    unfolding of_nat_add[symmetric] len using assms(3) by simp
  then show "fi_first f + of_nat (length xs) - 1 = fi_last f" by (simp add: algebra_simps)
qed

lemma file_ok_revisions:
  assumes "file_ok w d h f xs"
  shows "revisions_ok (listed f) (map fst xs)"
proof (cases "fi_sparse f")
  case True
  have s: "sorted_wrt (<) (map fst xs)" "\<forall>x \<in> set xs. fi_first f \<le> fst x \<and> fst x \<le> fi_last f" using assms by (simp_all add: file_ok_def)
  have "\<not> fst (xs ! j) \<le> fst (xs ! (j - 1))" if "j < length xs" "0 < j" for j
    using sorted_wrt_nth_less[OF s(1), of "j - 1" j] that by (simp add: not_le)
  then show ?thesis using True s(2) by (auto simp: revisions_ok_def not_less)
next
  case False
  then have seq: "map (unat \<circ> fst) xs = [unat (fi_first f)..<Suc (unat (fi_last f))]" using assms by (simp add: file_ok_def)
  have "fst (xs ! j) = fi_first f + of_nat j" if j: "j < length xs" for j
  proof -
    have "length xs = Suc (unat (fi_last f)) - unat (fi_first f)" using seq by (metis length_map length_upt)
    then have "unat (fst (xs ! j)) = unat (fi_first f) + j"
      using arg_cong[OF seq, of "\<lambda>l. l ! j"] j by (simp del: upt_Suc)
    then have "of_nat (unat (fst (xs ! j))) = (of_nat (unat (fi_first f) + j) :: revision)" by simp
    then show ?thesis by simp
  qed
  then show ?thesis using False by (simp add: revisions_ok_def)
qed

text \<open>Scanning a file with the records \<^verbatim>\<open>xs\<close> and, when it is the last, a torn record at its end.\<close>

lemma scan_file_ok:
  assumes pc: "wire_format w" and f: "file_ok w d h f xs" and le: "unat (fi_first f) \<le> Suc (unat (fi_last f))"
    and data: "map_of d' (lf_name f) = Some (magic @ enc_records w xs @ tail)" and torn: "torn w tail"
    and last: "tail \<noteq> [] \<Longrightarrow> is_last \<and> \<not> fi_sparse f"
    and gap: "fi_first f = (case prev of Some p \<Rightarrow> fi_last p + 1 | None \<Rightarrow> 1)"
  shows "scan_file w d' prev is_last (listed f)
    = (Inr (if is_last \<and> \<not> fi_sparse f then (unindexed f) \<lparr> lf_spans := spans_at w (length magic) xs, lf_indexed := True \<rparr> else unindexed f),
       if tail = [] then d' else AList.update (lf_name f) (magic @ enc_records w xs) d')"
proof -
  note ff = file_ok_full[OF f]
  have sc: "Scan w (magic @ enc_records w xs @ tail) = Inr (spans_at w (length magic) xs, map fst xs, length (magic @ enc_records w xs))"
    by (rule wire_format.Scan_records[OF pc ff(4) torn])
  have l: "(listed f) \<lparr> lf_count := length xs, lf_size := length (magic @ enc_records w xs), fi_last := fi_last f \<rparr> = unindexed f"
    using ff(2,3) by (cases f) (simp add: listed_def new_logFile_def unindexed_def fileInfo.defs logFile.defs)
  have upd: "(if fi_sparse f then (listed f) \<lparr> lf_count := length xs, lf_size := length (magic @ enc_records w xs) \<rparr>
      else (listed f) \<lparr> lf_count := length xs, lf_size := length (magic @ enc_records w xs), fi_last := fi_first f + of_nat (length xs) - 1 \<rparr>) = unindexed f"
  proof (cases "fi_sparse f")
    case True
    then have "(listed f) \<lparr> lf_count := length xs, lf_size := length (magic @ enc_records w xs), fi_last := fi_last f \<rparr>
        = (listed f) \<lparr> lf_count := length xs, lf_size := length (magic @ enc_records w xs) \<rparr>"
      by (cases "listed f") (auto dest: listed_simps(4) simp: listed_def new_logFile_def)
    from trans[OF this[symmetric] l] show ?thesis using True by simp
  next
    case False
    then show ?thesis using l file_ok_length(2)[OF f False le] by simp
  qed
  have cut: "length (magic @ enc_records w xs) < length (magic @ enc_records w xs @ tail) \<longleftrightarrow> tail \<noteq> []" by simp
  show ?thesis
    unfolding scan_file_def
    using data sc file_ok_revisions[OF f] gap last upd cut by (cases "tail = []") (auto simp: Let_def)
qed

text \<open>The revision a file has to start at after the files scanned so far.\<close>

definition next_first :: "logFile list \<Rightarrow> nat" where
  "next_first fs = (if fs = [] then 1 else Suc (unat (fi_last (last fs))))"

lemma next_first_gap:
  assumes "unat (fi_first f) = next_first fs"
  shows "fi_first f = (case (if fs = [] then None else Some (last fs)) of Some p \<Rightarrow> fi_last p + 1 | None \<Rightarrow> 1)"
proof -
  have "of_nat (unat (fi_first f)) = (of_nat (next_first fs) :: revision)" using assms by simp
  then show ?thesis by (simp add: next_first_def add.commute)
qed

lemma scan_files_closed:
  assumes pc: "wire_format w" and "list_all2 (file_ok w d h) fs yss" and "chain (next_first dn) fs b" and "rest \<noteq> []"
  shows "scan_files w d dn (map listed fs @ rest) = scan_files w d (dn @ map unindexed fs) rest"
  using assms(2,3)
proof (induction fs yss arbitrary: dn rule: list_all2_induct)
  case (Cons f fs xs yss)
  have c: "unat (fi_first f) = next_first dn" "unat (fi_first f) \<le> Suc (unat (fi_last f))" "chain (Suc (unat (fi_last f))) fs b"
    using Cons.prems by simp_all
  have "map_of d (lf_name f) = Some (magic @ enc_records w xs @ [])" using file_ok_full(1)[OF Cons(1)] by simp
  from scan_file_ok[OF pc Cons(1) c(2) this wire_format.torn_Nil[OF pc] _ next_first_gap[OF c(1)], of False]
  have "scan_file w d (if dn = [] then None else Some (last dn)) False (listed f) = (Inr (unindexed f), d)" by simp
  moreover have "scan_files w d (dn @ [unindexed f]) (map listed fs @ rest) = scan_files w d ((dn @ [unindexed f]) @ map unindexed fs) rest"
    by (rule Cons.IH) (simp add: next_first_def c(3))
  ultimately show ?case using assms(4) by (cases "dn = []") simp_all
qed simp

lemma log_inv_small:
  assumes "log_inv w l h xss" and "f \<in> set (fl_files l)" shows "unat (fi_first f) < 2 ^ 63"
proof -
  have c: "chain 1 (fl_files l) (length h)" "Suc (length h) < 2 ^ 63" using assms(1) by (simp_all add: log_inv_def)
  obtain i where i: "i < length (fl_files l)" "fl_files l ! i = f" using assms(2) by (auto simp: in_set_conv_nth)
  have "chain 1 (take i (fl_files l) @ f # drop (Suc i) (fl_files l)) (length h)" using c(1) i id_take_nth_drop[OF i(1)] by simp
  then obtain m where "chain (Suc m) (f # drop (Suc i) (fl_files l)) (length h)" using chain_append[of 1] by auto
  then have "unat (fi_first f) \<le> Suc (unat (fi_last f))" by simp
  moreover have "unat (fi_last f) \<le> length h" using chain_mem[OF c(1) assms(2)] by simp
  ultimately show ?thesis using c(2) by simp
qed

lemma sorted_successively: "sorted_wrt P xs \<Longrightarrow> successively P xs"
  by (induction xs rule: induct_list012) auto

lemma listFiles_inv:
  assumes inv: "log_inv w l h xss" and d: "map fst d = map fst (fl_dir l)"
  shows "listFiles d = (d, map listed (fl_files l))"
proof (rule listFiles_consistent)
  have c: "chain 1 (fl_files l) (length h)" using inv by (simp add: log_inv_def)
  show "successively (\<lambda>p f. fi_sparse p \<longrightarrow> fi_last p < fi_first f) (fl_files l)"
    by (rule successively_mono[OF sorted_successively[OF chain_disjoint[OF c]]]) (simp add: word_less_nat_alt)
qed (use inv d log_inv_names[OF inv] log_inv_small[OF inv] in \<open>auto simp: log_inv_def\<close>)

text \<open>
  Opening what a crash left: the directory of a log that holds \<^verbatim>\<open>h\<close>, with part of a record after the last
  complete one in the active file.
\<close>

definition unopened :: "Options \<Rightarrow> directory \<Rightarrow> FilesystemLog" where
  "unopened opts d = \<lparr> fl_opts = opts, fl_dir = d, fl_files = [], fl_lastRevision = 0, fl_cache = Cache_New (op_cacheBytes opts),
     fl_archiver = [], fl_listener = False, fl_notified = [] \<rparr>"

definition torn_dir :: "FilesystemLog \<Rightarrow> bytes \<Rightarrow> directory" where
  "torn_dir l tail = (let name = lf_name (last (fl_files l)) in AList.update name (read_file (fl_dir l) name @ tail) (fl_dir l))"

lemma map_fst_update: "k \<in> fst ` set d \<Longrightarrow> map fst (AList.update k v d) = map fst d"
  by (induction d) auto

lemma open_log_recovers:
  assumes pc: "wire_format w" and inv: "log_inv w l h xss" and t: "torn w tail" and na: "\<not> op_archive opts"
  obtains l' where "open_log w arch ar (unopened opts (torn_dir l tail)) = Inr l'" "log_inv w l' h xss"
    "map_of (fl_dir l') = map_of (fl_dir l)" "fl_archiver l' = []"
proof -
  obtain fs a yss xs where s: "fl_files l = fs @ [a]" "xss = yss @ [xs]"
    "list_all2 (file_ok w (fl_dir l) h) fs yss" "file_ok w (fl_dir l) h a xs"
    "\<not> fi_sparse a" "lf_indexed a" "unat (fi_last a) = length h" "\<forall>f \<in> set fs. fi_first f \<le> fi_last f"
    "chain 1 fs (unat (fi_first a) - 1)" "1 \<le> unat (fi_first a)" "unat (fi_first a) \<le> Suc (length h)"
    by (rule log_inv_split[OF inv])
  let ?d = "torn_dir l tail"
  have content: "read_file (fl_dir l) (lf_name a) = magic @ enc_records w xs" using s(4) by (simp add: file_ok_def read_file_def)
  have d: "?d = AList.update (lf_name a) (magic @ enc_records w xs @ tail) (fl_dir l)" by (simp add: torn_dir_def s(1) content)
  have mem: "lf_name a \<in> fst ` set (fl_dir l)" using s(4) by (auto simp: file_ok_def dest: map_of_SomeD intro: rev_image_eqI)
  have fst: "map fst ?d = map fst (fl_dir l)" unfolding d by (rule map_fst_update[OF mem])
  have lf: "listFiles ?d = (?d, map listed fs @ [listed a])" using listFiles_inv[OF inv fst] s(1) by simp
  have nm: "lf_name f \<noteq> lf_name a" if "f \<in> set fs" for f
    using log_inv_names(2)[OF inv] imageI[OF that, of lf_name] by (auto simp: s(1))
  have closed: "list_all2 (file_ok w ?d h) fs yss"
    by (rule list_all2_file_ok_dir[OF s(3)]) (use nm in \<open>auto simp: d update_conv'\<close>)
  have "scan_files w ?d [] (map listed fs @ [listed a]) = scan_files w ?d (map unindexed fs) [listed a]"
    using scan_files_closed[OF pc closed, of "[]" "unat (fi_first a) - 1" "[listed a]"] s(9) by (simp add: next_first_def)
  moreover have nf: "unat (fi_first a) = next_first (map unindexed fs)"
  proof (cases fs rule: rev_cases)
    case Nil
    then show ?thesis using s(9,10) by (simp add: next_first_def)
  next
    case (snoc gs g)
    then obtain m where "chain (Suc m) [g] (unat (fi_first a) - 1)" using s(9) chain_append[of 1 gs "[g]"] by auto
    then show ?thesis using s(10) snoc by (simp add: next_first_def)
  qed
  have "scan_file w ?d (if map unindexed fs = [] then None else Some (last (map unindexed fs))) True (listed a)
      = (Inr ((unindexed a) \<lparr> lf_spans := spans_at w (length magic) xs, lf_indexed := True \<rparr>),
         if tail = [] then ?d else AList.update (lf_name a) (magic @ enc_records w xs) ?d)"
    using scan_file_ok[OF pc s(4) _ _ t _ next_first_gap[OF nf], of ?d True] s(5,7,11) by (simp add: d update_conv')
  ultimately obtain d2 where sc: "scan_files w ?d [] (map listed fs @ [listed a])
      = (Inr (map unindexed fs @ [(unindexed a) \<lparr> lf_spans := spans_at w (length magic) xs, lf_indexed := True \<rparr>]), d2)"
    "d2 = (if tail = [] then ?d else AList.update (lf_name a) (magic @ enc_records w xs) ?d)" by simp
  let ?a = "(unindexed a) \<lparr> lf_spans := spans_at w (length magic) xs, lf_indexed := True \<rparr>"
  define l' where "l' = (unopened opts d2) \<lparr> fl_files := map unindexed fs @ [?a], fl_lastRevision := fi_last a \<rparr>"
  have op: "open_log w arch ar (unopened opts ?d) = Inr l'"
    using na s(5) by (simp add: open_log_def unopened_def lf sc open_active_def Let_def l'_def)
  have d2: "map_of d2 = map_of (fl_dir l)"
    using s(4) unfolding sc(2) d by (auto simp: update_conv' file_ok_def fun_upd_idem)
  have "lf_name a \<in> fst ` set ?d" using mem arg_cong[OF fst, of set] by simp
  then have fst2: "map fst d2 = map fst (fl_dir l)" unfolding sc(2) using fst by (cases "tail = []") (simp_all add: map_fst_update)
  show thesis
  proof (rule that[OF op])
    show "map_of (fl_dir l') = map_of (fl_dir l)" "fl_archiver l' = []" using d2 by (simp_all add: l'_def unopened_def)
    show "log_inv w l' h xss" unfolding s(2)
    proof (rule log_inv_joinI[where fs = "map unindexed fs" and a = ?a])
      show "list_all2 (file_ok w (fl_dir l') h) (map unindexed fs) yss"
      proof -
        have "file_ok w (fl_dir l') h (unindexed f) ys" if "file_ok w (fl_dir l) h f ys" for f ys
          using file_ok_dir[OF file_ok_unindexed[OF that], of "fl_dir l'"] d2 by (simp add: l'_def unopened_def)
        then show ?thesis unfolding list_all2_map1 by (rule list_all2_mono[OF s(3)])
      qed
      show "file_ok w (fl_dir l') h ?a xs"
        using file_ok_dir[OF file_ok_unindexed[OF s(4)], of d2] d2 s(5) named_cong[of ?a "unindexed a"] by (simp add: file_ok_def l'_def unopened_def)
      show "chain 1 (map unindexed fs) (unat (fi_first ?a) - 1)"
        using s(9) chain_cong[of "map unindexed fs" fs] by simp
      show "distinct (map fst (fl_dir l'))" using inv fst2 by (simp add: l'_def unopened_def log_inv_def)
      show "set (map lf_name (fl_files l')) = {n \<in> set (map fst (fl_dir l')). \<exists>fi. parseFilename n = Inr fi}"
        using inv fst2 by (simp add: l'_def unopened_def log_inv_def s(1) image_image)
      show "lru.coherent (fl_cache l') (hist_map h)" by (simp add: l'_def unopened_def lru.coherent_def cache_inv_New)
    qed (use s inv in \<open>simp_all add: l'_def unopened_def log_inv_def\<close>)
  qed
qed

lemma cut_records:
  assumes pc: "wire_format w" and "\<forall>y \<in> set ys. recordable w y"
  shows "\<exists>k tail. k \<le> length ys \<and> take n (enc_records w ys) = enc_records w (take k ys) @ tail \<and> torn w tail
    \<and> (length (enc_records w ys) \<le> n \<longrightarrow> k = length ys)"
  using assms(2)
proof (induction ys arbitrary: n)
  case (Cons y ys)
  let ?e = "enc_delimited w (enc_message w y)"
  show ?case
  proof (cases "length ?e \<le> n")
    case True
    obtain k tail where k: "k \<le> length ys" "take (n - length ?e) (enc_records w ys) = enc_records w (take k ys) @ tail" "torn w tail"
      "length (enc_records w ys) \<le> n - length ?e \<longrightarrow> k = length ys" using Cons by (metis list.set_intros(2))
    then show ?thesis using True by (intro exI[of _ "Suc k"] exI[of _ tail]) (auto simp: enc_records_Cons)
  next
    case False
    have "fits (enc_message w y)" using Cons.prems by (simp add: recordable_def loggable_def enc_message_def)
    moreover have "strict_prefix (take n ?e) ?e" using False by (auto simp: strict_prefix_def take_is_prefix)
    ultimately have "torn w (take n ?e)" unfolding torn_def by blast
    then show ?thesis using False by (intro exI[of _ 0] exI[of _ "take n ?e"]) (simp add: enc_records_Cons)
  qed
qed (use wire_format.torn_Nil[OF pc] in simp)

lemma stamp_from_take: "stamp_from p (take k rs) = take k (stamp_from p rs)"
  by (simp add: stamp_from_def take_zip take_map min_def)

lemma publish_torn:
  assumes "fl_files l \<noteq> []"
  shows "torn_dir l (buf @ tail) = torn_dir (publish l rs buf spans) tail"
  using assms by (simp add: torn_dir_def publish_def Let_def update_last read_file_def update_conv')



end
