(* ===== verification/Gcs_Archive.thy ===== *)
theory Gcs_Archive
  imports Log_Recovery
begin

unbundle bit_operations_syntax

text \<open>
  The archive over a Cloud Storage bucket, \<^verbatim>\<open>src/pkg/persistence/gcsarchive/gcsarchive.go\<close>.

  The storage client is a parameter, the record \<^verbatim>\<open>Bucket\<close> of the calls the code makes on a bucket's state
  (one bucket: \<^verbatim>\<open>New\<close> fixes it), with the two tests the code makes on the client's errors.  \<^verbatim>\<open>bk_list\<close> is the
  iterator: the names it gives, and the error it ends with unless that is \<^verbatim>\<open>iterator.Done\<close>.  \<^verbatim>\<open>bk_create\<close> is
  the writer with the \<^verbatim>\<open>DoesNotExist\<close> condition, to which the checksum is sent.
\<close>

subsection \<open>crc32.Castagnoli\<close>

definition crc_bit :: "32 word \<Rightarrow> 32 word" where
  "crc_bit c = (if bit c 0 then drop_bit 1 c XOR 0x82F63B78 else drop_bit 1 c)"

definition crc_byte :: "32 word \<Rightarrow> byte \<Rightarrow> 32 word" where
  "crc_byte c b = (crc_bit ^^ 8) (c XOR ucast b)"

definition crc32 :: "bytes \<Rightarrow> 32 word" where
  "crc32 data = NOT (foldl crc_byte (NOT 0) data)"

subsection \<open>The archive\<close>

record 'b Bucket =
  bk_list :: "'b \<Rightarrow> string \<Rightarrow> string list \<times> error option"
  bk_create :: "'b \<Rightarrow> string \<Rightarrow> bytes \<Rightarrow> 32 word \<Rightarrow> error option \<times> 'b"
  bk_attrs :: "'b \<Rightarrow> string \<Rightarrow> error + nat \<times> 32 word"
  bk_delete :: "'b \<Rightarrow> string \<Rightarrow> error option \<times> 'b"
  bk_read :: "'b \<Rightarrow> string \<Rightarrow> error + bytes"
  bk_precondition :: "error \<Rightarrow> bool"
  bk_notExist :: "error \<Rightarrow> bool"

definition archive_prefix :: "string \<Rightarrow> string" where
  "archive_prefix p = (if p \<noteq> [] \<and> last p \<noteq> CHR ''/'' then p @ ''/'' else p)"

definition TrimPrefix :: "string \<Rightarrow> string \<Rightarrow> string" where
  "TrimPrefix s p = (if prefix p s then drop (length p) s else s)"

definition List :: "'b Bucket \<Rightarrow> string \<Rightarrow> 'b \<Rightarrow> error + string list" where
  "List bk pre b =
     (case bk_list bk b pre of
        (names, Some e) \<Rightarrow> Inl (Wrap ''listing'' e)
      | (names, None) \<Rightarrow> Inr (map (\<lambda>n. TrimPrefix n pre) names))"

definition isPreconditionFailed :: "'b Bucket \<Rightarrow> error \<Rightarrow> bool" where
  "isPreconditionFailed bk e = bk_precondition bk e"

definition explainWriteError :: "'b Bucket \<Rightarrow> 'b \<Rightarrow> string \<Rightarrow> 32 word \<Rightarrow> nat \<Rightarrow> error \<Rightarrow> error option" where
  "explainWriteError bk b obj crc sz err =
     (if \<not> isPreconditionFailed bk err then Some (Wrap ''writing to GCS'' err)
      else case bk_attrs bk b obj of
             Inl aerr \<Rightarrow> Some (Wrap ''archive already holds the file but its attributes could not be read'' aerr)
           | Inr (osz, c) \<Rightarrow> if osz = sz \<and> c = crc then None else Some (Wrap ''archive already holds a different file'' ErrRevisionConflict))"

definition Upload :: "'b Bucket \<Rightarrow> string \<Rightarrow> 'b \<Rightarrow> directory \<Rightarrow> string \<Rightarrow> string \<Rightarrow> error option \<times> 'b" where
  "Upload bk pre b d name path =
     (case map_of d path of
        None \<Rightarrow> (Some (Errorf ''no such file or directory''), b)
      | Some data \<Rightarrow>
          let crc = crc32 data; obj = pre @ name
          in case bk_create bk b obj data crc of
               (None, b') \<Rightarrow> (None, b')
             | (Some err, b') \<Rightarrow> (explainWriteError bk b' obj crc (length data) err, b'))"

definition Delete :: "'b Bucket \<Rightarrow> string \<Rightarrow> 'b \<Rightarrow> string \<Rightarrow> error option \<times> 'b" where
  "Delete bk pre b name =
     (case bk_delete bk b (pre @ name) of
        (None, b') \<Rightarrow> (None, b')
      | (Some err, b') \<Rightarrow> (if bk_notExist bk err then None else Some (Wrap ''deleting from GCS'' err), b'))"

definition Download :: "'b Bucket \<Rightarrow> string \<Rightarrow> 'b \<Rightarrow> directory \<Rightarrow> string \<Rightarrow> string \<Rightarrow> error option \<times> directory" where
  "Download bk pre b d name path =
     (case bk_read bk b (pre @ name) of
        Inl err \<Rightarrow> (Some (Wrap ''reading from GCS'' err), d)
      | Inr data \<Rightarrow>
          if map_of d path \<noteq> None then (Some (Errorf ''file exists''), d)
          else (None, AList.update path data d))"

definition gcs_archive :: "'b Bucket \<Rightarrow> string \<Rightarrow> 'b Archive" where
  "gcs_archive bk p =
     (let pre = archive_prefix p
      in \<lparr> ar_List = List bk pre, ar_Upload = Upload bk pre, ar_Download = Download bk pre, ar_Delete = Delete bk pre \<rparr>)"

end
