(* ===== verification/Bptree.thy ===== *)
theory Bptree
  imports Prelude
begin

text \<open>
  The in-memory key index of \<^verbatim>\<open>src/pkg/bptree/bptree.go\<close>: for every key the revisions at which it was
  written, ordered by key.  The index is a radix tree: a node is a list of entries sorted by the first
  byte of their prefix, no two entries of a node share a first byte, and an entry carries the
  revisions of the key that ends at it and a child node for the keys that continue past it.

  The model keeps the tree.  A Go slice of revisions is a list, with \<^verbatim>\<open>nil\<close> as the empty list (no
  operation of the package builds an empty slice that is not \<^verbatim>\<open>nil\<close>), and a child pointer is an
  option.  The callback of the range scan is a function on a caller-chosen state that also says
  whether to go on.  The locks are not modelled: every operation holds the tree's lock throughout.

  The lemmas show that the tree implements a finite map from keys to revision lists: \<^verbatim>\<open>node_pairs\<close> is
  the in-order list of the map's entries, and each operation is described on it.
\<close>

subsection \<open>The tree\<close>

datatype nodeEntry = NodeEntry
  (e_prefix: bytes) (e_revisions: "revision list") (e_child: "nodeEntry list option") (e_tombstone: bool)

type_synonym node = "nodeEntry list"

record BPTree =
  bt_root :: node
  bt_emptyKey :: nodeEntry
  bt_keys :: int

definition empty_BPTree :: BPTree where
  "empty_BPTree = \<lparr>bt_root = [], bt_emptyKey = NodeEntry [] [] None False, bt_keys = 0\<rparr>"

definition Len :: "BPTree \<Rightarrow> int" where
  "Len t = bt_keys t"

text \<open>\<^verbatim>\<open>n.entries[i].prefix[0] == b\<close> is written so that an empty prefix (whose index panics) has no first byte.\<close>

definition find :: "node \<Rightarrow> byte \<Rightarrow> nat \<times> bool" where
  "find n b =
     (let i = go_search (length n) (\<lambda>i. b \<le> hd (e_prefix (n ! i)))
      in (i, i < length n \<and> take 1 (e_prefix (n ! i)) = [b]))"

fun commonPrefixLen :: "bytes \<Rightarrow> bytes \<Rightarrow> nat" where
  "commonPrefixLen (x # a) (y # b) = (if x \<noteq> y then 0 else Suc (commonPrefixLen a b))"
| "commonPrefixLen _ _ = 0"

lemma find_found_prefix: "find n b = (i, True) \<Longrightarrow> i < length n \<and> (\<exists>p. e_prefix (n ! i) = b # p)"
  by (cases "e_prefix (n ! i)") (auto simp: find_def Let_def)

lemma commonPrefixLen_found [simp]: "commonPrefixLen (b # p) (b # q) = Suc (commonPrefixLen p q)"
  by simp

text \<open>
  \<^verbatim>\<open>node.addRevision\<close>: the updated node and whether the key is new.  The first equation is never
  used: \<^verbatim>\<open>AddRevision\<close> handles the empty key itself, and the two recursive calls pass a proper
  remainder of the key (the source indexes \<^verbatim>\<open>key[0]\<close> there).
\<close>

function (sequential) node_addRevision :: "node \<Rightarrow> bytes \<Rightarrow> revision \<Rightarrow> bool \<Rightarrow> node \<times> bool" where
  "node_addRevision n [] r tb = (n, False)"
| "node_addRevision n (b # bs) r tb =
     (case find n b of (pos, found) \<Rightarrow>
        if \<not> found
        then (take pos n @ NodeEntry (b # bs) [r] None tb # drop pos n, True)
        else let e = n ! pos; common = commonPrefixLen (e_prefix e) (b # bs)
          in if common = length (e_prefix e)
             then if common = length (b # bs)
                  then (n[pos := NodeEntry (e_prefix e) (e_revisions e @ [r]) (e_child e) tb],
                        e_revisions e = [])
                  else let c = (case e_child e of None \<Rightarrow> [] | Some c \<Rightarrow> c);
                           (c', isNew) = node_addRevision c (drop common (b # bs)) r tb
                       in (n[pos := NodeEntry (e_prefix e) (e_revisions e) (Some c') (e_tombstone e)], isNew)
             else let child = [NodeEntry (drop common (e_prefix e)) (e_revisions e) (e_child e) (e_tombstone e)]
                  in if common = length (b # bs)
                     then (n[pos := NodeEntry (take common (e_prefix e)) [r] (Some child) tb], True)
                     else let (child', isNew) = node_addRevision child (drop common (b # bs)) r tb
                          in (n[pos := NodeEntry (take common (e_prefix e)) [] (Some child') False], isNew))"
  by pat_completeness auto
termination
  by (relation "measure (\<lambda>(n, key, r, tb). length key)") (auto dest!: find_found_prefix[OF sym])

definition AddRevision :: "BPTree \<Rightarrow> key \<Rightarrow> revision \<Rightarrow> bool \<Rightarrow> BPTree" where
  "AddRevision t key r tb =
     (if key = []
      then let e = bt_emptyKey t
           in t\<lparr>bt_keys := (if e_revisions e = [] then bt_keys t + 1 else bt_keys t),
                bt_emptyKey := NodeEntry (e_prefix e) (e_revisions e @ [r]) (e_child e) tb\<rparr>
      else let (n, isNew) = node_addRevision (bt_root t) key r tb
           in t\<lparr>bt_root := n, bt_keys := (if isNew then bt_keys t + 1 else bt_keys t)\<rparr>)"

text \<open>\<^verbatim>\<open>compactRevisions\<close>: the revisions kept, how many were dropped, and whether the key is gone.\<close>

definition compactRevisions :: "revision list \<Rightarrow> bool \<Rightarrow> revision \<Rightarrow> revision list \<times> nat \<times> bool" where
  "compactRevisions revs tb through =
     (let latest = revs ! (length revs - 1)
      in if tb \<and> latest \<le> through then ([], length revs, True)
         else let i = go_search (length revs) (\<lambda>i. through < revs ! i);
                  i' = (if i > 0 then i - 1 else i)
              in if i' = 0 then (revs, 0, False) else (drop i' revs, i', False))"

definition entry_compact :: "nodeEntry \<Rightarrow> revision \<Rightarrow> nodeEntry \<times> nat \<times> bool" where
  "entry_compact e through =
     (if e_revisions e = [] then (e, 0, False)
      else case compactRevisions (e_revisions e) (e_tombstone e) through of (kept, dropped, gone) \<Rightarrow>
        if gone then (NodeEntry (e_prefix e) [] (e_child e) False, dropped, True)
        else (NodeEntry (e_prefix e) kept (e_child e) (e_tombstone e), dropped, False))"

text \<open>\<^verbatim>\<open>node.compact\<close>: the updated node, the keys removed and the revisions dropped.\<close>

fun node_compact :: "revision \<Rightarrow> node \<Rightarrow> node \<times> nat \<times> nat" where
  "node_compact through [] = ([], 0, 0)"
| "node_compact through (NodeEntry p rs c tb # es) =
     (case entry_compact (NodeEntry p rs c tb) through of (e, dropped, gone) \<Rightarrow>
      case (case c of None \<Rightarrow> (None, 0, 0)
            | Some n \<Rightarrow> (case node_compact through n of (n', k, d) \<Rightarrow> (Some n', k, d))) of (c', k, d) \<Rightarrow>
      case node_compact through es of (es', ks, ds) \<Rightarrow>
        (NodeEntry (e_prefix e) (e_revisions e) c' (e_tombstone e) # es',
         (if gone then 1 else 0) + k + ks, dropped + d + ds))"

definition Compact :: "BPTree \<Rightarrow> revision \<Rightarrow> BPTree \<times> nat \<times> nat" where
  "Compact t through =
     (case entry_compact (bt_emptyKey t) through of (e, dropped, gone) \<Rightarrow>
      case node_compact through (bt_root t) of (n, k, d) \<Rightarrow>
        let keysRemoved = (if gone then 1 else 0) + k; revisionsDropped = dropped + d
        in (t\<lparr>bt_emptyKey := e, bt_root := n, bt_keys := bt_keys t - int keysRemoved\<rparr>,
            keysRemoved, revisionsDropped))"

text \<open>\<^verbatim>\<open>node.lookup\<close>; as above the first equation is never used.\<close>

function (sequential) node_lookup :: "node \<Rightarrow> bytes \<Rightarrow> revision list" where
  "node_lookup n [] = []"
| "node_lookup n (b # bs) =
     (case find n b of (pos, found) \<Rightarrow>
        if \<not> found then []
        else let e = n ! pos
             in if \<not> prefix (e_prefix e) (b # bs) then []
                else if length (b # bs) = length (e_prefix e) then e_revisions e
                else case e_child e of None \<Rightarrow> []
                     | Some c \<Rightarrow> node_lookup c (drop (length (e_prefix e)) (b # bs)))"
  by pat_completeness auto
termination
  by (relation "measure (\<lambda>(n, key). length key)") (auto dest!: find_found_prefix[OF sym])

text \<open>The backwards scan of \<^verbatim>\<open>GetLatestRevisionByKey\<close>; \<^verbatim>\<open>None\<close> is the result \<^verbatim>\<open>(0, false)\<close>.\<close>

definition scan_back :: "revision list \<Rightarrow> revision \<Rightarrow> revision option" where
  "scan_back revs at = List.find (\<lambda>r. r \<le> at) (rev revs)"

definition GetLatestRevisionByKey :: "BPTree \<Rightarrow> key \<Rightarrow> revision \<Rightarrow> revision option" where
  "GetLatestRevisionByKey t key at =
     scan_back (if key = [] then e_revisions (bt_emptyKey t) else node_lookup (bt_root t) key) at"

text \<open>
  \<^verbatim>\<open>node.list\<close>: the loop over the entries from the first one not below the start.  The callback
  returns its state and whether to continue; so does the scan.
\<close>

type_synonym 's callback = "key \<Rightarrow> revision list \<Rightarrow> 's \<Rightarrow> 's \<times> bool"

definition list_from :: "node \<Rightarrow> bytes \<Rightarrow> node" where
  "list_from n start = (if start \<noteq> [] then drop (fst (find n (hd start))) n else n)"

lemma size_list_from [termination_simp]: "size_list size (list_from n start) \<le> size_list size n"
proof -
  have "size_list size (drop k n) \<le> size_list size n" for k
    by (induction n arbitrary: k) (auto simp: drop_Cons' intro: le_SucI trans_le_add2)
  then show ?thesis by (simp add: list_from_def)
qed

function (sequential) entries_list :: "node \<Rightarrow> key \<Rightarrow> bytes \<Rightarrow> 's callback \<Rightarrow> 's \<Rightarrow> 's \<times> bool" where
  "entries_list [] path start cb s = (s, True)"
| "entries_list (NodeEntry p rs c tb # es) path start cb s =
     (let m = min (length p) (length start)
      in if start \<noteq> [] \<and> take m p < take m start
         then entries_list es path start cb s
         else let below = (start \<noteq> [] \<and> take m p = take m start \<and> length p < length start);
                  childStart = (if below then drop (length p) start else []);
                  (s1, go1) = (if \<not> below \<and> rs \<noteq> [] then cb (path @ p) rs s else (s, True))
              in if \<not> go1 then (s1, False)
                 else case (case c of None \<Rightarrow> (s1, True)
                            | Some n \<Rightarrow> entries_list (list_from n childStart) (path @ p) childStart cb s1) of
                   (s2, go2) \<Rightarrow> if \<not> go2 then (s2, False) else entries_list es path [] cb s2)"
  by pat_completeness auto
termination
  by (relation "measure (\<lambda>(n, path, start, cb, s). size_list size n)")
     (auto intro!: le_less_trans[OF size_list_from])

definition node_list :: "node \<Rightarrow> key \<Rightarrow> bytes \<Rightarrow> 's callback \<Rightarrow> 's \<Rightarrow> 's \<times> bool" where
  "node_list n path start cb s = entries_list (list_from n start) path start cb s"

definition ListRevisionsByKeyRange :: "BPTree \<Rightarrow> key \<Rightarrow> revision \<Rightarrow> 's callback \<Rightarrow> 's \<Rightarrow> 's" where
  "ListRevisionsByKeyRange t startKey at cb s =
     (let revs = e_revisions (bt_emptyKey t);
          (s1, go) = (if startKey = [] \<and> revs \<noteq> [] then cb [] revs s else (s, True))
      in if \<not> go then s1 else fst (node_list (bt_root t) [] startKey cb s1))"


subsection \<open>Well-formed nodes and the map they represent\<close>

fun wf_entries :: "node \<Rightarrow> bool" where
  "wf_entries [] = True"
| "wf_entries (NodeEntry p rs c tb # es) =
     (p \<noteq> [] \<and> (\<forall>e \<in> set es. hd p < hd (e_prefix e))
      \<and> (case c of None \<Rightarrow> True | Some n \<Rightarrow> wf_entries n) \<and> wf_entries es)"

fun node_pairs :: "node \<Rightarrow> (key \<times> revision list \<times> bool) list" where
  "node_pairs [] = []"
| "node_pairs (NodeEntry p rs c tb # es) =
     (if rs = [] then [] else [(p, rs, tb)])
     @ (case c of None \<Rightarrow> [] | Some n \<Rightarrow> map (\<lambda>(k, v). (p @ k, v)) (node_pairs n))
     @ node_pairs es"

abbreviation first_byte :: "nodeEntry \<Rightarrow> byte" where "first_byte e \<equiv> hd (e_prefix e)"

lemma wf_entries_append:
  "wf_entries (xs @ ys) \<longleftrightarrow> wf_entries xs \<and> wf_entries ys \<and> (\<forall>x \<in> set xs. \<forall>y \<in> set ys. first_byte x < first_byte y)"
  by (induction xs rule: wf_entries.induct) auto

lemma node_pairs_append [simp]: "node_pairs (xs @ ys) = node_pairs xs @ node_pairs ys"
  by (induction xs rule: wf_entries.induct) auto

lemma wf_entries_prefix: "wf_entries n \<Longrightarrow> e \<in> set n \<Longrightarrow> e_prefix e \<noteq> []"
  by (induction n rule: wf_entries.induct) auto

lemma wf_entries_sorted: "wf_entries n \<Longrightarrow> sorted_wrt (<) (map first_byte n)"
  by (induction n rule: wf_entries.induct) auto

lemma node_pairs_first:
  assumes "wf_entries n" and "(k, v) \<in> set (node_pairs n)"
  shows "k \<noteq> [] \<and> (\<exists>e \<in> set n. first_byte e = hd k)"
  using assms by (induction n rule: wf_entries.induct) (auto split: if_splits option.splits)

lemma node_pairs_revs: "(k, rs, tb) \<in> set (node_pairs n) \<Longrightarrow> rs \<noteq> []"
  by (induction n arbitrary: k rule: wf_entries.induct) (auto split: if_splits option.splits)

lemma find_takeWhile:
  assumes "wf_entries n"
  shows "fst (find n b) = length (takeWhile (\<lambda>e. first_byte e < b) n)"
proof -
  have s: "sorted (map first_byte n)" using wf_entries_sorted[OF assms] by (simp add: strict_sorted_imp_sorted)
  have "first_byte (n ! i) \<le> first_byte (n ! j)" if "i \<le> j" "j < length n" for i j
    using sorted_nth_mono[OF s, of i j] that by simp
  then have "\<forall>i j. i \<le> j \<and> j < length n \<and> b \<le> first_byte (n ! i) \<longrightarrow> b \<le> first_byte (n ! j)"
    by (blast intro: order_trans)
  then show ?thesis
    using go_search_takeWhile[of n "\<lambda>e. b \<le> first_byte e"] by (simp add: find_def Let_def not_le)
qed

lemma find_cases:
  assumes "wf_entries n"
  obtains (absent) pre post where "find n b = (length pre, False)" "n = pre @ post"
      "\<forall>e \<in> set pre. first_byte e < b" "\<forall>e \<in> set post. b < first_byte e"
    | (present) pre p rs c tb post where "find n b = (length pre, True)"
      "n = pre @ NodeEntry (b # p) rs c tb # post"
      "\<forall>e \<in> set pre. first_byte e < b" "\<forall>e \<in> set post. b < first_byte e"
proof -
  define pre where "pre = takeWhile (\<lambda>e. first_byte e < b) n"
  define post where "post = dropWhile (\<lambda>e. first_byte e < b) n"
  have n: "n = pre @ post" by (simp add: pre_def post_def)
  have pre: "\<forall>e \<in> set pre. first_byte e < b" by (auto simp: pre_def dest: set_takeWhileD)
  have fst: "fst (find n b) = length pre" using find_takeWhile[OF assms] by (simp add: pre_def)
  show ?thesis
  proof (cases post)
    case Nil
    then have "find n b = (length pre, False)" using fst n by (auto simp: find_def Let_def)
    then show ?thesis using absent[of pre post] n pre Nil by simp
  next
    case (Cons e es)
    obtain q rs c tb where e: "e = NodeEntry q rs c tb" by (cases e)
    have ge: "b \<le> hd q" using Cons e hd_dropWhile[of "\<lambda>e. first_byte e < b" n] by (auto simp: post_def)
    have wf: "wf_entries post" using assms n by (simp add: wf_entries_append)
    then have gt: "q \<noteq> []" "\<forall>x \<in> set es. hd q < first_byte x" using Cons e by auto
    have at: "n ! length pre = e" using n Cons by simp
    have snd: "snd (find n b) \<longleftrightarrow> hd q = b"
      using fst gt at n Cons e by (cases q) (auto simp: find_def Let_def)
    show ?thesis
    proof (cases "hd q = b")
      case True
      then have "q = b # tl q" using gt by (cases q) auto
      then show ?thesis using present[of pre "tl q" rs c tb es] n Cons e pre gt True fst snd
        by (metis prod.collapse)
    next
      case False
      then have "\<forall>x \<in> set post. b < first_byte x" using ge gt Cons e by auto
      then show ?thesis using absent[of pre post] n pre fst snd False by (metis prod.collapse)
    qed
  qed
qed

definition node_map :: "node \<Rightarrow> key \<rightharpoonup> revision list \<times> bool" where
  "node_map n = map_of (node_pairs n)"

definition revs_of :: "(key \<rightharpoonup> revision list \<times> bool) \<Rightarrow> key \<Rightarrow> revision list" where
  "revs_of m k = (case m k of None \<Rightarrow> [] | Some (rs, tb) \<Rightarrow> rs)"

lemma node_map_append: "node_map (xs @ ys) = node_map ys ++ node_map xs"
  by (simp add: node_map_def)

lemma node_map_Cons: "node_map (e # es) = node_map es ++ node_map [e]"
  using node_map_append[of "[e]" es] by simp

lemma node_map_Nil [simp]: "node_map [] k = None"
  by (simp add: node_map_def)

lemma node_map_None:
  "wf_entries n \<Longrightarrow> \<forall>e \<in> set n. first_byte e \<noteq> hd k \<Longrightarrow> node_map n k = None"
  using node_pairs_first[of n k] by (auto simp: node_map_def map_of_eq_None_iff)

lemma node_map_empty_key [simp]: "wf_entries n \<Longrightarrow> node_map n [] = None"
  using node_pairs_first[of n "[]"] by (fastforce simp: node_map_def map_of_eq_None_iff)

lemma node_map_focus:
  assumes "wf_entries (pre @ e # post)" and "first_byte e = hd k"
  shows "node_map (pre @ e # post) k = node_map [e] k"
proof -
  have "node_map pre k = None" and "node_map post k = None"
    using assms by (cases e; force simp: wf_entries_append intro!: node_map_None split: option.splits)+
  then show ?thesis by (simp add: node_map_append node_map_Cons[of e post] map_add_def split: option.splits)
qed

lemma node_map_other:
  assumes "wf_entries [e]" and "first_byte e \<noteq> hd k"
  shows "node_map (pre @ e # post) k = node_map (pre @ post) k"
proof -
  have "node_map [e] k = None" using assms by (intro node_map_None) auto
  then show ?thesis by (simp add: node_map_append node_map_Cons[of e post] map_add_def split: option.splits)
qed

lemma map_of_prefixed: "map_of (map (\<lambda>(k, v). (p @ k, v)) xs) (p @ q) = map_of xs q"
  by (induction xs) auto

lemma map_of_prefixed_None: "\<not> prefix p k \<Longrightarrow> map_of (map (\<lambda>(k, v). (p @ k, v)) xs) k = None"
  by (auto simp: map_of_eq_None_iff)

lemma node_map_entry:
  assumes "wf_entries [NodeEntry p rs c tb]"
  shows "node_map [NodeEntry p rs c tb] k =
    (if k = p then (if rs = [] then None else Some (rs, tb))
     else if prefix p k then (case c of None \<Rightarrow> None | Some n \<Rightarrow> node_map n (drop (length p) k))
     else None)"
proof (cases "prefix p k")
  case True
  then obtain q where k: "k = p @ q" by (auto simp: prefix_def)
  show ?thesis using assms node_map_empty_key
    by (auto simp: k node_map_def map_of_prefixed map_of_prefixed[where q = "[]", simplified] split: option.splits)
next
  case False
  then show ?thesis by (auto simp: node_map_def map_of_prefixed_None split: option.splits)
qed

lemma wf_entries_update:
  assumes "wf_entries (pre @ e # post)" and "wf_entries [e']" and "first_byte e' = first_byte e"
  shows "wf_entries (pre @ e' # post)"
  using assms by (cases e; cases e') (auto simp: wf_entries_append)

lemma wf_entries_middle: "wf_entries (pre @ e # post) \<Longrightarrow> wf_entries [e]"
  by (cases e) (auto simp: wf_entries_append)

lemma node_map_update:
  assumes "wf_entries (pre @ e # post)" and "wf_entries [e']" and "first_byte e' = first_byte e"
    and "hd k = first_byte e" and "node_map [e'] = (node_map [e])(k \<mapsto> v)"
  shows "node_map (pre @ e' # post) = (node_map (pre @ e # post))(k \<mapsto> v)"
proof
  fix k'
  show "node_map (pre @ e' # post) k' = ((node_map (pre @ e # post))(k \<mapsto> v)) k'"
  proof (cases "hd k' = first_byte e")
    case True
    then show ?thesis
      using node_map_focus[OF wf_entries_update[OF assms(1-3)], of k'] node_map_focus[OF assms(1), of k'] assms(3,5)
      by simp
  next
    case False
    then have "k' \<noteq> k" using assms(4) by auto
    then show ?thesis
      using False node_map_other[OF assms(2)] node_map_other[OF wf_entries_middle[OF assms(1)]] assms(3) by simp
  qed
qed

lemma node_lookup_correct:
  "wf_entries n \<Longrightarrow> key \<noteq> [] \<Longrightarrow> node_lookup n key = revs_of (node_map n) key"
proof (induction n key rule: node_lookup.induct)
  case (2 n b bs)
  show ?case using "2.prems"(1)
  proof (cases rule: find_cases[where b = b])
    case absent
    then have "node_map n (b # bs) = None"
      by (intro node_map_None[OF "2.prems"(1)]) auto
    then show ?thesis using absent(1) by (simp add: revs_of_def)
  next
    case (present pre p rs c tb post)
    let ?e = "NodeEntry (b # p) rs c tb"
    have e: "n ! length pre = ?e" using present by simp
    have wf: "wf_entries [?e]" using wf_entries_middle[of pre ?e post] "2.prems"(1) present(2) by simp
    have m: "node_map n (b # bs) = node_map [?e] (b # bs)"
      using node_map_focus[of pre ?e post "b # bs"] present(2) "2.prems"(1) by simp
    have ih: "node_lookup c' (drop (length p) bs) = revs_of (node_map c') (drop (length p) bs)"
      if "prefix p bs" "length bs \<noteq> length p" "c = Some c'" for c'
      using "2.IH"[OF present(1)[symmetric], of ?e c'] e that wf
      by (auto simp: prefix_def)
    have "length bs = length p \<longleftrightarrow> bs = p" if "prefix p bs" using that by (auto simp: prefix_def)
    then show ?thesis
      using present(1) e ih by (auto simp: m node_map_entry[OF wf] revs_of_def split: option.splits)
  qed
qed simp

text \<open>What a single step of \<^verbatim>\<open>node_addRevision\<close> promises.\<close>

definition add_ok :: "node \<Rightarrow> key \<Rightarrow> revision \<Rightarrow> bool \<Rightarrow> node \<times> bool \<Rightarrow> bool" where
  "add_ok n key r tb res \<longleftrightarrow> wf_entries (fst res)
     \<and> node_map (fst res) = (node_map n)(key \<mapsto> (revs_of (node_map n) key @ [r], tb))
     \<and> (snd res \<longleftrightarrow> node_map n key = None)
     \<and> length (node_pairs (fst res)) = length (node_pairs n) + of_bool (snd res)"

lemma commonPrefixLen_take: "take (commonPrefixLen a b) a = take (commonPrefixLen a b) b"
  by (induction a b rule: commonPrefixLen.induct) auto

lemma commonPrefixLen_le: "commonPrefixLen a b \<le> length a" "commonPrefixLen a b \<le> length b"
  by (induction a b rule: commonPrefixLen.induct) auto

lemma commonPrefixLen_differ:
  "commonPrefixLen a b < length a \<Longrightarrow> commonPrefixLen a b < length b \<Longrightarrow>
    hd (drop (commonPrefixLen a b) a) \<noteq> hd (drop (commonPrefixLen a b) b)"
  by (induction a b rule: commonPrefixLen.induct) auto

lemma commonPrefixLen_prefix: "commonPrefixLen a b = length a \<longleftrightarrow> prefix a b"
  by (induction a b rule: commonPrefixLen.induct) auto

lemma add_ok_lift:
  assumes "wf_entries (pre @ e # post)" and "first_byte e' = first_byte e" and "hd k = first_byte e"
    and "add_ok [e] k r tb ([e'], isNew)"
  shows "add_ok (pre @ e # post) k r tb (pre @ e' # post, isNew)"
proof -
  have e': "wf_entries [e']" using assms(4) by (simp add: add_ok_def)
  have focus: "node_map (pre @ e # post) k = node_map [e] k"
    using node_map_focus[OF assms(1)] assms(3) by simp
  have len: "length (node_pairs (pre @ x # post)) = length (node_pairs pre) + length (node_pairs [x]) + length (node_pairs post)" for x
    using node_pairs_append[of "[x]" post] by simp
  have revs: "revs_of (node_map (pre @ e # post)) k = revs_of (node_map [e]) k"
    unfolding revs_of_def focus ..
  show ?thesis
    using wf_entries_update[OF assms(1) e' assms(2)] node_map_update[OF assms(1) e' assms(2,3)]
      assms(4) len[of e] len[of e']
    unfolding add_ok_def fst_conv snd_conv revs focus by simp
qed

lemma add_ok_end:
  assumes "wf_entries [NodeEntry p rs c tb']"
  shows "add_ok [NodeEntry p rs c tb'] p r tb ([NodeEntry p (rs @ [r]) c tb], rs = [])"
proof -
  have wf: "wf_entries [NodeEntry p (rs @ [r]) c tb]" using assms by simp
  show ?thesis
    using wf by (auto simp: add_ok_def node_map_entry revs_of_def fun_eq_iff)
qed

lemma add_ok_child:
  assumes "wf_entries [NodeEntry p rs c tb']" and "k \<noteq> []"
    and "add_ok (case c of None \<Rightarrow> [] | Some n \<Rightarrow> n) k r tb (c', isNew)"
  shows "add_ok [NodeEntry p rs c tb'] (p @ k) r tb ([NodeEntry p rs (Some c') tb'], isNew)"
proof -
  have wf: "wf_entries [NodeEntry p rs (Some c') tb']" using assms by (simp add: add_ok_def)
  have eq: "prefix p k' \<and> k' \<noteq> p \<Longrightarrow> (k' = p @ k) = (drop (length p) k' = k)" for k'
    by (auto simp: prefix_def)
  have "node_map [NodeEntry p rs (Some c') tb'] k' = ((node_map [NodeEntry p rs c tb'])
      (p @ k \<mapsto> (revs_of (node_map [NodeEntry p rs c tb']) (p @ k) @ [r], tb))) k'" for k'
    using assms(2,3) eq[of k']
    by (auto simp: add_ok_def node_map_entry[OF wf] node_map_entry[OF assms(1)] revs_of_def split: option.splits)
  then show ?thesis
    using wf assms(2,3)
    by (auto simp: add_ok_def node_map_entry[OF assms(1)] split: option.splits)
qed

lemma add_ok_insert:
  assumes "wf_entries (pre @ post)" and "\<forall>e \<in> set pre. first_byte e < b" and "\<forall>e \<in> set post. b < first_byte e"
  shows "add_ok (pre @ post) (b # bs) r tb (pre @ NodeEntry (b # bs) [r] None tb # post, True)"
proof -
  let ?e = "NodeEntry (b # bs) [r] None tb"
  have wf: "wf_entries (pre @ ?e # post)" using assms by (auto simp: wf_entries_append)
  have none: "node_map (pre @ post) (b # bs) = None"
    by (rule node_map_None[OF assms(1)]) (use assms(2,3) in auto)
  have "node_map (pre @ ?e # post) k = ((node_map (pre @ post))(b # bs \<mapsto> ([r], tb))) k" for k
  proof (cases "hd k = b")
    case True
    then have "node_map (pre @ post) k = None"
      by (intro node_map_None[OF assms(1)]) (use assms(2,3) in auto)
    then show ?thesis using node_map_focus[OF wf, of k] True by (auto simp: node_map_entry)
  next
    case False
    then show ?thesis using node_map_other[of ?e k pre post] by auto
  qed
  then show ?thesis using wf none by (auto simp: add_ok_def revs_of_def)
qed

text \<open>Splitting an entry at a proper, non-empty prefix of its own prefix changes no key.\<close>

lemma node_map_split:
  assumes "wf_entries [NodeEntry (p @ q) rs c tb]" and "p \<noteq> []" and "q \<noteq> []"
  shows "node_map [NodeEntry (p @ q) rs c tb] = node_map [NodeEntry p [] (Some [NodeEntry q rs c tb]) False]"
    and "length (node_pairs [NodeEntry (p @ q) rs c tb]) = length (node_pairs [NodeEntry p [] (Some [NodeEntry q rs c tb]) False])"
    and "wf_entries [NodeEntry p [] (Some [NodeEntry q rs c tb]) False]"
proof -
  show wf: "wf_entries [NodeEntry p [] (Some [NodeEntry q rs c tb]) False]" using assms by simp
  have wfq: "wf_entries [NodeEntry q rs c tb]" using assms by simp
  show "node_map [NodeEntry (p @ q) rs c tb] = node_map [NodeEntry p [] (Some [NodeEntry q rs c tb]) False]"
  proof
    fix k
    show "node_map [NodeEntry (p @ q) rs c tb] k = node_map [NodeEntry p [] (Some [NodeEntry q rs c tb]) False] k"
      using assms(3)
      by (auto simp: node_map_entry[OF assms(1)] node_map_entry[OF wf] node_map_entry[OF wfq] prefix_def split: option.splits)
  qed
  show "length (node_pairs [NodeEntry (p @ q) rs c tb]) = length (node_pairs [NodeEntry p [] (Some [NodeEntry q rs c tb]) False])"
    by (simp split: option.splits)
qed

lemma add_ok_split_child:
  assumes "wf_entries [NodeEntry (p @ q) rs c tb']" and "p \<noteq> []" and "q \<noteq> []"
    and "add_ok [NodeEntry q rs c tb'] k r tb (n, isNew)" and "k \<noteq> []"
  shows "add_ok [NodeEntry (p @ q) rs c tb'] (p @ k) r tb ([NodeEntry p [] (Some n) False], isNew)"
  using add_ok_child[OF node_map_split(3)[OF assms(1-3)] assms(5), of r tb n isNew] assms(4)
  unfolding add_ok_def by (simp only: node_map_split(1,2)[OF assms(1-3)] option.case)

lemma add_ok_split_end:
  assumes "wf_entries [NodeEntry (p @ q) rs c tb']" and "p \<noteq> []" and "q \<noteq> []"
  shows "add_ok [NodeEntry (p @ q) rs c tb'] p r tb ([NodeEntry p [r] (Some [NodeEntry q rs c tb']) tb], True)"
  using add_ok_end[OF node_map_split(3)[OF assms], of r tb]
  unfolding add_ok_def by (simp only: node_map_split(1,2)[OF assms] append_Nil) simp

lemma node_addRevision_ok:
  "wf_entries n \<Longrightarrow> key \<noteq> [] \<Longrightarrow> add_ok n key r tb (node_addRevision n key r tb)"
proof (induction n key r tb rule: node_addRevision.induct)
  case (2 n b bs r tb)
  show ?case using "2.prems"(1)
  proof (cases rule: find_cases[where b = b])
    case (absent pre post)
    then show ?thesis using add_ok_insert[of pre post b bs r tb] "2.prems"(1) by simp
  next
    case (present pre p rs c tb' post)
    let ?e = "NodeEntry (b # p) rs c tb'" and ?key = "b # bs"
    have e: "n ! length pre = ?e" using present by simp
    have wf: "wf_entries [?e]" using wf_entries_middle[of pre ?e post] "2.prems"(1) present(2) by simp
    have lift: "add_ok n ?key r tb (n[length pre := e'], isNew)"
      if "add_ok [?e] ?key r tb ([e'], isNew)" "first_byte e' = b" for e' isNew
      using add_ok_lift[of pre ?e post e' ?key r tb isNew] that "2.prems"(1) present(2) by simp
    define m where "m = commonPrefixLen p bs"
    have common: "commonPrefixLen (b # p) ?key = Suc m" by (simp add: m_def)
    have m: "m \<le> length p" "m \<le> length bs" by (simp_all add: m_def commonPrefixLen_le)
    have tk: "take m p = take m bs" by (simp add: m_def commonPrefixLen_take)
    have key: "?key = take (Suc m) (b # p) @ drop m bs" by (simp add: tk)
    consider (exact) "m = length p" "m = length bs" | (down) "m = length p" "m < length bs"
      | (split_end) "m < length p" "m = length bs" | (split_two) "m < length p" "m < length bs"
      using m by linarith
    then show ?thesis
    proof cases
      case exact
      then have "bs = p" using tk by simp
      then show ?thesis
        using lift[of "NodeEntry (b # p) (rs @ [r]) c tb" "rs = []"] add_ok_end[OF wf, of r tb] present(1) e common exact
        by simp
    next
      case down
      obtain c' isNew where rec: "node_addRevision (case c of None \<Rightarrow> [] | Some c \<Rightarrow> c) (drop m bs) r tb = (c', isNew)"
        by (metis surj_pair)
      have "add_ok (case c of None \<Rightarrow> [] | Some c \<Rightarrow> c) (drop m bs) r tb (c', isNew)"
        using "2.IH"(1)[OF present(1)[symmetric], of ?e "Suc m" "case c of None \<Rightarrow> [] | Some c \<Rightarrow> c"] wf e common down rec
        by (auto split: option.splits)
      then have "add_ok [?e] ?key r tb ([NodeEntry (b # p) rs (Some c') tb'], isNew)"
        using add_ok_child[OF wf, of "drop m bs"] down key by simp
      then show ?thesis using lift present(1) e common down rec by (simp add: Let_def)
    next
      case split_end
      have "add_ok [?e] (b # take m p) r tb ([NodeEntry (b # take m p) [r] (Some [NodeEntry (drop m p) rs c tb']) tb], True)"
        using add_ok_split_end[of "b # take m p" "drop m p" rs c tb' r tb] wf split_end by simp
      moreover have "?key = b # take m p" using key split_end by simp
      ultimately show ?thesis using lift present(1) e common split_end by (simp add: Let_def)
    next
      case split_two
      let ?child = "[NodeEntry (drop m p) rs c tb']"
      obtain n' isNew where rec: "node_addRevision ?child (drop m bs) r tb = (n', isNew)"
        by (metis surj_pair)
      have "add_ok ?child (drop m bs) r tb (n', isNew)"
        using "2.IH"(2)[OF present(1)[symmetric], of ?e "Suc m" ?child] wf e common split_two rec by simp
      then have "add_ok [?e] ?key r tb ([NodeEntry (b # take m p) [] (Some n') False], isNew)"
        using add_ok_split_child[of "b # take m p" "drop m p" rs c tb' "drop m bs" r tb n' isNew] wf split_two key by simp
      then show ?thesis using lift present(1) e common split_two rec by (simp add: Let_def)
    qed
  qed
qed simp

subsection \<open>Range scans\<close>

lemma node_pairs_above:
  assumes "wf_entries n" and "(k, v) \<in> set (node_pairs n)" and "\<forall>e \<in> set n. b < first_byte e" 
  shows "b # p < k"
proof -
  obtain e where "e \<in> set n" "first_byte e = hd k" "k \<noteq> []" using node_pairs_first[OF assms(1,2)] by blast
  then show ?thesis using assms(3) by (cases k) auto
qed

lemma node_pairs_sorted: "wf_entries n \<Longrightarrow> sorted_wrt (<) (map fst (node_pairs n))"
proof (induction n rule: wf_entries.induct)
  case (2 p rs c tb es)
  have own: "p < p @ k" if "(k, v) \<in> set (node_pairs n)" "c = Some n" for k v n
    using node_pairs_first[of n k v] that 2 less_append_self by auto
  obtain b q where p: "p = b # q" using 2 by (cases p) auto
  have later: "p @ a < k" if "(k, v) \<in> set (node_pairs es)" for k v a
    using node_pairs_above[of es k v b "q @ a"] 2 that p by simp
  have child: "sorted_wrt (<) (map fst (map (\<lambda>(k, v). (p @ k, v)) (node_pairs n)))" if "c = Some n" for n
    using 2 that by (simp add: sorted_wrt_map case_prod_beta o_def)
  show ?case using 2 own later[where a = "[]"] later child
    by (auto simp: sorted_wrt_append split: option.splits)
qed simp

fun visit :: "'s callback \<Rightarrow> (key \<times> revision list) list \<Rightarrow> 's \<Rightarrow> 's \<times> bool" where
  "visit cb [] s = (s, True)"
| "visit cb ((k, rs) # xs) s =
     (case cb k rs s of (s', go) \<Rightarrow> if \<not> go then (s', False) else visit cb xs s')"

lemma visit_append:
  "visit cb (xs @ ys) s = (case visit cb xs s of (s', go) \<Rightarrow> if \<not> go then (s', False) else visit cb ys s')"
  by (induction xs arbitrary: s) (auto split: prod.splits)

definition keys_from :: "key \<Rightarrow> bytes \<Rightarrow> node \<Rightarrow> (key \<times> revision list) list" where
  "keys_from path start n = map (\<lambda>x. (path @ fst x, fst (snd x))) (filter (\<lambda>x. start \<le> fst x) (node_pairs n))"

lemma keys_from_none: "\<forall>(k, v) \<in> set (node_pairs n). k < start \<Longrightarrow> keys_from path start n = []"
  by (auto simp: keys_from_def filter_empty_conv not_le)

lemma keys_from_all: "\<forall>(k, v) \<in> set (node_pairs n). start \<le> k \<Longrightarrow> keys_from path start n = keys_from path [] n"
  unfolding keys_from_def by (rule arg_cong[where f = "map _"], rule filter_cong) auto

lemma keys_from_append: "keys_from path start (xs @ ys) = keys_from path start xs @ keys_from path start ys"
  by (simp add: keys_from_def)

lemma keys_from_list_from:
  assumes "wf_entries n"
  shows "keys_from path start (list_from n start) = keys_from path start n"
proof (cases start)
  case Nil
  then show ?thesis by (simp add: list_from_def)
next
  case (Cons b bs)
  define pre where "pre = takeWhile (\<lambda>e. first_byte e < b) n"
  have n: "n = pre @ dropWhile (\<lambda>e. first_byte e < b) n" by (simp add: pre_def)
  have "list_from n start = dropWhile (\<lambda>e. first_byte e < b) n"
    using Cons find_takeWhile[OF assms, of b] by (simp add: list_from_def dropWhile_eq_drop)
  moreover have "keys_from path start pre = []"
  proof (rule keys_from_none, clarify)
    fix k rs tb assume k: "(k, rs, tb) \<in> set (node_pairs pre)"
    have wf: "wf_entries pre" using assms n wf_entries_append by metis
    obtain e where "e \<in> set pre" "first_byte e = hd k" "k \<noteq> []" using node_pairs_first[OF wf k] by blast
    then show "k < start" using Cons by (cases k) (auto simp: pre_def dest: set_takeWhileD)
  qed
  ultimately show ?thesis using n keys_from_append by (metis append_Nil)
qed

lemma wf_list_from: "wf_entries n \<Longrightarrow> wf_entries (list_from n start)"
  using wf_entries_append[of "take (fst (find n (hd start))) n" "drop (fst (find n (hd start))) n"]
  by (simp add: list_from_def)

lemma keys_from_Cons:
  "keys_from path start (NodeEntry p rs c tb # es) =
     (if rs \<noteq> [] \<and> start \<le> p then [(path @ p, rs)] else [])
     @ (case c of None \<Rightarrow> [] | Some n \<Rightarrow>
          map (\<lambda>x. (path @ p @ fst x, fst (snd x))) (filter (\<lambda>x. start \<le> p @ fst x) (node_pairs n)))
     @ keys_from path start es"
  by (auto simp: keys_from_def filter_map o_def case_prod_beta split: option.splits)

text \<open>One entry of the scan, given that its child and its later siblings are scanned correctly.\<close>

lemma entries_list_step:
  assumes wf: "wf_entries (NodeEntry p rs c tb # es)"
    and es: "\<And>start s. entries_list es path start cb s = visit cb (keys_from path start es) s"
    and child: "\<And>n start s. c = Some n \<Longrightarrow>
      entries_list (list_from n start) (path @ p) start cb s = visit cb (keys_from (path @ p) start n) s"
  shows "entries_list (NodeEntry p rs c tb # es) path start cb s =
    visit cb (keys_from path start (NodeEntry p rs c tb # es)) s"
proof -
  define m where "m = min (length p) (length start)"
  obtain b q where p: "p = b # q" using wf by (cases p) auto
  have above: "p @ a < k" if "(k, v) \<in> set (node_pairs es)" for k v a
    using node_pairs_above[of es k v b "q @ a"] wf that p by simp
  show ?thesis
  proof (cases "start \<noteq> [] \<and> take m p < take m start")
    case True
    then have lt: "p @ k < start" for k using take_min_less by (simp add: m_def)
    have "keys_from path start (NodeEntry p rs c tb # es) = keys_from path start es"
      using lt lt[of "[]"] by (auto simp: keys_from_Cons not_le[symmetric] filter_empty_conv split: option.splits)
    then show ?thesis using True es by (simp add: m_def Let_def)
  next
    case skip: False
    define below where "below = (start \<noteq> [] \<and> take m p = take m start \<and> length p < length start)"
    define cs where "cs = (if below then drop (length p) start else [])"
    have st: "start = p @ cs" if below
    proof -
      have "p = take (length p) start" using that by (auto simp: below_def m_def min_def)
      then show ?thesis using that append_take_drop_id[of "length p" start] by (simp add: cs_def)
    qed
    have ge: "start \<le> p @ k" if "\<not> below" for k
    proof (cases "start = []")
      case False
      show ?thesis
        by (rule take_min_ge) (use False that skip in \<open>unfold below_def m_def, blast+\<close>)
    qed simp
    have csne: "cs \<noteq> []" if below using that by (auto simp: cs_def below_def)
    have later: "keys_from path start es = keys_from path [] es"
    proof (rule keys_from_all, clarify)
      fix k rs tb assume k: "(k, rs, tb) \<in> set (node_pairs es)"
      show "start \<le> k" using above[OF k, of cs] above[OF k, of "[]"] st ge[of "[]"] by (cases below) auto
    qed
    have sub: "start \<le> p @ k \<longleftrightarrow> cs \<le> k" for k
      using st ge[of k] append_le_append[of p cs k] by (cases below) (auto simp: cs_def)
    have own: "start \<le> p \<longleftrightarrow> \<not> below"
      using sub[of "[]"] csne by (auto simp: cs_def)
    have keys: "keys_from path start (NodeEntry p rs c tb # es) =
        (if \<not> below \<and> rs \<noteq> [] then [(path @ p, rs)] else [])
        @ (case c of None \<Rightarrow> [] | Some n \<Rightarrow> keys_from (path @ p) cs n)
        @ keys_from path [] es"
      unfolding keys_from_Cons own sub later by (simp add: keys_from_def split: option.splits)
    have step: "entries_list (NodeEntry p rs c tb # es) path start cb s =
        (case (if \<not> below \<and> rs \<noteq> [] then cb (path @ p) rs s else (s, True)) of (s1, go1) \<Rightarrow>
           if \<not> go1 then (s1, False)
           else case (case c of None \<Rightarrow> (s1, True)
                      | Some n \<Rightarrow> entries_list (list_from n cs) (path @ p) cs cb s1) of
             (s2, go2) \<Rightarrow> if \<not> go2 then (s2, False) else entries_list es path [] cb s2)"
      unfolding entries_list.simps Let_def m_def[symmetric] if_not_P[OF skip] below_def[symmetric] cs_def[symmetric]
      by (rule refl)
    show ?thesis
      unfolding step keys es visit_append
      by (cases c) (simp_all add: child split: prod.split)
  qed
qed

lemma entries_list_correct:
  "wf_entries n \<Longrightarrow> entries_list n path start cb s = visit cb (keys_from path start n) s"
proof (induction n arbitrary: path start s rule: measure_induct_rule[where f = "size_list size"])
  case (less n)
  show ?case
  proof (cases n)
    case Nil
    then show ?thesis by (simp add: keys_from_def)
  next
    case (Cons e es)
    then obtain p rs c tb where n: "n = NodeEntry p rs c tb # es" by (cases e) auto
    note wf = less.prems[unfolded n]
    have es: "entries_list es path start cb s = visit cb (keys_from path start es) s" for path start s
      using less.IH[of es] wf n by simp
    have child: "entries_list (list_from c' start) path start cb s = visit cb (keys_from path start c') s"
      if "c = Some c'" for c' path start s
      using less.IH[of "list_from c' start"] wf n that size_list_from[of c' start]
      by (simp add: wf_list_from keys_from_list_from)
    show ?thesis unfolding n by (rule entries_list_step[OF wf es child])
  qed
qed

subsection \<open>Compaction\<close>

lemma search_above:
  assumes "sorted revs"
  shows "go_search (length revs) (\<lambda>i. through < revs ! i) = length (takeWhile (\<lambda>r. r \<le> through) revs)"
proof -
  have "\<forall>a b. a \<le> b \<and> b < length revs \<and> through < revs ! a \<longrightarrow> through < revs ! b"
    using sorted_nth_mono[OF assms] order.strict_trans2 by blast
  then show ?thesis using go_search_takeWhile[of revs "\<lambda>r. through < r"] by (simp add: not_less)
qed

text \<open>What a compaction keeps of one key: everything above the point and the latest at or below it.\<close>

lemma compactRevisions_sorted:
  assumes "sorted revs" and "revs \<noteq> []"
  shows "compactRevisions revs tb through =
    (if tb \<and> last revs \<le> through then ([], length revs, True)
     else let n = length (takeWhile (\<lambda>r. r \<le> through) revs) - 1 in (drop n revs, n, False))"
  using assms by (auto simp: compactRevisions_def Let_def search_above last_conv_nth)

lemma compactRevisions_nonempty:
  "revs \<noteq> [] \<Longrightarrow> compactRevisions revs tb through = (kept, d, False) \<Longrightarrow> kept \<noteq> []"
  using go_search_le[of "length revs" "\<lambda>i. through < revs ! i"]
  by (auto simp: compactRevisions_def Let_def split: if_splits)

definition compact_pair :: "revision \<Rightarrow> key \<times> revision list \<times> bool \<Rightarrow> (key \<times> revision list \<times> bool) option" where
  "compact_pair through = (\<lambda>(k, rs, tb). case compactRevisions rs tb through of
     (kept, d, gone) \<Rightarrow> if gone then None else Some (k, kept, tb))"

definition pair_gone :: "revision \<Rightarrow> key \<times> revision list \<times> bool \<Rightarrow> bool" where
  "pair_gone through = (\<lambda>(k, rs, tb). snd (snd (compactRevisions rs tb through)))"

definition pair_dropped :: "revision \<Rightarrow> key \<times> revision list \<times> bool \<Rightarrow> nat" where
  "pair_dropped through = (\<lambda>(k, rs, tb). fst (snd (compactRevisions rs tb through)))"

lemmas pair_defs = compact_pair_def pair_gone_def pair_dropped_def

lemma entry_compact_same [simp]:
  "e_prefix (fst (entry_compact e th)) = e_prefix e" "e_child (fst (entry_compact e th)) = e_child e"
  by (auto simp: entry_compact_def split: prod.split)

definition own_pairs :: "key \<Rightarrow> revision list \<Rightarrow> bool \<Rightarrow> (key \<times> revision list \<times> bool) list" where
  "own_pairs p rs tb = (if rs = [] then [] else [(p, rs, tb)])"

lemma entry_compact_pairs:
  assumes "entry_compact e th = (e', d, gone)"
  shows "own_pairs q (e_revisions e') (e_tombstone e') =
      List.map_filter (compact_pair th) (own_pairs q (e_revisions e) (e_tombstone e))"
    and "(if gone then 1 else 0) = length (filter (pair_gone th) (own_pairs q (e_revisions e) (e_tombstone e)))"
    and "d = sum_list (map (pair_dropped th) (own_pairs q (e_revisions e) (e_tombstone e)))"
  using assms compactRevisions_nonempty[of "e_revisions e" "e_tombstone e" th]
  by (auto simp: entry_compact_def pair_defs own_pairs_def split: if_splits prod.splits)

lemma map_filter_compact_prefixed:
  "List.map_filter (compact_pair th) (map (\<lambda>(k, v). (p @ k, v)) xs) =
    map (\<lambda>(k, v). (p @ k, v)) (List.map_filter (compact_pair th) xs)"
  by (induction xs) (auto simp: map_filter_simps compact_pair_def split: prod.splits)

lemma prefixed_gone_dropped [simp]:
  "pair_gone th \<circ> (\<lambda>(k, v). (p @ k, v)) = pair_gone th"
  "pair_dropped th \<circ> (\<lambda>(k, v). (p @ k, v)) = pair_dropped th"
  by (auto simp: pair_defs fun_eq_iff)

lemma node_compact_correct:
  assumes "node_compact th n = (n', k, d)"
  shows "node_pairs n' = List.map_filter (compact_pair th) (node_pairs n)
    \<and> k = length (filter (pair_gone th) (node_pairs n))
    \<and> d = sum_list (map (pair_dropped th) (node_pairs n))
    \<and> map e_prefix n' = map e_prefix n \<and> wf_entries n' = wf_entries n"
  using assms
proof (induction n arbitrary: n' k d rule: wf_entries.induct)
  case 1
  then show ?case by (simp add: map_filter_simps)
next
  case (2 p rs c tb es)
  obtain e d1 gone where e: "entry_compact (NodeEntry p rs c tb) th = (e, d1, gone)" by (metis surj_pair)
  obtain es' ks ds where es: "node_compact th es = (es', ks, ds)" by (metis surj_pair)
  note ih_es = "2.IH"(2)[OF es]
  note own = entry_compact_pairs[OF e, of p, simplified]
  have pe: "e_prefix e = p" using entry_compact_same(1)[of "NodeEntry p rs c tb" th] e by simp
  have pairs: "node_pairs (NodeEntry p rs' c' tb' # xs) = own_pairs p rs' tb'
      @ (case c' of None \<Rightarrow> [] | Some n \<Rightarrow> map (\<lambda>(k, v). (p @ k, v)) (node_pairs n)) @ node_pairs xs" for rs' c' tb' xs
    by (simp add: own_pairs_def)
  have prefixes: "(\<forall>x \<in> set es'. hd p < first_byte x) = (\<forall>x \<in> set es. hd p < first_byte x)"
  proof -
    have "map e_prefix es' = map e_prefix es" using ih_es by blast
    then have "e_prefix ` set es' = e_prefix ` set es" by (metis list.set_map)
    then have "(\<forall>q \<in> e_prefix ` set es'. hd p < hd q) = (\<forall>q \<in> e_prefix ` set es. hd p < hd q)" by simp
    then show ?thesis by simp
  qed
  show ?case
  proof (cases c)
    case None
    then have "n' = NodeEntry p (e_revisions e) None (e_tombstone e) # es'"
      "k = (if gone then 1 else 0) + ks" "d = d1 + ds"
      using "2.prems" e es pe by (auto split: prod.splits)
    then show ?thesis using ih_es own None prefixes
      by (simp add: pairs del: node_pairs.simps)
  next
    case (Some n)
    obtain m k2 d2 where m: "node_compact th n = (m, k2, d2)" by (metis surj_pair)
    note ih_c = "2.IH"(1)[OF Some m]
    have "n' = NodeEntry p (e_revisions e) (Some m) (e_tombstone e) # es'"
      "k = (if gone then 1 else 0) + k2 + ks" "d = d1 + d2 + ds"
      using "2.prems" e es pe m Some by (auto split: prod.splits)
    then show ?thesis using ih_es own ih_c Some prefixes
      by (simp add: pairs map_filter_compact_prefixed del: node_pairs.simps)
  qed
qed

subsection \<open>The whole index\<close>

definition bt_pairs :: "BPTree \<Rightarrow> (key \<times> revision list \<times> bool) list" where
  "bt_pairs t = own_pairs [] (e_revisions (bt_emptyKey t)) (e_tombstone (bt_emptyKey t)) @ node_pairs (bt_root t)"

definition bt_map :: "BPTree \<Rightarrow> key \<rightharpoonup> revision list \<times> bool" where
  "bt_map t = map_of (bt_pairs t)"

definition bt_inv :: "BPTree \<Rightarrow> bool" where
  "bt_inv t \<longleftrightarrow> wf_entries (bt_root t) \<and> bt_keys t = int (length (bt_pairs t))
     \<and> (\<forall>(k, rs, tb) \<in> set (bt_pairs t). sorted rs)"

lemma bt_inv_empty: "bt_inv empty_BPTree" "bt_map empty_BPTree = Map.empty"
  by (simp_all add: bt_inv_def bt_map_def bt_pairs_def own_pairs_def empty_BPTree_def)

lemma bt_pairs_sorted:
  assumes "wf_entries (bt_root t)"
  shows "sorted_wrt (<) (map fst (bt_pairs t))"
proof -
  have "[] < k" if "(k, v) \<in> set (node_pairs (bt_root t))" for k v
    using node_pairs_first[OF assms that] by (cases k) auto
  then show ?thesis using node_pairs_sorted[OF assms] by (auto simp: bt_pairs_def own_pairs_def)
qed

lemma bt_pairs_distinct: "wf_entries (bt_root t) \<Longrightarrow> distinct (map fst (bt_pairs t))"
  using bt_pairs_sorted strict_sorted_iff by blast

lemma bt_inv_wf: "bt_inv t \<Longrightarrow> wf_entries (bt_root t)"
  by (simp add: bt_inv_def)

lemma bt_map_iff: "wf_entries (bt_root t) \<Longrightarrow> bt_map t k = Some v \<longleftrightarrow> (k, v) \<in> set (bt_pairs t)"
  by (simp add: bt_map_def bt_pairs_distinct)

lemma bt_map_empty_key: "wf_entries (bt_root t) \<Longrightarrow> bt_map t [] =
    (if e_revisions (bt_emptyKey t) = [] then None
     else Some (e_revisions (bt_emptyKey t), e_tombstone (bt_emptyKey t)))"
  using node_map_empty_key[of "bt_root t"] by (simp add: bt_map_def bt_pairs_def own_pairs_def node_map_def)

lemma bt_map_key: "k \<noteq> [] \<Longrightarrow> bt_map t k = node_map (bt_root t) k"
  by (simp add: bt_map_def bt_pairs_def own_pairs_def node_map_def)

lemma bt_map_nonempty: "bt_inv t \<Longrightarrow> bt_map t k = Some (rs, tb) \<Longrightarrow> rs \<noteq> [] \<and> sorted rs"
  using node_pairs_revs[of k rs tb "bt_root t"]
  by (auto simp: bt_map_iff bt_inv_wf bt_inv_def bt_pairs_def own_pairs_def split: if_splits)

lemma revs_of_sorted: "bt_inv t \<Longrightarrow> sorted (revs_of (bt_map t) k)"
  using bt_map_nonempty[of t k] by (auto simp: revs_of_def split: option.splits)

lemma revs_of_eq_Nil: "bt_inv t \<Longrightarrow> revs_of (bt_map t) k = [] \<longleftrightarrow> bt_map t k = None"
  using bt_map_nonempty[of t k] by (auto simp: revs_of_def split: option.splits)

lemma AddRevision_wf: "bt_inv t \<Longrightarrow> wf_entries (bt_root (AddRevision t k r tb))
    \<and> bt_keys (AddRevision t k r tb) = int (length (bt_pairs (AddRevision t k r tb)))"
  using node_addRevision_ok[of "bt_root t" k r tb]
  by (auto simp: AddRevision_def bt_inv_def bt_pairs_def own_pairs_def add_ok_def Let_def split: prod.splits)

lemma node_map_AddRevision:
  assumes "bt_inv t" and "k \<noteq> []"
  shows "node_map (bt_root (AddRevision t k r tb)) = (node_map (bt_root t))(k \<mapsto> (revs_of (node_map (bt_root t)) k @ [r], tb))"
  using node_addRevision_ok[of "bt_root t" k r tb] assms
  by (auto simp: AddRevision_def bt_inv_def add_ok_def split: prod.splits)

lemma bt_map_AddRevision:
  assumes "bt_inv t"
  shows "bt_map (AddRevision t k r tb) = (bt_map t)(k \<mapsto> (revs_of (bt_map t) k @ [r], tb))"
proof
  fix k'
  note wf = bt_inv_wf[OF assms] conjunct1[OF AddRevision_wf[OF assms]]
  have empty: "bt_emptyKey (AddRevision t k r tb) = bt_emptyKey t" if "k \<noteq> []"
    using that by (simp add: AddRevision_def split: prod.splits)
  have root: "bt_root (AddRevision t [] r tb) = bt_root t"
    by (simp add: AddRevision_def Let_def)
  show "bt_map (AddRevision t k r tb) k' = ((bt_map t)(k \<mapsto> (revs_of (bt_map t) k @ [r], tb))) k'"
  proof (cases "k' = []")
    case True
    show ?thesis unfolding True
      by (cases "k = []") (simp_all add: bt_map_empty_key wf empty revs_of_def, simp add: AddRevision_def Let_def)
  next
    case False
    then show ?thesis
      by (cases "k = []") (simp_all add: bt_map_key root node_map_AddRevision[OF assms] revs_of_def)
  qed
qed

lemma bt_inv_AddRevision:
  assumes "bt_inv t" and "\<forall>r' \<in> set (revs_of (bt_map t) k). r' \<le> r"
  shows "bt_inv (AddRevision t k r tb)"
proof -
  note wf = AddRevision_wf[OF assms(1), of k r tb]
  have "sorted rs" if "(k', rs, tb') \<in> set (bt_pairs (AddRevision t k r tb))" for k' rs tb'
  proof -
    have "bt_map (AddRevision t k r tb) k' = Some (rs, tb')" using that bt_map_iff wf by blast
    then show ?thesis
      using assms(2) revs_of_sorted[OF assms(1), of k] bt_map_nonempty[OF assms(1), of k' rs tb']
      by (auto simp: bt_map_AddRevision[OF assms(1)] sorted_append split: if_splits)
  qed
  then show ?thesis using wf by (auto simp: bt_inv_def)
qed

lemma GetLatest_revs:
  assumes "bt_inv t"
  shows "GetLatestRevisionByKey t k at = scan_back (revs_of (bt_map t) k) at"
  using bt_inv_wf[OF assms]
  by (cases "k = []") (simp_all add: GetLatestRevisionByKey_def bt_map_empty_key bt_map_key revs_of_def node_lookup_correct)

lemma scan_back_Some:
  assumes "sorted revs"
  shows "scan_back revs at = Some r \<longleftrightarrow> r \<in> set revs \<and> r \<le> at \<and> (\<forall>r' \<in> set revs. r' \<le> at \<longrightarrow> r' \<le> r)"
  using assms
proof (induction revs rule: rev_induct)
  case (snoc x xs)
  then have xs: "\<forall>r \<in> set xs. r \<le> x" by (simp add: sorted_append)
  show ?case
  proof (cases "x \<le> at")
    case True
    then show ?thesis using xs by (auto simp: scan_back_def)
  next
    case False
    then have "scan_back (xs @ [x]) at = scan_back xs at" by (simp add: scan_back_def)
    then show ?thesis using snoc False by (simp add: sorted_append) auto
  qed
qed (simp add: scan_back_def)

lemma scan_back_None: "scan_back revs at = None \<longleftrightarrow> (\<forall>r \<in> set revs. at < r)"
  by (auto simp: scan_back_def find_None_iff not_le)

lemma scan_back_append:
  "scan_back (xs @ ys) at = (case scan_back ys at of None \<Rightarrow> scan_back xs at | Some r \<Rightarrow> Some r)"
proof -
  have "List.find P (as @ bs) = (case List.find P as of None \<Rightarrow> List.find P bs | Some r \<Rightarrow> Some r)" for P and as bs :: "revision list"
    by (induction as) auto
  then show ?thesis by (simp add: scan_back_def split: option.split)
qed

lemma scan_back_filter:
  "scan_back (map f xs) at =
    (let ms = filter (\<lambda>x. f x \<le> at) xs in if ms = [] then None else Some (f (last ms)))"
  by (induction xs rule: rev_induct) (simp_all add: scan_back_def Let_def)

text \<open>The value of a key after a compaction, given its value before.\<close>

definition compact_value :: "revision \<Rightarrow> (revision list \<times> bool) option \<Rightarrow> (revision list \<times> bool) option" where
  "compact_value th v = (case v of None \<Rightarrow> None | Some (rs, tb) \<Rightarrow>
     (case compactRevisions rs tb th of (kept, d, gone) \<Rightarrow> if gone then None else Some (kept, tb)))"

lemma map_of_map_filter_compact:
  "distinct (map fst xs) \<Longrightarrow> map_of (List.map_filter (compact_pair th) xs) k = compact_value th (map_of xs k)"
proof (induction xs)
  case (Cons x xs)
  obtain k' rs tb where x: "x = (k', rs, tb)" by (metis surj_pair)
  have "map_of xs k' = None" using Cons.prems x by (simp add: map_of_eq_None_iff)
  then show ?case using Cons x
    by (auto simp: compact_pair_def compact_value_def split: prod.splits)
qed (simp add: compact_value_def)

lemma length_map_filter_compact:
  "length (List.map_filter (compact_pair th) xs) + length (filter (pair_gone th) xs) = length xs"
  by (induction xs) (auto simp: pair_defs split: prod.splits)

text \<open>An ascending list after a compaction: what is dropped lies below what any later read wants.\<close>

lemma compactRevisions_kept:
  assumes "sorted revs" and "revs \<noteq> []" and "compactRevisions revs tb th = (kept, d, False)"
  obtains pre where "revs = pre @ kept" "length pre = d" "pre = [] \<or> hd kept \<le> th"
proof -
  define w where "w = takeWhile (\<lambda>r. r \<le> th) revs"
  define n where "n = length w - 1"
  have kept: "kept = drop n revs" "d = n"
    using assms by (auto simp: compactRevisions_sorted n_def w_def Let_def split: if_splits)
  have "hd (drop n revs) \<le> th" if "n > 0"
  proof -
    have lt: "n < length w" using that by (simp add: n_def)
    have le: "length w \<le> length revs" by (simp add: w_def length_takeWhile_le)
    have "w ! n = revs ! n" using takeWhile_nth lt by (simp add: w_def)
    moreover have "w ! n \<le> th" using lt nth_mem w_def set_takeWhileD by metis
    ultimately show ?thesis using lt le by (simp add: hd_drop_conv_nth)
  qed
  moreover have "length (take n revs) = n"
    using length_takeWhile_le[of "\<lambda>r. r \<le> th" revs] by (simp add: n_def w_def)
  ultimately show ?thesis using that[of "take n revs"] kept by (cases "n = 0") auto
qed

lemma scan_back_compact:
  assumes "sorted revs" and "revs \<noteq> []" and "compactRevisions revs tb th = (kept, d, False)" and "th \<le> at"
  shows "scan_back kept at = scan_back revs at"
proof -
  obtain pre where pre: "revs = pre @ kept" "pre = [] \<or> hd kept \<le> th"
    using compactRevisions_kept[OF assms(1-3)] by blast
  have ne: "kept \<noteq> []" using compactRevisions_nonempty assms by blast
  show ?thesis
  proof (cases "pre = []")
    case False
    then have "hd kept \<le> at" using pre assms(4) by simp
    then have "scan_back kept at \<noteq> None" using ne by (auto simp: scan_back_None not_less intro!: bexI[of _ "hd kept"])
    then show ?thesis by (auto simp: pre(1) scan_back_append split: option.splits)
  qed (simp add: pre)
qed

lemma sorted_compact:
  assumes "sorted revs" and "revs \<noteq> []" and "compactRevisions revs tb th = (kept, d, False)"
  shows "sorted kept"
  using compactRevisions_kept[OF assms] assms(1) by (metis sorted_append)

definition removed :: "revision \<Rightarrow> (revision list \<times> bool) option \<Rightarrow> bool" where
  "removed th v = (case v of None \<Rightarrow> False | Some (rs, tb) \<Rightarrow> tb \<and> last rs \<le> th)"

lemma Compact_pairs:
  "bt_pairs (fst (Compact t th)) = List.map_filter (compact_pair th) (bt_pairs t)"
  "fst (snd (Compact t th)) = length (filter (pair_gone th) (bt_pairs t))"
  "snd (snd (Compact t th)) = sum_list (map (pair_dropped th) (bt_pairs t))"
  "wf_entries (bt_root (fst (Compact t th))) = wf_entries (bt_root t)"
  "bt_keys (fst (Compact t th)) = bt_keys t - int (fst (snd (Compact t th)))"
proof -
  obtain e d gone where e: "entry_compact (bt_emptyKey t) th = (e, d, gone)" by (metis surj_pair)
  obtain n k ds where n: "node_compact th (bt_root t) = (n, k, ds)" by (metis surj_pair)
  have c: "Compact t th = (t\<lparr>bt_emptyKey := e, bt_root := n, bt_keys := bt_keys t - int ((if gone then 1 else 0) + k)\<rparr>,
      (if gone then 1 else 0) + k, d + ds)"
    by (simp add: Compact_def e n Let_def)
  note own = entry_compact_pairs[OF e, of "[]"] and node = node_compact_correct[OF n]
  show "bt_pairs (fst (Compact t th)) = List.map_filter (compact_pair th) (bt_pairs t)"
    using own(1) node by (simp add: c bt_pairs_def)
  show "fst (snd (Compact t th)) = length (filter (pair_gone th) (bt_pairs t))"
    using own(2) node by (simp only: c bt_pairs_def fst_conv snd_conv filter_append length_append)
  show "snd (snd (Compact t th)) = sum_list (map (pair_dropped th) (bt_pairs t))"
    using own(3) node by (simp add: c bt_pairs_def)
  show "wf_entries (bt_root (fst (Compact t th))) = wf_entries (bt_root t)"
    using node by (simp add: c)
  show "bt_keys (fst (Compact t th)) = bt_keys t - int (fst (snd (Compact t th)))"
    by (simp add: c)
qed

lemma bt_map_Compact: "bt_inv t \<Longrightarrow> bt_map (fst (Compact t th)) k = compact_value th (bt_map t k)"
  by (simp add: bt_map_def Compact_pairs(1) map_of_map_filter_compact bt_pairs_distinct bt_inv_wf)

lemma bt_inv_Compact:
  assumes "bt_inv t"
  shows "bt_inv (fst (Compact t th))"
proof -
  let ?t = "fst (Compact t th)"
  have wf: "wf_entries (bt_root ?t)" using assms by (simp add: Compact_pairs(4) bt_inv_def)
  have "sorted rs" if "(k, rs, tb) \<in> set (bt_pairs ?t)" for k rs tb
  proof -
    have "compact_value th (bt_map t k) = Some (rs, tb)"
      using that bt_map_iff[OF wf, of k] bt_map_Compact[OF assms, of th k] by simp
    then obtain revs d where "bt_map t k = Some (revs, tb)" "compactRevisions revs tb th = (rs, d, False)"
      by (auto simp: compact_value_def split: option.splits prod.splits if_splits)
    then show ?thesis using sorted_compact bt_map_nonempty[OF assms] by blast
  qed
  moreover have "bt_keys ?t = int (length (bt_pairs ?t))"
    using length_map_filter_compact[of th "bt_pairs t"] assms Compact_pairs[of t th] by (simp add: bt_inv_def)
  ultimately show ?thesis using wf by (auto simp: bt_inv_def)
qed

definition bt_range :: "BPTree \<Rightarrow> key \<Rightarrow> (key \<times> revision list) list" where
  "bt_range t start = map (\<lambda>x. (fst x, fst (snd x))) (filter (\<lambda>x. start \<le> fst x) (bt_pairs t))"

lemma List_visit:
  assumes "bt_inv t"
  shows "ListRevisionsByKeyRange t start at cb s = fst (visit cb (bt_range t start) s)"
proof -
  have root: "node_list (bt_root t) [] start cb s = visit cb (keys_from [] start (bt_root t)) s" for s start
    by (simp add: node_list_def entries_list_correct wf_list_from keys_from_list_from bt_inv_wf[OF assms])
  have range: "bt_range t start = (if start = [] \<and> e_revisions (bt_emptyKey t) \<noteq> []
      then [([], e_revisions (bt_emptyKey t))] else []) @ keys_from [] start (bt_root t)"
    by (auto simp: bt_range_def bt_pairs_def own_pairs_def keys_from_def)
  show ?thesis
    unfolding range visit_append by (simp add: ListRevisionsByKeyRange_def Let_def root split: prod.split)
qed

lemma Len_card:
  assumes "bt_inv t"
  shows "Len t = int (card (dom (bt_map t)))" and "finite (dom (bt_map t))"
proof -
  have "dom (bt_map t) = fst ` set (bt_pairs t)" by (auto simp: bt_map_def dom_map_of_conv_image_fst)
  then show "Len t = int (card (dom (bt_map t)))" "finite (dom (bt_map t))"
    using assms distinct_card[OF bt_pairs_distinct[OF bt_inv_wf[OF assms]]]
    by (simp_all add: bt_inv_def Len_def)
qed

subsection \<open>The index as an interface\<close>

text \<open>
  What the storage relies on: the index is a map from keys to ascending revision lists, a write
  appends to one of them, a read takes the latest revision at or below a point, and a compaction
  acts on each key by itself.
\<close>

locale revision_index =
  fixes empty :: 't
    and add :: "'t \<Rightarrow> key \<Rightarrow> revision \<Rightarrow> bool \<Rightarrow> 't"
    and latest :: "'t \<Rightarrow> key \<Rightarrow> revision \<Rightarrow> revision option"
    and compact :: "'t \<Rightarrow> revision \<Rightarrow> 't"
    and contents :: "'t \<Rightarrow> key \<rightharpoonup> revision list \<times> bool"
    and inv :: "'t \<Rightarrow> bool"
  assumes inv_empty: "inv empty"
    and contents_empty: "contents empty = Map.empty"
    and inv_add: "inv t \<Longrightarrow> \<forall>r' \<in> set (revs_of (contents t) k). r' \<le> r \<Longrightarrow> inv (add t k r tb)"
    and contents_add: "inv t \<Longrightarrow> contents (add t k r tb) = (contents t)(k \<mapsto> (revs_of (contents t) k @ [r], tb))"
    and contents_sorted: "inv t \<Longrightarrow> contents t k = Some (rs, tb) \<Longrightarrow> rs \<noteq> [] \<and> sorted rs"
    and latest_scan: "inv t \<Longrightarrow> latest t k at = scan_back (revs_of (contents t) k) at"
    and inv_compact: "inv t \<Longrightarrow> inv (compact t th)"
    and contents_compact: "inv t \<Longrightarrow> contents (compact t th) k = compact_value th (contents t k)"
begin

lemma latest_empty: "latest empty k at = None"
  by (simp add: latest_scan inv_empty contents_empty revs_of_def scan_back_def)

lemma latest_add:
  assumes "inv t" and "\<forall>r' \<in> set (revs_of (contents t) k). r' \<le> r"
  shows "latest (add t k r tb) k' at = (if k' = k \<and> r \<le> at then Some r else latest t k' at)"
proof -
  have "scan_back [r] at = (if r \<le> at then Some r else None)" by (simp add: scan_back_def)
  then show ?thesis
    using assms by (simp add: latest_scan inv_add contents_add revs_of_def scan_back_append)
qed

lemma revs_of_add:
  "inv t \<Longrightarrow> revs_of (contents (add t k r tb)) k' = revs_of (contents t) k' @ (if k' = k then [r] else [])"
  by (simp add: contents_add revs_of_def)

lemma latest_iff:
  assumes "inv t"
  shows "latest t k at = Some r \<longleftrightarrow> r \<in> set (revs_of (contents t) k) \<and> r \<le> at
    \<and> (\<forall>r' \<in> set (revs_of (contents t) k). r' \<le> at \<longrightarrow> r' \<le> r)"
proof -
  have "sorted (revs_of (contents t) k)"
    using contents_sorted[OF assms, of k] by (auto simp: revs_of_def split: option.splits)
  then show ?thesis by (simp add: latest_scan[OF assms] scan_back_Some)
qed

text \<open>A read at or above the compaction point is not disturbed, unless its answer was a delete.\<close>

lemma latest_compact:
  assumes "inv t" and "th \<le> at"
  shows "latest (compact t th) k at = (if removed th (contents t k) then None else latest t k at)"
proof (cases "contents t k")
  case None
  then show ?thesis
    by (simp add: latest_scan inv_compact assms(1) contents_compact revs_of_def compact_value_def removed_def)
next
  case (Some v)
  obtain rs tb where v: "v = (rs, tb)" by (cases v)
  note rs = contents_sorted[OF assms(1) Some[unfolded v]]
  obtain kept d gone where c: "compactRevisions rs tb th = (kept, d, gone)" by (metis surj_pair)
  have gone: "gone \<longleftrightarrow> removed th (contents t k)"
    using c rs by (auto simp: compactRevisions_sorted Some v removed_def Let_def split: if_splits)
  have "scan_back kept at = scan_back rs at" if "\<not> gone"
    using scan_back_compact[of rs tb th kept d at] rs c that assms(2) by simp
  then show ?thesis
    using gone c
    by (auto simp: latest_scan inv_compact assms(1) contents_compact revs_of_def compact_value_def Some v scan_back_def)
qed

text \<open>An index built by a sequence of writes in revision order.\<close>

lemma fold_add:
  assumes "sorted (map (fst \<circ> snd) ws)"
  shows "inv (fold (\<lambda>(k, r, tb) t. add t k r tb) ws empty)
    \<and> (\<forall>k. revs_of (contents (fold (\<lambda>(k, r, tb) t. add t k r tb) ws empty)) k =
          map (fst \<circ> snd) (filter (\<lambda>w. fst w = k) ws))"
  using assms
proof (induction ws rule: rev_induct)
  case Nil
  then show ?case by (simp add: inv_empty contents_empty revs_of_def)
next
  case (snoc w ws)
  obtain k r tb where w: "w = (k, r, tb)" by (metis surj_pair)
  have le: "\<forall>x \<in> set ws. fst (snd x) \<le> r" using snoc.prems w by (auto simp: sorted_append)
  let ?t = "fold (\<lambda>(k, r, tb) t. add t k r tb) ws empty"
  have ih: "inv ?t" "\<And>k. revs_of (contents ?t) k = map (fst \<circ> snd) (filter (\<lambda>w. fst w = k) ws)"
    using snoc by (auto simp: sorted_append)
  have "inv (add ?t k r tb)" by (rule inv_add[OF ih(1)]) (use le in \<open>auto simp: ih(2)\<close>)
  then show ?case by (simp add: w revs_of_add[OF ih(1)] ih(2))
qed

lemma latest_fold_add:
  assumes "sorted (map (fst \<circ> snd) ws)"
  shows "latest (fold (\<lambda>(k, r, tb) t. add t k r tb) ws empty) k at =
    (let ms = filter (\<lambda>w. fst w = k \<and> fst (snd w) \<le> at) ws
     in if ms = [] then None else Some (fst (snd (last ms))))"
  using fold_add[OF assms] by (simp add: latest_scan scan_back_filter conj_commute Let_def)

end

interpretation bpt: revision_index empty_BPTree AddRevision GetLatestRevisionByKey
    "\<lambda>t th. fst (Compact t th)" bt_map bt_inv
proof unfold_locales
qed (simp_all add: bt_inv_empty bt_inv_AddRevision bt_map_AddRevision bt_map_nonempty GetLatest_revs
    bt_inv_Compact bt_map_Compact)

lemma visit_collect: "visit (\<lambda>k rs acc. (acc @ [(k, rs)], True)) xs acc = (acc @ xs, True)"
  by (induction xs arbitrary: acc) auto

lemma bt_range_set:
  "bt_inv t \<Longrightarrow> set (bt_range t start) = {(k, rs). start \<le> k \<and> (\<exists>tb. bt_map t k = Some (rs, tb))}"
  by (force simp: bt_range_def bt_map_iff bt_inv_wf)

lemma bt_range_sorted: "bt_inv t \<Longrightarrow> sorted_wrt (<) (map fst (bt_range t start))"
proof -
  assume "bt_inv t"
  then have "sorted_wrt (<) (map fst (filter (\<lambda>x. start \<le> fst x) (bt_pairs t)))"
    using bt_pairs_sorted[of t] by (simp add: bt_inv_wf sorted_wrt_map sorted_wrt_filter)
  then show ?thesis by (simp add: bt_range_def comp_def)
qed

definition revision_count :: "(key \<times> revision list \<times> bool) list \<Rightarrow> nat" where
  "revision_count xs = sum_list (map (length \<circ> fst \<circ> snd) xs)"

lemma pair_dropped_total:
  "\<forall>(k, rs, tb) \<in> set xs. sorted rs \<and> rs \<noteq> [] \<Longrightarrow>
    sum_list (map (pair_dropped th) xs) + revision_count (List.map_filter (compact_pair th) xs) = revision_count xs"
proof (induction xs)
  case (Cons x xs)
  obtain k rs tb where x: "x = (k, rs, tb)" by (metis surj_pair)
  obtain kept d gone where c: "compactRevisions rs tb th = (kept, d, gone)" by (metis surj_pair)
  have rs: "sorted rs" "rs \<noteq> []" using Cons.prems x by auto
  have "d + (if gone then 0 else length kept) = length rs"
  proof (cases gone)
    case True
    then show ?thesis using c rs by (simp add: compactRevisions_sorted Let_def split: if_splits)
  next
    case False
    then have "compactRevisions rs tb th = (kept, d, False)" using c by simp
    then obtain pre where "rs = pre @ kept" "length pre = d" by (rule compactRevisions_kept[OF rs])
    then show ?thesis using False by simp
  qed
  then show ?case using Cons x c by (cases gone) (simp_all add: pair_defs revision_count_def)
qed (simp add: revision_count_def)

subsection \<open>Properties\<close>

text \<open>
  C11: the radix tree implements a finite map.  On a well-formed index, recording a write of a key at
  a revision no older than the key's others keeps the index well-formed, appends the revision to that
  key's list, sets its tombstone flag, and changes no other key; the key count follows.
\<close>

theorem AddRevision_refines_map_update:
  assumes "bt_inv t" and "\<forall>r' \<in> set (revs_of (bt_map t) k). r' \<le> r"
  shows "bt_inv (AddRevision t k r tb)
    \<and> bt_map (AddRevision t k r tb) = (bt_map t)(k \<mapsto> (revs_of (bt_map t) k @ [r], tb))
    \<and> Len (AddRevision t k r tb) = Len t + (if bt_map t k = None then 1 else 0)"
proof -
  have inv: "bt_inv (AddRevision t k r tb)" by (rule bt_inv_AddRevision[OF assms])
  have m: "bt_map (AddRevision t k r tb) = (bt_map t)(k \<mapsto> (revs_of (bt_map t) k @ [r], tb))"
    by (rule bt_map_AddRevision[OF assms(1)])
  have "Len (AddRevision t k r tb) = Len t + (if bt_map t k = None then 1 else 0)"
    using Len_card[OF assms(1)] Len_card[OF inv] by (simp add: m insert_absorb domIff card_insert_if)
  then show ?thesis using inv m by blast
qed

text \<open>A tree with a split edge: the keys \<^verbatim>\<open>/a\<close>, \<^verbatim>\<open>/b\<close> and \<^verbatim>\<open>/\<close>.\<close>

definition sample_tree :: BPTree where
  "sample_tree = fold (\<lambda>(k, r, tb) t. AddRevision t k r tb)
     [([47, 97], 2, False), ([47, 98], 3, False), ([47], 4, False), ([47, 97], 5, True)] empty_BPTree"

lemma sample_tree_inv: "bt_inv sample_tree"
  by code_simp

theorem AddRevision_refines_map_update_witness:
  "bt_inv (AddRevision sample_tree [47, 97] 7 False)
    \<and> bt_map (AddRevision sample_tree [47, 97] 7 False) [47, 97] = Some ([2, 5, 7], False)
    \<and> Len (AddRevision sample_tree [47, 97] 7 False) = 3"
proof -
  have h: "\<forall>r' \<in> set (revs_of (bt_map sample_tree) [47, 97]). r' \<le> 7" by code_simp
  have "revs_of (bt_map sample_tree) [47, 97] = [2, 5]" "Len sample_tree = 3" "bt_map sample_tree [47, 97] \<noteq> None"
    by code_simp+
  then show ?thesis using AddRevision_refines_map_update[OF sample_tree_inv h, of False] by simp
qed

text \<open>
  A lookup answers with the last write.  For an index built from any sequence of writes in
  revision order, \<^verbatim>\<open>GetLatestRevisionByKey\<close> returns the revision of the last write of the key at or below
  the requested revision, and nothing when there is none.
\<close>

theorem GetLatestRevisionByKey_last_write:
  assumes "sorted (map (fst \<circ> snd) ws)"
  shows "GetLatestRevisionByKey (fold (\<lambda>(k, r, tb) t. AddRevision t k r tb) ws empty_BPTree) k at =
    (let ms = filter (\<lambda>w. fst w = k \<and> fst (snd w) \<le> at) ws
     in if ms = [] then None else Some (fst (snd (last ms))))"
  by (rule bpt.latest_fold_add[OF assms])

theorem GetLatestRevisionByKey_last_write_witness:
  "GetLatestRevisionByKey (fold (\<lambda>(k, r, tb) t. AddRevision t k r tb)
     [([47, 97], 2, False), ([47, 98], 3, False), ([47, 97], 5, True)] empty_BPTree) [47, 97] 4 = Some 2"
proof -
  have "sorted (map (fst \<circ> snd) [([47, 97] :: key, 2 :: revision, False), ([47, 98], 3, False), ([47, 97], 5, True)])"
    by simp
  from GetLatestRevisionByKey_last_write[OF this, of "[47, 97]" 4] show ?thesis by simp
qed

text \<open>
  A range scan visits exactly the keys at or above the start key, each once, in ascending byte
  order, with all their revisions, and it stops where the callback says so.
\<close>

theorem ListRevisionsByKeyRange_in_order:
  assumes "bt_inv t"
  shows "let out = ListRevisionsByKeyRange t start at (\<lambda>k rs acc. (acc @ [(k, rs)], True)) []
    in sorted_wrt (<) (map fst out)
       \<and> set out = {(k, rs). start \<le> k \<and> (\<exists>tb. bt_map t k = Some (rs, tb))}
       \<and> ListRevisionsByKeyRange t start at cb s = fst (visit cb out s)"
  using assms by (simp add: List_visit visit_collect bt_range_set bt_range_sorted)

theorem ListRevisionsByKeyRange_in_order_witness:
  "ListRevisionsByKeyRange sample_tree [47, 97] 9 (\<lambda>k rs acc. (acc @ [(k, rs)], True)) [] =
     [([47, 97], [2, 5]), ([47, 98], [3])]
   \<and> sorted_wrt (<) (map fst (ListRevisionsByKeyRange sample_tree [47, 97] 9 (\<lambda>k rs acc. (acc @ [(k, rs)], True)) []))"
proof -
  have "ListRevisionsByKeyRange sample_tree [47, 97] 9 (\<lambda>k rs acc. (acc @ [(k, rs)], True)) [] =
     [([47, 97], [2, 5]), ([47, 98], [3])]" by code_simp
  moreover note ListRevisionsByKeyRange_in_order[OF sample_tree_inv, of "[47, 97]" 9 "\<lambda>k rs s. (s, True)" "()", unfolded Let_def, THEN conjunct1]
  ultimately show ?thesis by (intro conjI)
qed

text \<open>
  A compaction does not disturb reads at or above its point.  After \<^verbatim>\<open>Compact(through)\<close> the index is
  well-formed and a lookup at any revision from \<^verbatim>\<open>through\<close> on has its old answer, except for a key whose
  last write is a delete at or below \<^verbatim>\<open>through\<close>: that key is gone.
\<close>

theorem Compact_preserves_reads:
  assumes "bt_inv t" and "through \<le> at"
  shows "bt_inv (fst (Compact t through))
    \<and> GetLatestRevisionByKey (fst (Compact t through)) k at =
        (if removed through (bt_map t k) then None else GetLatestRevisionByKey t k at)"
  using bt_inv_Compact[OF assms(1)] bpt.latest_compact[OF assms] by blast

theorem Compact_preserves_reads_witness:
  "GetLatestRevisionByKey (fst (Compact sample_tree 4)) [47, 97] 4 = Some 2
   \<and> GetLatestRevisionByKey (fst (Compact sample_tree 5)) [47, 97] 6 = None"
proof -
  have h: "(4::revision) \<le> 4" "(5::revision) \<le> 6" by simp_all
  have "\<not> removed 4 (bt_map sample_tree [47, 97])" "removed 5 (bt_map sample_tree [47, 97])"
    "GetLatestRevisionByKey sample_tree [47, 97] 4 = Some 2" by code_simp+
  then show ?thesis
    using Compact_preserves_reads[OF sample_tree_inv h(1)] Compact_preserves_reads[OF sample_tree_inv h(2)] by simp
qed

text \<open>
  A compaction reports what it did.  \<^verbatim>\<open>keysRemoved\<close> is the number of keys that disappeared,
  \<^verbatim>\<open>revisionsDropped\<close> the number of revisions that did, and the key count stays exact.
\<close>

theorem Compact_counts:
  assumes "bt_inv t" and "Compact t through = (t', keysRemoved, revisionsDropped)"
  shows "Len t' = Len t - int keysRemoved \<and> Len t' = int (card (dom (bt_map t')))
    \<and> revisionsDropped + revision_count (bt_pairs t') = revision_count (bt_pairs t)"
proof -
  have t': "t' = fst (Compact t through)" using assms(2) by simp
  have "\<forall>(k, rs, tb) \<in> set (bt_pairs t). sorted rs \<and> rs \<noteq> []"
    using bt_map_nonempty[OF assms(1)] bt_map_iff[OF bt_inv_wf[OF assms(1)]] by blast
  then show ?thesis
    using pair_dropped_total[of "bt_pairs t" through] Compact_pairs[of t through] assms(2)
      Len_card(1)[OF bt_inv_Compact[OF assms(1)], of through]
    by (simp add: Len_def)
qed

theorem Compact_counts_witness:
  "\<exists>t'. Compact sample_tree 6 = (t', 1, 2) \<and> Len t' = 2"
proof -
  have c: "Compact sample_tree 6 = (fst (Compact sample_tree 6), 1, 2)" and "Len sample_tree = 3" by code_simp+
  then show ?thesis using Compact_counts[OF sample_tree_inv c] by (intro exI[of _ "fst (Compact sample_tree 6)"]) simp
qed

end
