(* ===== verification/Etcdserverpb.thy ===== *)
theory Etcdserverpb
  imports Mvcc
begin

text \<open>
  The requests and responses of the etcd API (\<^verbatim>\<open>go.etcd.io/etcd/api/v3/etcdserverpb\<close>) with the fields the
  program reads or sets.  A \<^verbatim>\<open>bytes\<close> field of a request is a \<^verbatim>\<open>slice\<close>, since the program tests some of them
  for \<^verbatim>\<open>nil\<close>; a header is optional because it is a pointer that responses inside a transaction do not have
  at first.
\<close>

definition the_bytes :: "slice \<Rightarrow> bytes" where
  "the_bytes s = (case s of None \<Rightarrow> [] | Some b \<Rightarrow> b)"

record ResponseHeader =
  hd_ClusterId :: "64 word"
  hd_MemberId :: "64 word"
  hd_Revision :: int64
  hd_RaftTerm :: "64 word"

subsection \<open>Key-value requests\<close>

record PutRequest =
  pr_Key :: slice
  pr_Value :: bytes
  pr_Lease :: int64
  pr_PrevKv :: bool

record RangeRequest =
  rr_Key :: slice
  rr_RangeEnd :: slice
  rr_Limit :: int64
  rr_Revision :: int64
  rr_KeysOnly :: bool
  rr_CountOnly :: bool

record DeleteRangeRequest =
  dr_Key :: slice
  dr_RangeEnd :: slice

datatype CompareResult = Compare_EQUAL | Compare_GREATER | Compare_LESS | Compare_NOT_EQUAL

datatype CompareTarget = Compare_VERSION | Compare_CREATE | Compare_MOD | Compare_VALUE | Compare_LEASE

datatype TargetUnion =
    Union_Version int64 | Union_CreateRevision int64 | Union_ModRevision int64 | Union_Value bytes | Union_Lease int64 | Union_nil

record CompareCond =
  cc_Result :: CompareResult
  cc_Target :: CompareTarget
  cc_Key :: slice
  cc_TargetUnion :: TargetUnion

datatype RequestOp = RequestPut PutRequest | RequestDeleteRange DeleteRangeRequest | RequestRange RangeRequest | RequestOther

record TxnRequest =
  tr_Compare :: "CompareCond list"
  tr_Success :: "RequestOp list"
  tr_Failure :: "RequestOp list"

record PutResponse =
  pp_Header :: "ResponseHeader option"
  pp_PrevKv :: "KeyValue option"

record RangeResponse =
  rp_Header :: "ResponseHeader option"
  rp_Kvs :: "KeyValue list"
  rp_More :: bool
  rp_Count :: int64

record DeleteRangeResponse =
  dp_Header :: "ResponseHeader option"
  dp_Deleted :: int64

datatype ResponseOp = ResponsePut PutResponse | ResponseDeleteRange DeleteRangeResponse | ResponseRange RangeResponse

record TxnResponse =
  tp_Header :: ResponseHeader
  tp_Succeeded :: bool
  tp_Responses :: "ResponseOp list"

subsection \<open>Watches\<close>

datatype FilterType = NOPUT | NODELETE | UnknownFilter

record WatchCreateRequest =
  wc_Key :: slice
  wc_RangeEnd :: slice
  wc_StartRevision :: int64
  wc_Filters :: "FilterType list"
  wc_PrevKv :: bool
  wc_WatchId :: int64

record WatchResponse =
  wp_Header :: ResponseHeader
  wp_WatchId :: int64
  wp_Created :: bool
  wp_Canceled :: bool
  wp_CompactRevision :: int64
  wp_Events :: "Event list"

datatype WatchRequest = WatchCreate WatchCreateRequest | WatchCancel int64 | WatchProgress | WatchUnknown

subsection \<open>Leases\<close>

record LeaseGrantRequest =
  gr_TTL :: int64
  gr_ID :: int64

record LeaseGrantResponse =
  gp_ID :: int64
  gp_TTL :: int64

record LeaseKeepAliveResponse =
  kp_ID :: int64
  kp_TTL :: int64

record LeaseTimeToLiveResponse =
  lt_ID :: int64
  lt_TTL :: int64
  lt_GrantedTTL :: int64
  lt_Keys :: "key list"

definition createHeader :: "revision \<Rightarrow> ResponseHeader" where
  "createHeader r = \<lparr> hd_ClusterId = 1, hd_MemberId = 1, hd_Revision = r, hd_RaftTerm = 1 \<rparr>"

end
