(* ===== verification/Lease_Queue.thy ===== *)
theory Lease_Queue
  imports Prelude
begin

text \<open>
  The unbounded queue of \<^verbatim>\<open>src/pkg/lease/lease.go\<close>, a linked list with a head and a tail pointer, against the
  list of its values.  The items live in a store, an item's address being its position there; a \<^verbatim>\<open>nil\<close>
  pointer is \<^verbatim>\<open>None\<close>.  \<^verbatim>\<open>Wait\<close> on an open queue with no items blocks, which is the value \<^verbatim>\<open>None\<close>.
\<close>

record 'a queueItem =
  qi_value :: 'a
  qi_next :: "nat option"

record 'a queue =
  q_closed :: bool
  q_head :: "nat option"
  q_tail :: "nat option"
  q_store :: "'a queueItem list"

definition newQueue :: "'a queue" where
  "newQueue = \<lparr> q_closed = False, q_head = None, q_tail = None, q_store = [] \<rparr>"

definition queue_Close :: "'a queue \<Rightarrow> 'a queue" where
  "queue_Close q = q \<lparr> q_closed := True \<rparr>"

definition queue_Push :: "'a queue \<Rightarrow> 'a \<Rightarrow> 'a queue" where
  "queue_Push q v =
     (let item = length (q_store q);
          store = q_store q @ [\<lparr> qi_value = v, qi_next = None \<rparr>];
          store' = (case q_tail q of None \<Rightarrow> store | Some t \<Rightarrow> store[t := (store ! t) \<lparr> qi_next := Some item \<rparr>])
      in q \<lparr> q_store := store', q_tail := Some item, q_head := (if q_head q = None then Some item else q_head q) \<rparr>)"

definition queue_Pop :: "'a queue \<Rightarrow> 'a option \<times> 'a queue" where
  "queue_Pop q =
     (case q_head q of
        None \<Rightarrow> (None, q)
      | Some a \<Rightarrow>
          let nxt = qi_next (q_store q ! a)
          in (Some (qi_value (q_store q ! a)), q \<lparr> q_head := nxt, q_tail := (if nxt = None then None else q_tail q) \<rparr>))"

definition queue_Wait :: "'a queue \<Rightarrow> ('a option \<times> 'a queue) option" where
  "queue_Wait q = (if q_head q = None \<and> \<not> q_closed q then None else Some (queue_Pop q))"

subsection \<open>The linked list is the list of its values\<close>

text \<open>\<^verbatim>\<open>linked s p as tl\<close>: from \<^verbatim>\<open>p\<close> the items are at the addresses \<^verbatim>\<open>as\<close>, the last of which is \<^verbatim>\<open>tl\<close>.\<close>

fun linked :: "'a queueItem list \<Rightarrow> nat option \<Rightarrow> nat list \<Rightarrow> nat option \<Rightarrow> bool" where
  "linked s p [] t \<longleftrightarrow> p = None \<and> t = None"
| "linked s p [a] t \<longleftrightarrow> p = Some a \<and> t = Some a \<and> a < length s \<and> qi_next (s ! a) = None"
| "linked s p (a # b # as) t \<longleftrightarrow> p = Some a \<and> a < length s \<and> qi_next (s ! a) = Some b \<and> a \<notin> set (b # as) \<and> linked s (Some b) (b # as) t"

text \<open>The addresses in use, read from the store; there are never more of them than items.\<close>

fun chase :: "'a queueItem list \<Rightarrow> nat \<Rightarrow> nat option \<Rightarrow> nat list" where
  "chase s 0 p = []"
| "chase s (Suc n) p = (case p of None \<Rightarrow> [] | Some a \<Rightarrow> a # chase s n (qi_next (s ! a)))"

definition addresses :: "'a queue \<Rightarrow> nat list" where
  "addresses q = chase (q_store q) (length (q_store q)) (q_head q)"

definition queue_list :: "'a queue \<Rightarrow> 'a list" where
  "queue_list q = map (\<lambda>a. qi_value (q_store q ! a)) (addresses q)"

definition queue_inv :: "'a queue \<Rightarrow> bool" where
  "queue_inv q \<longleftrightarrow> linked (q_store q) (q_head q) (addresses q) (q_tail q)"

lemma linked_bound: "linked s p as t \<Longrightarrow> \<forall>a \<in> set as. a < length s"
  by (induction s p as t rule: linked.induct) auto

lemma linked_distinct: "linked s p as t \<Longrightarrow> distinct as"
  by (induction s p as t rule: linked.induct) auto

lemma linked_short: "linked s p as t \<Longrightarrow> length as \<le> length s"
  using linked_distinct[of s p as t] linked_bound[of s p as t] card_mono[of "{..<length s}" "set as"]
  by (auto simp: distinct_card)

lemma linked_chase: "linked s p as t \<Longrightarrow> length as \<le> n \<Longrightarrow> chase s n p = as"
proof (induction s p as t arbitrary: n rule: linked.induct)
  case (1 s p t)
  then show ?case by (cases n) auto
next
  case (2 s p a t)
  then show ?case by (cases n; cases "n - 1") auto
next
  case (3 s p a b as t)
  then show ?case by (cases n) auto
qed

lemma queue_invI:
  assumes "linked (q_store q) (q_head q) as (q_tail q)"
  shows "queue_inv q" and "queue_list q = map (\<lambda>a. qi_value (q_store q ! a)) as"
  using assms linked_chase[OF assms linked_short[OF assms]] by (simp_all add: queue_inv_def queue_list_def addresses_def)

lemma linked_tail: "linked s p as t \<Longrightarrow> t = (if as = [] then None else Some (last as))"
  by (induction s p as t rule: linked.induct) auto

lemma linked_head: "linked s p as t \<Longrightarrow> p = (if as = [] then None else Some (hd as))"
  by (induction s p as t rule: linked.induct) auto

lemma linked_snoc:
  assumes "linked s p as t"
  shows "linked (case t of None \<Rightarrow> s @ [x \<lparr> qi_next := None \<rparr>]
                  | Some u \<Rightarrow> (s @ [x \<lparr> qi_next := None \<rparr>])[u := ((s @ [x \<lparr> qi_next := None \<rparr>]) ! u) \<lparr> qi_next := Some (length s) \<rparr>])
           (if p = None then Some (length s) else p) (as @ [length s]) (Some (length s))"
  using assms
proof (induction s p as t rule: linked.induct)
  case (2 s p a t)
  then show ?case by (auto simp: nth_append)
next
  case (3 s p a b as t)
  then obtain u where u: "t = Some u" "u \<in> set (b # as)" using linked_tail[of s "Some b" "b # as" t] by auto
  have "\<forall>c \<in> set (a # b # as). c < length s" using linked_bound[OF 3(2)] by blast
  then show ?case using 3 u by (auto simp: nth_append nth_list_update)
qed simp

locale fifo =
  fixes empty :: "'q" and push :: "'q \<Rightarrow> 'a \<Rightarrow> 'q" and pop :: "'q \<Rightarrow> 'a option \<times> 'q"
    and items :: "'q \<Rightarrow> 'a list" and inv :: "'q \<Rightarrow> bool"
  assumes empty_inv: "inv empty" and empty_items: "items empty = []"
    and push_inv: "inv q \<Longrightarrow> inv (push q x)" and push_items: "inv q \<Longrightarrow> items (push q x) = items q @ [x]"
    and pop_inv: "inv q \<Longrightarrow> inv (snd (pop q))"
    and pop_items: "inv q \<Longrightarrow> pop q = (case items q of [] \<Rightarrow> (None, snd (pop q)) | y # ys \<Rightarrow> (Some y, snd (pop q))) \<and> items (snd (pop q)) = tl (items q)"
begin

text \<open>What is pushed after \<^verbatim>\<open>q\<close> comes out after what \<^verbatim>\<open>q\<close> holds, in order.\<close>

fun pops :: "nat \<Rightarrow> 'q \<Rightarrow> 'a list" where
  "pops 0 q = []"
| "pops (Suc n) q = (case pop q of (None, q') \<Rightarrow> [] | (Some x, q') \<Rightarrow> x # pops n q')"

lemma pops_take: "inv q \<Longrightarrow> pops n q = take n (items q)"
proof (induction n arbitrary: q)
  case (Suc n)
  have i: "inv (snd (pop q))" "items (snd (pop q)) = tl (items q)" using pop_inv pop_items Suc.prems by blast+
  show ?case using pop_items[OF Suc.prems] Suc.IH[OF i(1)] i(2) by (cases "items q"; cases "pop q") auto
qed simp

lemma push_all: "inv q \<Longrightarrow> inv (foldl push q xs) \<and> items (foldl push q xs) = items q @ xs"
  by (induction xs arbitrary: q) (simp_all add: push_inv push_items)

lemma first_in_first_out: "inv q \<Longrightarrow> pops (length (items q) + length xs) (foldl push q xs) = items q @ xs"
  using push_all[of q xs] pops_take by simp

end

interpretation lq: fifo newQueue queue_Push queue_Pop queue_list queue_inv
proof
  show "queue_inv newQueue" "queue_list newQueue = []"
    using queue_invI[of newQueue "[]"] by (simp_all add: newQueue_def)
next
  fix q :: "'a queue" and x
  assume inv: "queue_inv q"
  let ?s = "q_store q" and ?as = "addresses q"
  have l: "linked ?s (q_head q) ?as (q_tail q)" using inv by (simp add: queue_inv_def)
  have q: "queue_list q = map (\<lambda>a. qi_value (?s ! a)) ?as" by (simp add: queue_list_def)
  have p: "linked (q_store (queue_Push q x)) (q_head (queue_Push q x)) (?as @ [length ?s]) (q_tail (queue_Push q x))"
    using linked_snoc[OF l, of "\<lparr> qi_value = x, qi_next = None \<rparr>"] by (cases "q_tail q"; cases "q_head q") (simp_all add: queue_Push_def Let_def)
  have "qi_value (q_store (queue_Push q x) ! a) = qi_value (?s ! a)" if "a \<in> set ?as" for a
    using linked_bound[OF l] that by (auto simp: queue_Push_def Let_def nth_append nth_list_update split: option.splits)
  moreover have "qi_value (q_store (queue_Push q x) ! length ?s) = x"
  proof (cases "?as = []")
    case False
    then have "last ?as < length ?s" using linked_bound[OF l] last_in_set by blast
    then show ?thesis using linked_tail[OF l] False by (simp add: queue_Push_def Let_def)
  qed (use linked_tail[OF l] in \<open>simp add: queue_Push_def Let_def\<close>)
  ultimately show "queue_inv (queue_Push q x)" "queue_list (queue_Push q x) = queue_list q @ [x]"
    using queue_invI[OF p] by (simp_all add: q)
  have pp: "linked (q_store (snd (queue_Pop q))) (q_head (snd (queue_Pop q))) (tl ?as) (q_tail (snd (queue_Pop q)))"
  proof (cases ?as)
    case (Cons a as)
    then show ?thesis using l by (cases as) (auto simp: queue_Pop_def Let_def)
  qed (use l in \<open>simp add: queue_Pop_def\<close>)
  have s: "q_store (snd (queue_Pop q)) = ?s" by (simp add: queue_Pop_def Let_def split: option.splits)
  show "queue_inv (snd (queue_Pop q))" using queue_invI(1)[OF pp] .
  show "queue_Pop q = (case queue_list q of [] \<Rightarrow> (None, snd (queue_Pop q)) | y # ys \<Rightarrow> (Some y, snd (queue_Pop q)))
      \<and> queue_list (snd (queue_Pop q)) = tl (queue_list q)"
    using queue_invI(2)[OF pp] linked_head[OF l] by (cases ?as) (auto simp: s q map_tl queue_Pop_def Let_def)
qed


text \<open>C33: The linked list is a first-in first-out queue.  As a list of values, a push appends, a pop takes the first value and reports an
  empty queue, closing changes nothing; waiting takes the first value at once when there is one, and otherwise reports the
  end exactly when the queue is closed.  All of them keep the pointers in order.\<close>

theorem queue_refines_list:
  assumes "queue_inv q"
  shows "queue_inv (queue_Push q x) \<and> queue_list (queue_Push q x) = queue_list q @ [x]
    \<and> (case queue_list q of
         [] \<Rightarrow> queue_Pop q = (None, q) \<and> queue_Wait q = (if q_closed q then Some (None, q) else None)
       | y # ys \<Rightarrow> \<exists>q'. queue_Pop q = (Some y, q') \<and> queue_Wait q = Some (Some y, q') \<and> queue_inv q' \<and> queue_list q' = ys)
    \<and> queue_inv (queue_Close q) \<and> queue_list (queue_Close q) = queue_list q"
proof -
  have h: "q_head q = None \<longleftrightarrow> queue_list q = []"
    using linked_head[of "q_store q" "q_head q" "addresses q" "q_tail q"] assms by (auto simp: queue_inv_def queue_list_def)
  have "case queue_list q of
         [] \<Rightarrow> queue_Pop q = (None, q) \<and> queue_Wait q = (if q_closed q then Some (None, q) else None)
       | y # ys \<Rightarrow> \<exists>q'. queue_Pop q = (Some y, q') \<and> queue_Wait q = Some (Some y, q') \<and> queue_inv q' \<and> queue_list q' = ys"
  proof (cases "queue_list q")
    case Nil
    then show ?thesis using h by (simp add: queue_Pop_def queue_Wait_def)
  next
    case (Cons y ys)
    then show ?thesis using h lq.pop_inv[OF assms] lq.pop_items[OF assms] by (cases "queue_Pop q") (simp add: queue_Wait_def)
  qed
  moreover have "queue_inv (queue_Close q)" "queue_list (queue_Close q) = queue_list q"
    using assms by (simp_all add: queue_list_def queue_inv_def addresses_def queue_Close_def)
  ultimately show ?thesis using lq.push_inv[OF assms] lq.push_items[OF assms] by simp
qed

theorem queue_refines_list_witness: "queue_list (queue_Push (queue_Push newQueue (3 :: nat)) 4) = [3, 4]"
proof -
  have 1: "queue_inv (queue_Push newQueue (3 :: nat)) \<and> queue_list (queue_Push newQueue (3 :: nat)) = [3]"
    using queue_refines_list[OF lq.empty_inv, of "3 :: nat"] lq.empty_items by simp
  then show ?thesis using queue_refines_list[of "queue_Push newQueue (3 :: nat)" 4] by simp
qed

end
