(* ===== verification/Lease.thy ===== *)
theory Lease
  imports Etcdserverpb Lease_Queue Log_Files
begin

text \<open>
  The lease table of \<^verbatim>\<open>src/pkg/lease/lease.go\<close>: lease records and their keys, and what the events of the log
  do to the table.  The operations that go through the storage (grant, revoke, expiry, deletion of a
  lease's keys) are in \<^verbatim>\<open>Lease_Manager\<close>.

  Times are nanoseconds (\<^verbatim>\<open>now\<close> is the clock an operation reads); a duration is a signed 64-bit number of
  nanoseconds, so the product \<^verbatim>\<open>TTL * time.Second\<close> wraps around.  The maps of the table are association
  lists, whose order is the order in which Go happens to range over them.
\<close>

subsection \<open>Lease records\<close>

definition leaseKeyPrefix :: bytes where
  "leaseKeyPrefix = InternalPrefix @ bytes_of ''lease/''"

definition leaseKey :: "int64 \<Rightarrow> key" where
  "leaseKey ident = leaseKeyPrefix @ bytes_of (hex16 ident)"

definition string_of :: "bytes \<Rightarrow> string" where
  "string_of b = map (\<lambda>x. char_of (unat x)) b"

definition parseLeaseKey :: "key \<Rightarrow> int64 option" where
  "parseLeaseKey k = (if \<not> prefix leaseKeyPrefix k then None else ParseUint16 (string_of (drop (length leaseKeyPrefix) k)))"

text \<open>
  \<^verbatim>\<open>json.Marshal\<close> and \<^verbatim>\<open>json.Unmarshal\<close> of a \<^verbatim>\<open>leaseValue\<close>.  A lease record's value is always written by
  \<^verbatim>\<open>Marshal\<close>; a document of another form is an error here.
\<close>

fun decimal_digits :: "nat \<Rightarrow> nat \<Rightarrow> string" where
  "decimal_digits 0 n = []"
| "decimal_digits (Suc fuel) n = (if n < 10 then [char_of (48 + n)] else decimal_digits fuel (n div 10) @ [char_of (48 + n mod 10)])"

definition decimal :: "int64 \<Rightarrow> string" where
  "decimal v = (if sint v < 0 then CHR ''-'' # decimal_digits 20 (nat (- sint v)) else decimal_digits 20 (nat (sint v)))"

definition digit_val :: "char \<Rightarrow> nat option" where
  "digit_val c = (let n = of_char c :: nat in if 48 \<le> n \<and> n \<le> 57 then Some (n - 48) else None)"

definition parse_digit :: "nat option \<Rightarrow> char \<Rightarrow> nat option" where
  "parse_digit acc c = (case acc of None \<Rightarrow> None | Some a \<Rightarrow> (case digit_val c of None \<Rightarrow> None | Some d \<Rightarrow> Some (a * 10 + d)))"

definition parse_nat :: "string \<Rightarrow> nat option" where
  "parse_nat s = (if s = [] \<or> hd s = CHR ''0'' \<and> length s > 1 then None else foldl parse_digit (Some 0) s)"

definition parse_int :: "string \<Rightarrow> int64 option" where
  "parse_int s =
     (if s \<noteq> [] \<and> hd s = CHR ''-''
      then case parse_nat (tl s) of None \<Rightarrow> None | Some n \<Rightarrow> if n \<le> 2 ^ 63 then Some (of_int (- int n)) else None
      else case parse_nat s of None \<Rightarrow> None | Some n \<Rightarrow> if n < 2 ^ 63 then Some (of_nat n) else None)"

definition marshal_leaseValue :: "int64 \<Rightarrow> bytes" where
  "marshal_leaseValue ttl = bytes_of (''{\"ttl\":'' @ decimal ttl @ ''}'')"

definition unmarshal_leaseValue :: "bytes \<Rightarrow> error + int64" where
  "unmarshal_leaseValue b =
     (let s = string_of b
      in if prefix ''{\"ttl\":'' s \<and> last s = CHR ''}''
         then case parse_int (butlast (drop 7 s)) of None \<Rightarrow> Inl (Errorf ''json'') | Some v \<Rightarrow> Inr v
         else Inl (Errorf ''json''))"

subsection \<open>The lease table\<close>

record Lease =
  ls_keys :: "key list"
  ls_ID :: int64
  ls_TTL :: int64
  ls_Expiration :: int

record LeaseManager =
  lm_leases :: "(int64 \<times> Lease) list"
  lm_expiring :: "(int64 \<times> bool) list"
  lm_deleteQueue :: "Lease queue"

definition NewLeaseManager :: LeaseManager where
  "NewLeaseManager = \<lparr> lm_leases = [], lm_expiring = [], lm_deleteQueue = newQueue \<rparr>"

text \<open>\<^verbatim>\<open>time.Now().Add(time.Duration(ttl) * time.Second)\<close>.\<close>

definition expiration :: "int \<Rightarrow> int64 \<Rightarrow> int" where
  "expiration now ttl = now + sint (ttl * 1000000000)"

definition HasLease :: "LeaseManager \<Rightarrow> int64 \<Rightarrow> bool" where
  "HasLease lm ident \<longleftrightarrow> map_of (lm_leases lm) ident \<noteq> None"

text \<open>Retiring a lease: it leaves the table, and its keys, if it has any, are queued for deletion.\<close>

definition retire :: "LeaseManager \<Rightarrow> int64 \<Rightarrow> LeaseManager" where
  "retire lm ident =
     (case map_of (lm_leases lm) ident of
        None \<Rightarrow> lm
      | Some l \<Rightarrow> lm \<lparr> lm_leases := AList.delete ident (lm_leases lm), lm_expiring := AList.delete ident (lm_expiring lm),
                       lm_deleteQueue := (if ls_keys l = [] then lm_deleteQueue lm else queue_Push (lm_deleteQueue lm) l) \<rparr>)"

definition onLeaseRecord :: "int \<Rightarrow> LeaseManager \<Rightarrow> int64 \<Rightarrow> Event \<Rightarrow> error + LeaseManager" where
  "onLeaseRecord now lm ident ev =
     (case ev_type ev of
        PUT \<Rightarrow>
          (case unmarshal_leaseValue (kv_value (ev_kv ev)) of
             Inl e \<Rightarrow> Inr lm
           | Inr ttl \<Rightarrow>
               let l = (case map_of (lm_leases lm) ident of Some l \<Rightarrow> l | None \<Rightarrow> \<lparr> ls_keys = [], ls_ID = ident, ls_TTL = 0, ls_Expiration = 0 \<rparr>)
               in Inr (lm \<lparr> lm_leases := AList.update ident (l \<lparr> ls_TTL := ttl, ls_Expiration := expiration now ttl \<rparr>) (lm_leases lm) \<rparr>))
      | DELETE \<Rightarrow> Inr (retire lm ident)
      | UnknownType t \<Rightarrow> Inl (Fatal ''unexpected event type''))"

definition attach_key :: "int \<Rightarrow> LeaseManager \<Rightarrow> int64 \<Rightarrow> key \<Rightarrow> LeaseManager" where
  "attach_key now lm ident k =
     (let l = (case map_of (lm_leases lm) ident of Some l \<Rightarrow> l | None \<Rightarrow> \<lparr> ls_keys = [], ls_ID = ident, ls_TTL = 0, ls_Expiration = now \<rparr>)
      in lm \<lparr> lm_leases := AList.update ident (l \<lparr> ls_keys := ls_keys l @ [k] \<rparr>) (lm_leases lm) \<rparr>)"

definition detach_key :: "LeaseManager \<Rightarrow> int64 \<Rightarrow> key \<Rightarrow> LeaseManager" where
  "detach_key lm ident k =
     (case map_of (lm_leases lm) ident of
        None \<Rightarrow> lm
      | Some l \<Rightarrow>
          let ks = remove1 k (ls_keys l)
          in lm \<lparr> lm_leases := (if ks = [] then AList.delete ident (lm_leases lm) else AList.update ident (l \<lparr> ls_keys := ks \<rparr>) (lm_leases lm)) \<rparr>)"

definition OnLogEvent :: "int \<Rightarrow> LeaseManager \<Rightarrow> Event \<Rightarrow> error + LeaseManager" where
  "OnLogEvent now lm ev =
     (case parseLeaseKey (kv_key (ev_kv ev)) of
        Some ident \<Rightarrow> onLeaseRecord now lm ident ev
      | None \<Rightarrow>
          let newLeaseID = kv_lease (ev_kv ev); oldLease = (case ev_prevKv ev of None \<Rightarrow> 0 | Some kv \<Rightarrow> kv_lease kv); k = kv_key (ev_kv ev)
          in if newLeaseID = 0 \<and> oldLease = 0 then Inr lm
             else if ev_type ev \<noteq> PUT \<and> ev_type ev \<noteq> DELETE then Inl (Fatal ''unexpected event type'')
             else let lm1 = (if newLeaseID \<noteq> 0 \<and> newLeaseID \<noteq> oldLease then attach_key now lm newLeaseID k else lm)
                  in Inr (if newLeaseID \<noteq> oldLease \<and> oldLease \<noteq> 0 then detach_key lm1 oldLease k else lm1))"

subsection \<open>Requests on the table\<close>

definition LeaseKeepAlive :: "int \<Rightarrow> LeaseManager \<Rightarrow> int64 \<Rightarrow> (error + LeaseKeepAliveResponse) \<times> LeaseManager" where
  "LeaseKeepAlive now lm ident =
     (if ident = 0 then (Inl ErrLeaseNotFound, lm)
      else case map_of (lm_leases lm) ident of
             None \<Rightarrow> (Inl ErrLeaseNotFound, lm)
           | Some l \<Rightarrow> (Inr \<lparr> kp_ID = ls_ID l, kp_TTL = ls_TTL l \<rparr>,
                        lm \<lparr> lm_leases := AList.update ident (l \<lparr> ls_Expiration := expiration now (ls_TTL l) \<rparr>) (lm_leases lm) \<rparr>))"

definition ListLeases :: "LeaseManager \<Rightarrow> int64 list" where
  "ListLeases lm = map (\<lambda>(ident, l). ls_ID l) (lm_leases lm)"

text \<open>\<^verbatim>\<open>int64(time.Until(e).Seconds())\<close>, for times less than the longest duration apart.\<close>

definition LeaseTimeToLive :: "int \<Rightarrow> LeaseManager \<Rightarrow> int64 \<Rightarrow> bool \<Rightarrow> LeaseTimeToLiveResponse" where
  "LeaseTimeToLive now lm ident keys =
     (case map_of (lm_leases lm) ident of
        None \<Rightarrow> \<lparr> lt_ID = ident, lt_TTL = -1, lt_GrantedTTL = 0, lt_Keys = [] \<rparr>
      | Some l \<Rightarrow>
          let ttl = (if ls_Expiration l < now then 0 else (ls_Expiration l - now) div 1000000000)
          in \<lparr> lt_ID = ident, lt_TTL = of_int ttl, lt_GrantedTTL = ls_TTL l, lt_Keys = (if keys then ls_keys l else []) \<rparr>)"

end
