(* ===== verification/Memory_Storage.thy ===== *)
theory Memory_Storage
  imports Bptree Lease
begin

text \<open>
  The storage of \<^verbatim>\<open>src/pkg/storage/memorystorage/memory.go\<close>: an index of revisions by key over a log, with
  the lease table and the watchers' positions.

  The log is a parameter, the record \<^verbatim>\<open>Log\<close> of the operations of the interface \<^verbatim>\<open>persistence.Log\<close> on a log's
  state.  \<^verbatim>\<open>lg_Append\<close> also gives the revisions with which the log called its listener; \<^verbatim>\<open>lg_Read\<close> the records
  it passed to a callback that always goes on.  A lookup is a function of the log's state (the file log's
  cache and indexes, which a lookup may fill, are not seen by the storage).

  A goroutine's transaction is two steps, as the locks make it: \<^verbatim>\<open>evaluate\<close> under the read lock at a
  snapshot, and \<^verbatim>\<open>commit\<close>, between which others may commit.  \<^verbatim>\<open>klog.Fatalf\<close> ends the process: the error
  \<^verbatim>\<open>Fatal\<close>.
\<close>

subsection \<open>State\<close>

type_synonym live_func = "key \<Rightarrow> revision \<Rightarrow> bool"

record 'l Log =
  lg_Append :: "'l \<Rightarrow> LogRecord \<Rightarrow> TxnMeta \<Rightarrow> (error + revision \<times> bool) \<times> revision list \<times> 'l"
  lg_GetCurrentRevision :: "'l \<Rightarrow> error + revision"
  lg_Read :: "'l \<Rightarrow> revision \<Rightarrow> error option \<times> (revision \<times> LogRecord) list"
  lg_GetLogEntry :: "'l \<Rightarrow> revision \<Rightarrow> error + LogRecord option"
  lg_Compact :: "'l \<Rightarrow> revision \<Rightarrow> live_func \<Rightarrow> error option \<times> 'l"

datatype RangeType = RangeTypeKey | RangeTypeRangeNoEnd | RangeTypeRangeNormal

record memoryWatcher =
  mw_id :: int64
  mw_req :: WatchCreateRequest
  mw_rangeType :: RangeType
  mw_watchDoneRevision :: revision
  mw_delivered :: revision
  mw_logPosition :: revision
  mw_closed :: bool

record 'l MemoryStorage =
  ms_leaseManager :: LeaseManager
  ms_revisions :: BPTree
  ms_compacted :: revision
  ms_applied :: revision
  ms_log :: 'l
  ms_watchers :: "memoryWatcher list"

record txn =
  tx_snapshotTimestamp :: revision
  tx_logEvents :: "Event list"
  tx_meta :: TxnMeta

definition OnLogEntry :: "'l MemoryStorage \<Rightarrow> revision \<Rightarrow> 'l MemoryStorage" where
  "OnLogEntry m logPosition = m \<lparr> ms_watchers := map (\<lambda>w. w \<lparr> mw_logPosition := logPosition \<rparr>) (ms_watchers m) \<rparr>"

subsection \<open>Applying the log to the index\<close>

definition apply_event :: "int \<Rightarrow> revision \<Rightarrow> 'l MemoryStorage \<Rightarrow> Event \<Rightarrow> error + 'l MemoryStorage" where
  "apply_event now r m ev =
     (case ev_type ev of
        UnknownType t \<Rightarrow> Inl (Fatal ''unknown operation'')
      | ty \<Rightarrow>
          let m' = m \<lparr> ms_revisions := AddRevision (ms_revisions m) (kv_key (ev_kv ev)) r (ty = DELETE) \<rparr>
          in case OnLogEvent now (ms_leaseManager m') ev of
               Inl e \<Rightarrow> Inl e
             | Inr lm \<Rightarrow> Inr (m' \<lparr> ms_leaseManager := lm \<rparr>))"

fun apply_events :: "int \<Rightarrow> revision \<Rightarrow> 'l MemoryStorage \<Rightarrow> Event list \<Rightarrow> error + 'l MemoryStorage" where
  "apply_events now r m [] = Inr m"
| "apply_events now r m (ev # evs) = (case apply_event now r m ev of Inl e \<Rightarrow> Inl e | Inr m' \<Rightarrow> apply_events now r m' evs)"

primrec apply_loop :: "'l Log \<Rightarrow> int \<Rightarrow> nat \<Rightarrow> 'l MemoryStorage \<Rightarrow> error option \<times> 'l MemoryStorage" where
  "apply_loop lg now 0 m = (None, m)"
| "apply_loop lg now (Suc n) m =
     (let r = ms_applied m + 1
      in case lg_GetLogEntry lg (ms_log m) r of
           Inl e \<Rightarrow> (Some (Wrap ''reading log record'' e), m)
         | Inr None \<Rightarrow> (Some (Errorf ''log record not found''), m)
         | Inr (Some record) \<Rightarrow>
             (case apply_events now r m (lr_events record) of
                Inl e \<Rightarrow> (Some e, m)
              | Inr m' \<Rightarrow> apply_loop lg now n (m' \<lparr> ms_applied := r \<rparr>)))"

definition applyUpTo :: "'l Log \<Rightarrow> int \<Rightarrow> 'l MemoryStorage \<Rightarrow> revision \<Rightarrow> error option \<times> 'l MemoryStorage" where
  "applyUpTo lg now m rv = (if rv \<le> ms_applied m then (None, m) else apply_loop lg now (unat rv - unat (ms_applied m)) m)"

fun replay_records :: "int \<Rightarrow> 'l MemoryStorage \<Rightarrow> (revision \<times> LogRecord) list \<Rightarrow> error + 'l MemoryStorage" where
  "replay_records now m [] = Inr m"
| "replay_records now m ((r, record) # rs) =
     (case apply_events now r m (lr_events record) of Inl e \<Rightarrow> Inl e | Inr m' \<Rightarrow> replay_records now m' rs)"

definition ReplayLog :: "'l Log \<Rightarrow> int \<Rightarrow> 'l MemoryStorage \<Rightarrow> error + 'l MemoryStorage" where
  "ReplayLog lg now m =
     (case lg_GetCurrentRevision lg (ms_log m) of
        Inl e \<Rightarrow> Inl (Wrap ''failed to get current revision'' e)
      | Inr currentRevision \<Rightarrow>
          if currentRevision = 0
          then case lg_Append lg (ms_log m) \<lparr> lr_events = [] \<rparr> (NewTxnMeta 0) of
                 (Inl e, ns, l) \<Rightarrow> Inl (Wrap ''failed to append dummy event'' e)
               | (Inr (newRevision, ok), ns, l) \<Rightarrow>
                   if \<not> ok then Inl (Errorf ''failed to append dummy event'')
                   else if newRevision \<noteq> 1 then Inl (Errorf ''expected revision 1'')
                   else Inr (foldl OnLogEntry (m \<lparr> ms_log := l, ms_applied := newRevision \<rparr>) ns)
          else case lg_Read lg (ms_log m) 1 of
                 (err, records) \<Rightarrow>
                   (case replay_records now m records of
                      Inl e \<Rightarrow> Inl e
                    | Inr m' \<Rightarrow>
                        (case err of
                           Some e \<Rightarrow> Inl (Wrap ''failed to read log records'' e)
                         | None \<Rightarrow> Inr (m' \<lparr> ms_applied := currentRevision \<rparr>))))"

definition empty_storage :: "'l \<Rightarrow> 'l MemoryStorage" where
  "empty_storage l = \<lparr> ms_leaseManager = NewLeaseManager, ms_revisions = empty_BPTree, ms_compacted = 0, ms_applied = 0,
     ms_log = l, ms_watchers = [] \<rparr>"

definition NewMemoryStorage :: "'l Log \<Rightarrow> int \<Rightarrow> 'l \<Rightarrow> error + 'l MemoryStorage" where
  "NewMemoryStorage lg now l =
     (case ReplayLog lg now (empty_storage l) of
        Inl e \<Rightarrow> Inl (Wrap ''failed to replay log on startup'' e)
      | Inr m \<Rightarrow> Inr m)"

definition ForceReplayLog :: "'l Log \<Rightarrow> int \<Rightarrow> 'l MemoryStorage \<Rightarrow> error + 'l MemoryStorage" where
  "ForceReplayLog lg now m = ReplayLog lg now (m \<lparr> ms_revisions := empty_BPTree, ms_applied := 0 \<rparr>)"

subsection \<open>Operations at a snapshot\<close>

definition findEvent :: "LogRecord \<Rightarrow> key \<Rightarrow> Event option" where
  "findEvent logEntry k = List.find (\<lambda>ev. kv_key (ev_kv ev) = k) (lr_events logEntry)"

text \<open>
  The event that last wrote a key at or below a revision, looked up the way compares, puts and deletes do
  it: a record or an event that is missing ends the process.
\<close>

definition existing_event :: "'l Log \<Rightarrow> 'l MemoryStorage \<Rightarrow> key \<Rightarrow> revision \<Rightarrow> error + Event" where
  "existing_event lg m k existingRevision =
     (case lg_GetLogEntry lg (ms_log m) existingRevision of
        Inl e \<Rightarrow> Inl (Fatal ''log entry not found'')
      | Inr None \<Rightarrow> Inl (Fatal ''log entry not found'')
      | Inr (Some logEntry) \<Rightarrow>
          (case findEvent logEntry k of None \<Rightarrow> Inl (Fatal ''prevKv not found'') | Some ev \<Rightarrow> Inr ev))"

definition txn_put :: "'l Log \<Rightarrow> 'l MemoryStorage \<Rightarrow> txn \<Rightarrow> PutRequest \<Rightarrow> error + PutResponse \<times> txn" where
  "txn_put lg m t req =
     (let k = the_bytes (pr_Key req)
      in if pr_Lease req \<noteq> 0 \<and> \<not> HasLease (ms_leaseManager m) (pr_Lease req) then Inl ErrLeaseNotFound
         else case (case GetLatestRevisionByKey (ms_revisions m) k (tx_snapshotTimestamp t) of
                      None \<Rightarrow> Inr None
                    | Some existingRevision \<Rightarrow>
                        (case existing_event lg m k existingRevision of
                           Inl e \<Rightarrow> Inl e
                         | Inr prevEvent \<Rightarrow>
                             (case ev_type prevEvent of
                                PUT \<Rightarrow> Inr (Some (ev_kv prevEvent))
                              | DELETE \<Rightarrow> Inr None
                              | UnknownType ty \<Rightarrow> Inl (Fatal ''unknown operation'')))) of
                Inl e \<Rightarrow> Inl e
              | Inr prevKv \<Rightarrow>
                  let newRevision = tx_snapshotTimestamp t + 1;
                      newKV = \<lparr> kv_key = k, kv_createRevision = (case prevKv of Some p \<Rightarrow> kv_createRevision p | None \<Rightarrow> newRevision),
                                kv_modRevision = newRevision, kv_version = (case prevKv of Some p \<Rightarrow> kv_version p + 1 | None \<Rightarrow> 1),
                                kv_value = pr_Value req, kv_lease = pr_Lease req \<rparr>;
                      event = \<lparr> ev_type = PUT, ev_kv = newKV, ev_prevKv = prevKv \<rparr>
                  in Inr (\<lparr> pp_Header = None, pp_PrevKv = (if pr_PrevKv req then prevKv else None) \<rparr>,
                          t \<lparr> tx_logEvents := tx_logEvents t @ [event], tx_meta := AddWrite (tx_meta t) k \<rparr>))"

definition checkReadRevision :: "'l MemoryStorage \<Rightarrow> revision \<Rightarrow> revision \<Rightarrow> error option" where
  "checkReadRevision m requested current =
     (if requested < ms_compacted m then Some (Wrap ''requested revision is below the compacted revision'' ErrCompacted)
      else if current < requested then Some (Wrap ''requested revision is beyond the current revision'' ErrFutureRev)
      else None)"

text \<open>The revision a range request reads at.\<close>

definition read_revision :: "'l MemoryStorage \<Rightarrow> txn \<Rightarrow> RangeRequest \<Rightarrow> error + revision" where
  "read_revision m t req =
     (if 0 < sint (rr_Revision req)
      then case checkReadRevision m (rr_Revision req) (tx_snapshotTimestamp t) of Some e \<Rightarrow> Inl e | None \<Rightarrow> Inr (rr_Revision req)
      else Inr (tx_snapshotTimestamp t))"

definition copyWithoutValue :: "KeyValue \<Rightarrow> KeyValue" where
  "copyWithoutValue kv = kv \<lparr> kv_value := [] \<rparr>"

definition txn_get :: "'l Log \<Rightarrow> 'l MemoryStorage \<Rightarrow> txn \<Rightarrow> RangeRequest \<Rightarrow> error + RangeResponse" where
  "txn_get lg m t req =
     (case rr_Key req of
        None \<Rightarrow> Inl (Errorf ''key is required by Get'')
      | Some k \<Rightarrow>
          if rr_RangeEnd req \<noteq> None then Inl (Errorf ''range end is not supported by Get'')
          else case read_revision m t req of
                 Inl e \<Rightarrow> Inl e
               | Inr snapshotTimestamp \<Rightarrow>
                   if rr_CountOnly req then Inl (Errorf ''count only is not supported by Get'')
                   else let resp = \<lparr> rp_Header = Some (createHeader snapshotTimestamp), rp_Kvs = [], rp_More = False, rp_Count = 0 \<rparr>
                        in case GetLatestRevisionByKey (ms_revisions m) k snapshotTimestamp of
                             None \<Rightarrow> Inr resp
                           | Some latestRevision \<Rightarrow>
                               (case lg_GetLogEntry lg (ms_log m) latestRevision of
                                  Inl e \<Rightarrow> Inl (Wrap ''failed to get log entry'' e)
                                | Inr None \<Rightarrow> Inl (Fatal ''log entry not found'')
                                | Inr (Some logEntry) \<Rightarrow>
                                    (case findEvent logEntry k of
                                       None \<Rightarrow> Inl (Fatal ''key not found in log entry'')
                                     | Some event \<Rightarrow>
                                         (case ev_type event of
                                            PUT \<Rightarrow> Inr (resp \<lparr> rp_Kvs := [if rr_KeysOnly req then copyWithoutValue (ev_kv event) else ev_kv event],
                                                              rp_Count := 1, rp_More := (rr_Limit req = 1) \<rparr>)
                                          | DELETE \<Rightarrow> Inr resp
                                          | UnknownType ty \<Rightarrow> Inl (Panic ''unknown operation'')))))"

definition txn_delete :: "'l Log \<Rightarrow> 'l MemoryStorage \<Rightarrow> txn \<Rightarrow> DeleteRangeRequest \<Rightarrow> error + DeleteRangeResponse \<times> txn" where
  "txn_delete lg m t req =
     (if dr_RangeEnd req \<noteq> None then Inl (Errorf ''range end is not yet supported by Delete'')
      else let k = the_bytes (dr_Key req)
           in case GetLatestRevisionByKey (ms_revisions m) k (tx_snapshotTimestamp t) of
                None \<Rightarrow> Inr (\<lparr> dp_Header = Some (createHeader (tx_snapshotTimestamp t)), dp_Deleted = 0 \<rparr>, t)
              | Some latestRevision \<Rightarrow>
                  (case existing_event lg m k latestRevision of
                     Inl e \<Rightarrow> Inl e
                   | Inr oldEvent \<Rightarrow>
                       if ev_type oldEvent \<noteq> PUT then Inl (Fatal ''old event is not a PUT'')
                       else let event = \<lparr> ev_type = DELETE,
                                          ev_kv = \<lparr> kv_key = k, kv_createRevision = 0, kv_modRevision = tx_snapshotTimestamp t + 1,
                                                    kv_version = 0, kv_value = [], kv_lease = 0 \<rparr>,
                                          ev_prevKv = Some (ev_kv oldEvent) \<rparr>
                            in Inr (\<lparr> dp_Header = None, dp_Deleted = 1 \<rparr>,
                                    t \<lparr> tx_logEvents := tx_logEvents t @ [event], tx_meta := AddWrite (tx_meta t) k \<rparr>)))"

text \<open>The events of one record in a listing; the result says whether to go on.\<close>

fun list_events :: "RangeRequest \<Rightarrow> Event list \<Rightarrow> RangeResponse \<Rightarrow> RangeResponse \<times> bool" where
  "list_events req [] resp = (resp, True)"
| "list_events req (ev # evs) resp =
     (let resp' = (if ev_type ev = PUT
                   then if rr_CountOnly req then resp \<lparr> rp_Count := rp_Count resp + 1 \<rparr>
                        else resp \<lparr> rp_Count := rp_Count resp + 1,
                                    rp_Kvs := rp_Kvs resp @ [if rr_KeysOnly req then copyWithoutValue (ev_kv ev) else ev_kv ev] \<rparr>
                   else resp)
      in if 0 < sint (rr_Limit req) \<and> sint (rr_Limit req) \<le> sint (rp_Count resp') then (resp' \<lparr> rp_More := True \<rparr>, False)
         else list_events req evs resp')"

definition latest_at :: "revision list \<Rightarrow> revision \<Rightarrow> revision option" where
  "latest_at revisions at = foldl (\<lambda>latest r. if r \<le> at then Some r else latest) None revisions"

definition list_key :: "'l Log \<Rightarrow> 'l MemoryStorage \<Rightarrow> RangeRequest \<Rightarrow> revision \<Rightarrow> key \<Rightarrow> revision list
    \<Rightarrow> error + RangeResponse \<Rightarrow> (error + RangeResponse) \<times> bool" where
  "list_key lg m req snapshotTimestamp k revisions acc =
     (case acc of
        Inl e \<Rightarrow> (Inl e, False)
      | Inr resp \<Rightarrow>
          if rr_RangeEnd req \<noteq> Some [0] \<and> the_bytes (rr_RangeEnd req) \<le> k then (Inr resp, False)
          else if IsInternalKey k then (Inr resp, True)
          else case latest_at revisions snapshotTimestamp of
                 None \<Rightarrow> (Inr resp, True)
               | Some latest \<Rightarrow>
                   (case lg_GetLogEntry lg (ms_log m) latest of
                      Inl e \<Rightarrow> (Inl (Wrap ''failed to get log entry'' e), False)
                    | Inr None \<Rightarrow> (Inl (Fatal ''log entry not found''), False)
                    | Inr (Some logEntry) \<Rightarrow> (case list_events req (lr_events logEntry) resp of (resp', go) \<Rightarrow> (Inr resp', go))))"

definition txn_list :: "'l Log \<Rightarrow> 'l MemoryStorage \<Rightarrow> txn \<Rightarrow> RangeRequest \<Rightarrow> error + RangeResponse" where
  "txn_list lg m t req =
     (if rr_RangeEnd req = None then Inl (Errorf ''range end is required by List'')
      else case read_revision m t req of
             Inl e \<Rightarrow> Inl e
           | Inr snapshotTimestamp \<Rightarrow>
               ListRevisionsByKeyRange (ms_revisions m) (the_bytes (rr_Key req)) snapshotTimestamp
                 (list_key lg m req snapshotTimestamp)
                 (Inr \<lparr> rp_Header = Some (createHeader snapshotTimestamp), rp_Kvs = [], rp_More = False, rp_Count = 0 \<rparr>))"

subsection \<open>Transactions\<close>

definition compare_equal :: "CompareResult \<Rightarrow> bool \<Rightarrow> error + bool" where
  "compare_equal res equal = (case res of Compare_EQUAL \<Rightarrow> Inr (\<not> equal) | _ \<Rightarrow> Inl (Errorf ''unsupported compare result''))"

text \<open>One condition: whether it fails.\<close>

definition check_target :: "CompareCond \<Rightarrow> Event option \<Rightarrow> error + bool" where
  "check_target cond prevEvent =
     (let live = (case prevEvent of Some ev \<Rightarrow> if ev_type ev = DELETE then None else Some (ev_kv ev) | None \<Rightarrow> None)
      in case cc_Target cond of
           Compare_MOD \<Rightarrow>
             (case cc_TargetUnion cond of
                Union_ModRevision target \<Rightarrow> compare_equal (cc_Result cond) ((case live of Some kv \<Rightarrow> kv_modRevision kv | None \<Rightarrow> 0) = target)
              | _ \<Rightarrow> Inl (Errorf ''unsupported target''))
         | Compare_VERSION \<Rightarrow>
             (case cc_TargetUnion cond of
                Union_Version target \<Rightarrow> compare_equal (cc_Result cond) ((case live of Some kv \<Rightarrow> kv_version kv | None \<Rightarrow> 0) = target)
              | _ \<Rightarrow> Inl (Errorf ''unsupported target''))
         | Compare_LEASE \<Rightarrow>
             (case cc_TargetUnion cond of
                Union_Lease target \<Rightarrow> compare_equal (cc_Result cond) ((case live of Some kv \<Rightarrow> kv_lease kv | None \<Rightarrow> 0) = target)
              | _ \<Rightarrow> Inl (Errorf ''unsupported target''))
         | _ \<Rightarrow> Inl (Errorf ''unsupported compare target''))"

fun check_compares :: "'l Log \<Rightarrow> 'l MemoryStorage \<Rightarrow> txn \<Rightarrow> bool \<Rightarrow> CompareCond list \<Rightarrow> error + bool \<times> txn" where
  "check_compares lg m t failed [] = Inr (failed, t)"
| "check_compares lg m t failed (cond # conds) =
     (let k = the_bytes (cc_Key cond); existing = GetLatestRevisionByKey (ms_revisions m) k (tx_snapshotTimestamp t);
          t' = t \<lparr> tx_meta := AddRead (tx_meta t) k (case existing of Some r \<Rightarrow> r | None \<Rightarrow> 0) \<rparr>
      in case (case existing of None \<Rightarrow> Inr None | Some r \<Rightarrow> (case existing_event lg m k r of Inl e \<Rightarrow> Inl e | Inr ev \<Rightarrow> Inr (Some ev))) of
           Inl e \<Rightarrow> Inl e
         | Inr prevEvent \<Rightarrow>
             (case check_target cond prevEvent of
                Inl e \<Rightarrow> Inl e
              | Inr f \<Rightarrow> check_compares lg m t' (failed \<or> f) conds))"

definition run_op :: "'l Log \<Rightarrow> 'l MemoryStorage \<Rightarrow> txn \<Rightarrow> RequestOp \<Rightarrow> error + ResponseOp \<times> txn" where
  "run_op lg m t oper =
     (case oper of
        RequestPut req \<Rightarrow> (case txn_put lg m t req of Inl e \<Rightarrow> Inl e | Inr (resp, t') \<Rightarrow> Inr (ResponsePut resp, t'))
      | RequestDeleteRange req \<Rightarrow> (case txn_delete lg m t req of Inl e \<Rightarrow> Inl e | Inr (resp, t') \<Rightarrow> Inr (ResponseDeleteRange resp, t'))
      | RequestRange req \<Rightarrow>
          if rr_RangeEnd req = None
          then case txn_get lg m t req of
                 Inl e \<Rightarrow> Inl e
               | Inr resp \<Rightarrow>
                   let k = the_bytes (rr_Key req);
                       readRevision = (case GetLatestRevisionByKey (ms_revisions m) k (tx_snapshotTimestamp t) of Some r \<Rightarrow> r | None \<Rightarrow> 0)
                   in Inr (ResponseRange resp, t \<lparr> tx_meta := AddRead (tx_meta t) k readRevision \<rparr>)
          else (case txn_list lg m t req of
                  Inl e \<Rightarrow> Inl e
                | Inr resp \<Rightarrow> Inr (ResponseRange resp, t \<lparr> tx_meta := AddList (tx_meta t) \<rparr>))
      | RequestOther \<Rightarrow> Inl (Errorf ''unsupported operation''))"

fun run_ops :: "'l Log \<Rightarrow> 'l MemoryStorage \<Rightarrow> txn \<Rightarrow> RequestOp list \<Rightarrow> error + ResponseOp list \<times> txn" where
  "run_ops lg m t [] = Inr ([], t)"
| "run_ops lg m t (oper # ops) =
     (case run_op lg m t oper of
        Inl e \<Rightarrow> Inl e
      | Inr (resp, t') \<Rightarrow> (case run_ops lg m t' ops of Inl e \<Rightarrow> Inl e | Inr (resps, t'') \<Rightarrow> Inr (resp # resps, t'')))"

definition new_txn :: "revision \<Rightarrow> txn" where
  "new_txn snapshotTimestamp = \<lparr> tx_snapshotTimestamp = snapshotTimestamp, tx_logEvents = [], tx_meta = NewTxnMeta snapshotTimestamp \<rparr>"

definition evaluate :: "'l Log \<Rightarrow> 'l MemoryStorage \<Rightarrow> TxnRequest \<Rightarrow> revision \<Rightarrow> error + TxnResponse \<times> txn" where
  "evaluate lg m req snapshotTimestamp =
     (case check_compares lg m (new_txn snapshotTimestamp) False (tr_Compare req) of
        Inl e \<Rightarrow> Inl e
      | Inr (conditionsFailed, t) \<Rightarrow>
          (case run_ops lg m t (if conditionsFailed then tr_Failure req else tr_Success req) of
             Inl e \<Rightarrow> Inl e
           | Inr (resps, t') \<Rightarrow>
               Inr (\<lparr> tp_Header = createHeader snapshotTimestamp, tp_Succeeded = (\<not> conditionsFailed), tp_Responses = resps \<rparr>, t')))"

definition set_header :: "ResponseHeader \<Rightarrow> ResponseOp \<Rightarrow> ResponseOp" where
  "set_header h resp =
     (case resp of
        ResponsePut r \<Rightarrow> ResponsePut (r \<lparr> pp_Header := Some h \<rparr>)
      | ResponseDeleteRange r \<Rightarrow> ResponseDeleteRange (r \<lparr> dp_Header := Some h \<rparr>)
      | ResponseRange r \<Rightarrow> ResponseRange (r \<lparr> rp_Header := Some h \<rparr>))"

definition commit :: "'l Log \<Rightarrow> int \<Rightarrow> 'l MemoryStorage \<Rightarrow> txn \<Rightarrow> TxnResponse \<Rightarrow> (error + TxnResponse \<times> bool) \<times> 'l MemoryStorage" where
  "commit lg now m t resp =
     (if tx_logEvents t = [] then (Inr (resp, True), m)
      else case lg_Append lg (ms_log m) \<lparr> lr_events = tx_logEvents t \<rparr> (tx_meta t) of
             (res, ns, l) \<Rightarrow>
               let m1 = foldl OnLogEntry (m \<lparr> ms_log := l \<rparr>) ns
               in case res of
                    Inl e \<Rightarrow> (Inl (Wrap ''failed to append to log'' e), m1)
                  | Inr (newLogRevision, False) \<Rightarrow> (Inr (resp, False), m1)
                  | Inr (newLogRevision, True) \<Rightarrow>
                      (case applyUpTo lg now m1 newLogRevision of
                         (Some e, m2) \<Rightarrow> (Inl e, m2)
                       | (None, m2) \<Rightarrow>
                           let h = (tp_Header resp) \<lparr> hd_Revision := newLogRevision \<rparr>
                           in (Inr (resp \<lparr> tp_Header := h, tp_Responses := map (set_header h) (tp_Responses resp) \<rparr>, True), m2)))"

definition tryTxn :: "'l Log \<Rightarrow> int \<Rightarrow> 'l MemoryStorage \<Rightarrow> TxnRequest \<Rightarrow> (error + TxnResponse \<times> bool) \<times> 'l MemoryStorage" where
  "tryTxn lg now m req =
     (case lg_GetCurrentRevision lg (ms_log m) of
        Inl e \<Rightarrow> (Inl (Wrap ''failed to get current revision'' e), m)
      | Inr snapshotTimestamp \<Rightarrow>
          (case applyUpTo lg now m snapshotTimestamp of
             (Some e, m1) \<Rightarrow> (Inl e, m1)
           | (None, m1) \<Rightarrow>
               (case evaluate lg m1 req snapshotTimestamp of
                  Inl e \<Rightarrow> (Inl e, m1)
                | Inr (resp, t) \<Rightarrow> commit lg now m1 t resp)))"

definition maxTxnAttempts :: nat where "maxTxnAttempts = 64"

primrec txn_attempts :: "'l Log \<Rightarrow> int \<Rightarrow> nat \<Rightarrow> 'l MemoryStorage \<Rightarrow> TxnRequest \<Rightarrow> (error + TxnResponse) \<times> 'l MemoryStorage" where
  "txn_attempts lg now 0 m req = (Inl (Errorf ''transaction conflicted with concurrent writes''), m)"
| "txn_attempts lg now (Suc n) m req =
     (case tryTxn lg now m req of
        (Inl e, m') \<Rightarrow> (Inl e, m')
      | (Inr (resp, True), m') \<Rightarrow> (Inr resp, m')
      | (Inr (resp, False), m') \<Rightarrow> txn_attempts lg now n m' req)"

definition Txn :: "'l Log \<Rightarrow> int \<Rightarrow> 'l MemoryStorage \<Rightarrow> TxnRequest \<Rightarrow> (error + TxnResponse) \<times> 'l MemoryStorage" where
  "Txn lg now m req = txn_attempts lg now maxTxnAttempts m req"

definition Put :: "'l Log \<Rightarrow> int \<Rightarrow> 'l MemoryStorage \<Rightarrow> PutRequest \<Rightarrow> (error + PutResponse) \<times> 'l MemoryStorage" where
  "Put lg now m req =
     (case Txn lg now m \<lparr> tr_Compare = [], tr_Success = [RequestPut req], tr_Failure = [] \<rparr> of
        (Inl e, m') \<Rightarrow> (Inl e, m')
      | (Inr resp, m') \<Rightarrow>
          ((case tp_Responses resp of
              ResponsePut r # rs \<Rightarrow> Inr (r \<lparr> pp_Header := Some (tp_Header resp) \<rparr>)
            | [] \<Rightarrow> Inl (Panic ''index out of range'')
            | _ \<Rightarrow> Inl (Errorf ''expected put response'')), m'))"

definition range_txn :: "'l Log \<Rightarrow> int \<Rightarrow> 'l MemoryStorage \<Rightarrow> RangeRequest \<Rightarrow> (error + RangeResponse) \<times> 'l MemoryStorage" where
  "range_txn lg now m req =
     (case Txn lg now m \<lparr> tr_Compare = [], tr_Success = [RequestRange req], tr_Failure = [] \<rparr> of
        (Inl e, m') \<Rightarrow> (Inl e, m')
      | (Inr resp, m') \<Rightarrow>
          ((case tp_Responses resp of
              ResponseRange r # rs \<Rightarrow> Inr (r \<lparr> rp_Header := Some (tp_Header resp) \<rparr>)
            | [] \<Rightarrow> Inl (Panic ''index out of range'')
            | _ \<Rightarrow> Inl (Errorf ''expected range response'')), m'))"

definition Get :: "'l Log \<Rightarrow> int \<Rightarrow> 'l MemoryStorage \<Rightarrow> RangeRequest \<Rightarrow> (error + RangeResponse) \<times> 'l MemoryStorage" where
  "Get lg now m req = range_txn lg now m req"

definition List :: "'l Log \<Rightarrow> int \<Rightarrow> 'l MemoryStorage \<Rightarrow> RangeRequest \<Rightarrow> (error + RangeResponse) \<times> 'l MemoryStorage" where
  "List lg now m req = range_txn lg now m req"

definition Delete :: "'l Log \<Rightarrow> int \<Rightarrow> 'l MemoryStorage \<Rightarrow> DeleteRangeRequest \<Rightarrow> (error + DeleteRangeResponse) \<times> 'l MemoryStorage" where
  "Delete lg now m req =
     (case Txn lg now m \<lparr> tr_Compare = [], tr_Success = [RequestDeleteRange req], tr_Failure = [] \<rparr> of
        (Inl e, m') \<Rightarrow> (Inl e, m')
      | (Inr resp, m') \<Rightarrow>
          ((case tp_Responses resp of
              ResponseDeleteRange r # rs \<Rightarrow> Inr (r \<lparr> dp_Header := Some (tp_Header resp) \<rparr>)
            | [] \<Rightarrow> Inl (Panic ''index out of range'')
            | _ \<Rightarrow> Inl (Errorf ''expected delete response'')), m'))"

subsection \<open>Compaction and the rest\<close>

definition watched_through :: "memoryWatcher list \<Rightarrow> revision \<Rightarrow> revision" where
  "watched_through ws through = foldl (\<lambda>thr w. if mw_closed w then thr else if mw_delivered w < thr then mw_delivered w else thr) through ws"

text \<open>
  \<^verbatim>\<open>Compact\<close>: the revision compacted to, and whether the log's compaction through it was started.  That
  compaction, \<^verbatim>\<open>compact_log\<close>, runs in the background, with the index as it is then.
\<close>

definition Compact :: "'l MemoryStorage \<Rightarrow> revision \<Rightarrow> (revision \<times> bool) \<times> 'l MemoryStorage" where
  "Compact m revision =
     (let through = watched_through (ms_watchers m) (if ms_applied m < revision then ms_applied m else revision)
      in if through \<le> ms_compacted m then ((ms_compacted m, False), m)
         else case Bptree.Compact (ms_revisions m) through of
                (t, keysRemoved, revisionsDropped) \<Rightarrow> ((through, True), m \<lparr> ms_revisions := t, ms_compacted := through \<rparr>))"

definition live_record :: "'l MemoryStorage \<Rightarrow> revision \<Rightarrow> live_func" where
  "live_record m through k rv \<longleftrightarrow> GetLatestRevisionByKey (ms_revisions m) k through = Some rv"

definition compact_log :: "'l Log \<Rightarrow> 'l MemoryStorage \<Rightarrow> revision \<Rightarrow> error option \<times> 'l MemoryStorage" where
  "compact_log lg m through = (case lg_Compact lg (ms_log m) through (live_record m through) of (e, l) \<Rightarrow> (e, m \<lparr> ms_log := l \<rparr>))"

definition close_watcher :: "memoryWatcher \<Rightarrow> memoryWatcher" where
  "close_watcher w = w \<lparr> mw_closed := True \<rparr>"

definition GracefulStop :: "'l MemoryStorage \<Rightarrow> 'l MemoryStorage" where
  "GracefulStop m = m \<lparr> ms_watchers := map close_watcher (ms_watchers m) \<rparr>"

definition Status :: "'l Log \<Rightarrow> 'l MemoryStorage \<Rightarrow> error + ResponseHeader \<times> string" where
  "Status lg m = (case lg_GetCurrentRevision lg (ms_log m) of Inl e \<Rightarrow> Inl e | Inr r \<Rightarrow> Inr (createHeader r, ''3.5.21''))"

end
