(* ===== verification/Storage_Spec.thy ===== *)
theory Storage_Spec
  imports Memory_Storage Batch
begin

text \<open>
  What the storage promises, over the history its log holds.  \<^verbatim>\<open>kv_at h n k\<close> is the value of \<^verbatim>\<open>k\<close> as of revision
  \<^verbatim>\<open>n\<close>: the pair that the last record at or below \<^verbatim>\<open>n\<close> that touches \<^verbatim>\<open>k\<close> put, if it is a put.
\<close>

definition record_ok :: "LogRecord \<Rightarrow> bool" where
  "record_ok r \<longleftrightarrow> distinct (map (\<lambda>ev. kv_key (ev_kv ev)) (lr_events r)) \<and> (\<forall>ev \<in> set (lr_events r). ev_type ev = PUT \<or> ev_type ev = DELETE)"

definition event_at :: "history \<Rightarrow> nat \<Rightarrow> key \<Rightarrow> Event option" where
  "event_at h n k = (if n = 0 then None else findEvent (h ! (n - 1)) k)"

definition deleted_at :: "history \<Rightarrow> nat \<Rightarrow> key \<Rightarrow> bool" where
  "deleted_at h n k = (case event_at h n k of Some ev \<Rightarrow> ev_type ev = DELETE | None \<Rightarrow> False)"

definition kv_at :: "history \<Rightarrow> nat \<Rightarrow> key \<Rightarrow> KeyValue option" where
  "kv_at h n k = (case event_at h (last_write (take n h) k) k of Some ev \<Rightarrow> if ev_type ev = PUT then Some (ev_kv ev) else None | None \<Rightarrow> None)"

subsection \<open>The index and the history\<close>

text \<open>
  \<^verbatim>\<open>index_ok t h a c\<close>: the index \<^verbatim>\<open>t\<close> has the records up to revision \<^verbatim>\<open>a\<close>, and answers lookups at revisions from \<^verbatim>\<open>c\<close>
  on with the key's last write, except that a key whose last write is a delete at or below \<^verbatim>\<open>c\<close> may be gone.
\<close>

definition lookup_ok :: "history \<Rightarrow> nat \<Rightarrow> key \<Rightarrow> nat \<Rightarrow> revision option \<Rightarrow> bool" where
  "lookup_ok h c k n res \<longleftrightarrow> res = (if n = 0 then None else Some (of_nat n)) \<or> res = None \<and> 0 < n \<and> n \<le> c \<and> deleted_at h n k"

definition index_ok :: "BPTree \<Rightarrow> history \<Rightarrow> nat \<Rightarrow> nat \<Rightarrow> bool" where
  "index_ok t h a c \<longleftrightarrow> bt_inv t
     \<and> (\<forall>k. \<forall>r \<in> set (revs_of (bt_map t) k). 1 \<le> unat r \<and> unat r \<le> a)
     \<and> (\<forall>k rs tb. bt_map t k = Some (rs, tb) \<longrightarrow> (tb \<longleftrightarrow> deleted_at h (unat (last rs)) k))
     \<and> (\<forall>k at. c \<le> unat at \<longrightarrow> lookup_ok h c k (last_write (take (min (unat at) a) h) k) (GetLatestRevisionByKey t k at))"

text \<open>
  The records the storage still looks up: those above the compacted revision \<^verbatim>\<open>c\<close>, and each key's latest one at \<^verbatim>\<open>c\<close>
  that the index has.  \<^verbatim>\<open>holds l h K\<close> says that the log \<^verbatim>\<open>l\<close> has committed the history \<^verbatim>\<open>h\<close> and can read back the
  revisions \<^verbatim>\<open>K\<close> of it.
\<close>

definition needed :: "BPTree \<Rightarrow> revision \<Rightarrow> revision \<Rightarrow> bool" where
  "needed t c r \<longleftrightarrow> c < r \<or> (\<exists>k. GetLatestRevisionByKey t k c = Some r)"

definition storage_inv :: "('l \<Rightarrow> history \<Rightarrow> revision set \<Rightarrow> bool) \<Rightarrow> 'l MemoryStorage \<Rightarrow> history \<Rightarrow> revision set \<Rightarrow> bool" where
  "storage_inv holds m h K \<longleftrightarrow> index_ok (ms_revisions m) h (unat (ms_applied m)) (unat (ms_compacted m))
     \<and> unat (ms_compacted m) \<le> unat (ms_applied m) \<and> unat (ms_applied m) \<le> length h
     \<and> (\<forall>r \<in> set h. record_ok r) \<and> holds (ms_log m) h K
     \<and> (\<forall>r. needed (ms_revisions m) (ms_compacted m) r \<and> unat r \<le> length h \<longrightarrow> r \<in> K)"

lemma findEvent_touches: "findEvent r k = None \<longleftrightarrow> \<not> touches k r"
  by (auto simp: findEvent_def touches_def find_None_iff list_ex_iff)

lemma findEvent_SomeD: "findEvent r k = Some ev \<Longrightarrow> ev \<in> set (lr_events r) \<and> kv_key (ev_kv ev) = k"
  by (auto simp: findEvent_def find_Some_iff)

text \<open>The index after the events of one record.\<close>

definition add_events :: "revision \<Rightarrow> Event list \<Rightarrow> BPTree \<Rightarrow> BPTree" where
  "add_events r evs t = foldl (\<lambda>t ev. AddRevision t (kv_key (ev_kv ev)) r (ev_type ev = DELETE)) t evs"

lemma add_events_ok:
  assumes "bt_inv t" and "\<forall>k. \<forall>r' \<in> set (revs_of (bt_map t) k). r' \<le> r" and "distinct (map (\<lambda>ev. kv_key (ev_kv ev)) evs)"
  shows "bt_inv (add_events r evs t)
    \<and> (\<forall>k. bt_map (add_events r evs t) k =
         (case List.find (\<lambda>ev. kv_key (ev_kv ev) = k) evs of
            Some ev \<Rightarrow> Some (revs_of (bt_map t) k @ [r], ev_type ev = DELETE) | None \<Rightarrow> bt_map t k))"
  using assms
proof (induction evs arbitrary: t)
  case (Cons ev evs)
  let ?k = "kv_key (ev_kv ev)" and ?t = "AddRevision t (kv_key (ev_kv ev)) r (ev_type ev = DELETE)"
  have m: "bt_map ?t = (bt_map t)(?k \<mapsto> (revs_of (bt_map t) ?k @ [r], ev_type ev = DELETE))"
    by (rule bt_map_AddRevision[OF Cons.prems(1)])
  have inv: "bt_inv ?t" using Cons.prems(1,2) by (intro bt_inv_AddRevision) auto
  have le: "\<forall>k. \<forall>r' \<in> set (revs_of (bt_map ?t) k). r' \<le> r" using Cons.prems(2) by (simp add: m revs_of_def)
  have IH: "bt_inv (add_events r evs ?t)"
    "bt_map (add_events r evs ?t) k = (case List.find (\<lambda>ev. kv_key (ev_kv ev) = k) evs of
            Some ev \<Rightarrow> Some (revs_of (bt_map ?t) k @ [r], ev_type ev = DELETE) | None \<Rightarrow> bt_map ?t k)" for k
    using Cons.IH[OF inv le] Cons.prems(3) by auto
  have none: "List.find (\<lambda>ev. kv_key (ev_kv ev) = ?k) evs = None" using Cons.prems(3) by (auto simp: find_None_iff image_iff)
  have "bt_map (add_events r evs ?t) k = (case List.find (\<lambda>ev. kv_key (ev_kv ev) = k) (ev # evs) of
            Some ev \<Rightarrow> Some (revs_of (bt_map t) k @ [r], ev_type ev = DELETE) | None \<Rightarrow> bt_map t k)" for k
    using none by (cases "k = ?k") (simp_all add: IH(2) m revs_of_def split: option.splits)
  then show ?case using IH(1) by (simp add: add_events_def)
qed (simp add: add_events_def)

lemma apply_events_ok:
  assumes "\<forall>ev \<in> set evs. ev_type ev = PUT \<or> ev_type ev = DELETE"
  shows "\<exists>lm. apply_events now r m evs = Inr (m \<lparr> ms_revisions := add_events r evs (ms_revisions m), ms_leaseManager := lm \<rparr>)"
  using assms
proof (induction evs arbitrary: m)
  case Nil
  show ?case by (rule exI[of _ "ms_leaseManager m"]) (simp add: add_events_def)
next
  case (Cons ev evs)
  have "\<exists>lm. OnLogEvent now lm0 ev = Inr lm" for lm0
    using Cons.prems by (auto simp: OnLogEvent_def onLeaseRecord_def Let_def split: option.splits sum.splits EventType.splits)
  then obtain lm where "OnLogEvent now (ms_leaseManager m) ev = Inr lm" by blast
  then have "apply_event now r m ev
      = Inr (m \<lparr> ms_revisions := AddRevision (ms_revisions m) (kv_key (ev_kv ev)) r (ev_type ev = DELETE), ms_leaseManager := lm \<rparr>)"
    using Cons.prems by (auto simp: apply_event_def Let_def split: EventType.splits)
  moreover obtain lm' where "apply_events now r (m \<lparr> ms_revisions := AddRevision (ms_revisions m) (kv_key (ev_kv ev)) r (ev_type ev = DELETE), ms_leaseManager := lm \<rparr>) evs
      = Inr (m \<lparr> ms_revisions := add_events r (ev # evs) (ms_revisions m), ms_leaseManager := lm' \<rparr>)"
    using Cons.IH[of "m \<lparr> ms_revisions := AddRevision (ms_revisions m) (kv_key (ev_kv ev)) r (ev_type ev = DELETE), ms_leaseManager := lm \<rparr>"] Cons.prems
    by (auto simp: add_events_def)
  ultimately show ?case by (intro exI[of _ lm']) simp
qed

lemma revs_of_bound:
  assumes "index_ok t h a c" and "a < unat r" and "r' \<in> set (revs_of (bt_map t) k)"
  shows "r' \<le> r"
proof -
  have "unat r' \<le> a" using assms(1,3) unfolding index_ok_def by blast
  then show ?thesis using assms(2) by (simp add: word_le_nat_alt)
qed

lemma touches_find: "(List.find (\<lambda>ev. kv_key (ev_kv ev) = k) (lr_events r)) = findEvent r k"
  by (simp add: findEvent_def)

lemma event_at_take: "0 < n \<Longrightarrow> n \<le> length h \<Longrightarrow> event_at h n k = findEvent (h ! (n - 1)) k"
  by (simp add: event_at_def)

lemma last_write_take_Suc:
  "a < length h \<Longrightarrow> last_write (take (Suc a) h) k = (if touches k (h ! a) then Suc a else last_write (take a h) k)"
  by (simp add: take_Suc_conv_app_nth last_write_snoc)

text \<open>Applying the record at revision \<^verbatim>\<open>a + 1\<close> brings the index to \<^verbatim>\<open>a + 1\<close>.\<close>

lemma index_ok_apply:
  assumes ok: "index_ok t h a c" and a: "a < length h" "c \<le> a" and rv: "unat r = Suc a" and r_ok: "record_ok (h ! a)"
  shows "index_ok (add_events r (lr_events (h ! a)) t) h (Suc a) c"
proof -
  let ?t = "add_events r (lr_events (h ! a)) t"
  have ar: "a < unat r" using rv by simp
  have le: "\<forall>k. \<forall>r' \<in> set (revs_of (bt_map t) k). r' \<le> r" using revs_of_bound[OF ok ar] by blast
  have inv: "bt_inv t" using ok by (simp add: index_ok_def)
  have A: "bt_inv ?t" "bt_map ?t k = (case findEvent (h ! a) k of
            Some ev \<Rightarrow> Some (revs_of (bt_map t) k @ [r], ev_type ev = DELETE) | None \<Rightarrow> bt_map t k)" for k
    using add_events_ok[OF inv le, of "lr_events (h ! a)"] r_ok by (simp_all add: record_ok_def touches_find)
  have revs: "revs_of (bt_map ?t) k = revs_of (bt_map t) k @ (if touches k (h ! a) then [r] else [])" for k
    using findEvent_touches[of "h ! a" k] by (auto simp: revs_of_def A(2) split: option.splits)
  have bounds: "1 \<le> unat r' \<and> unat r' \<le> Suc a" if "r' \<in> set (revs_of (bt_map ?t) k)" for k r'
    using that ok rv by (auto simp: revs index_ok_def split: if_splits intro: le_SucI)
  have flags: "tb \<longleftrightarrow> deleted_at h (unat (last rs)) k" if "bt_map ?t k = Some (rs, tb)" for k rs tb
  proof (cases "findEvent (h ! a) k")
    case None
    then show ?thesis using that ok unfolding index_ok_def A(2) by simp
  next
    case (Some ev)
    then show ?thesis using that rv by (auto simp: A(2) deleted_at_def event_at_def)
  qed
  have look: "lookup_ok h c k (last_write (take (min (unat at) (Suc a)) h) k) (GetLatestRevisionByKey ?t k at)" if at: "c \<le> unat at" for k at
  proof -
    have old: "lookup_ok h c k (last_write (take (min (unat at) a) h) k) (GetLatestRevisionByKey t k at)" using ok at by (simp add: index_ok_def)
    have g: "GetLatestRevisionByKey ?t k at = (if touches k (h ! a) \<and> r \<le> at then Some r else GetLatestRevisionByKey t k at)"
      by (simp add: GetLatest_revs[OF A(1)] GetLatest_revs[OF inv] revs scan_back_append scan_back_def)
    show ?thesis
    proof (cases "r \<le> at")
      case True
      then have m: "min (unat at) (Suc a) = Suc a" "min (unat at) a = a" using rv by (auto simp: word_le_nat_alt)
      have "of_nat (Suc a) = r" using rv by (metis of_nat_unat ucast_id)
      then show ?thesis using old True unfolding g m last_write_take_Suc[OF a(1)] lookup_ok_def by (auto split: if_splits)
    next
      case False
      then have m: "min (unat at) (Suc a) = unat at" "min (unat at) a = unat at" using rv by (auto simp: word_le_nat_alt)
      show ?thesis using old False by (simp add: g m)
    qed
  qed
  show ?thesis using A(1) bounds flags look by (simp add: index_ok_def)
qed


lemma removed_compact_value:
  assumes inv: "bt_inv t"
  shows "bt_map (fst (Bptree.Compact t th)) k = Some (rs, tb) \<Longrightarrow> \<exists>rs0. bt_map t k = Some (rs0, tb) \<and> set rs \<subseteq> set rs0 \<and> last rs = last rs0"
proof -
  assume "bt_map (fst (Bptree.Compact t th)) k = Some (rs, tb)"
  then obtain rs0 d where b: "bt_map t k = Some (rs0, tb)" and c: "compactRevisions rs0 tb th = (rs, d, False)"
    by (auto simp: bt_map_Compact[OF inv] compact_value_def split: option.splits prod.splits if_splits)
  have s: "rs0 \<noteq> []" "sorted rs0" using bpt.contents_sorted[OF inv b] by auto
  obtain pre where pre: "rs0 = pre @ rs" using compactRevisions_kept[OF s(2,1) c] by metis
  have "rs \<noteq> []" using c s(1) go_search_le[of "length rs0" "\<lambda>i. th < rs0 ! i"] by (auto simp: compactRevisions_def Let_def split: if_splits)
  then show ?thesis using b pre by auto
qed

lemma index_ok_Compact:
  assumes ok: "index_ok t h a c" and th: "c \<le> unat th" "unat th \<le> a"
  shows "index_ok (fst (Bptree.Compact t th)) h a (unat th)"
proof -
  let ?t = "fst (Bptree.Compact t th)"
  have inv: "bt_inv t" using ok by (simp add: index_ok_def)
  have bounds: "1 \<le> unat r' \<and> unat r' \<le> a" if r': "r' \<in> set (revs_of (bt_map ?t) k)" for k r'
  proof -
    obtain rs tb where rs: "bt_map ?t k = Some (rs, tb)" "r' \<in> set rs" using r' by (cases "bt_map ?t k") (auto simp: revs_of_def)
    then obtain rs0 where "bt_map t k = Some (rs0, tb)" "r' \<in> set rs0" using removed_compact_value[OF inv rs(1)] by auto
    then have "r' \<in> set (revs_of (bt_map t) k)" by (simp add: revs_of_def)
    then show ?thesis using ok unfolding index_ok_def by blast
  qed
  have flags: "tb \<longleftrightarrow> deleted_at h (unat (last rs)) k" if rs: "bt_map ?t k = Some (rs, tb)" for k rs tb
  proof -
    obtain rs0 where "bt_map t k = Some (rs0, tb)" "last rs = last rs0" using removed_compact_value[OF inv rs] by auto
    then show ?thesis using ok unfolding index_ok_def by auto
  qed
  have look: "lookup_ok h (unat th) k (last_write (take (min (unat at) a) h) k) (GetLatestRevisionByKey ?t k at)" if at: "unat th \<le> unat at" for k at
  proof -
    have old: "lookup_ok h c k (last_write (take (min (unat at) a) h) k) (GetLatestRevisionByKey t k at)" using ok at th by (simp add: index_ok_def)
    have g: "GetLatestRevisionByKey ?t k at = (if removed th (bt_map t k) then None else GetLatestRevisionByKey t k at)"
      using bpt.latest_compact[OF inv, of th at k] at by (simp add: word_le_nat_alt)
    show ?thesis
    proof (cases "removed th (bt_map t k)")
      case True
      then obtain rs where rs: "bt_map t k = Some (rs, True)" "last rs \<le> th" by (auto simp: removed_def split: option.splits)
      have s: "rs \<noteq> []" "sorted rs" using bpt.contents_sorted[OF inv rs(1)] by auto
      have max: "r' \<le> last rs" if "r' \<in> set rs" for r' using that s by (induction rs rule: rev_induct) (auto simp: sorted_append)
      have "GetLatestRevisionByKey t k at = Some (last rs)"
        using s max rs at by (auto simp: GetLatest_revs[OF inv] revs_of_def scan_back_Some word_le_nat_alt)
      moreover have "deleted_at h (unat (last rs)) k" using ok rs(1) unfolding index_ok_def by blast
      moreover have "1 \<le> unat (last rs)" 
      proof -
        have "last rs \<in> set (revs_of (bt_map t) k)" using rs(1) s(1) by (simp add: revs_of_def)
        then show ?thesis using ok unfolding index_ok_def by blast
      qed
      moreover have "unat (of_nat n :: revision) = n" if "n \<le> unat at" for n
        using that by (metis le_unat_uoi)
      moreover have "last_write (take (min (unat at) a) h) k \<le> unat at" using last_write_le[of "take (min (unat at) a) h" k] by simp
      ultimately show ?thesis using True old rs(2) unfolding g lookup_ok_def by (auto simp: word_le_nat_alt split: if_splits)
    next
      case False
      then show ?thesis using old th unfolding g lookup_ok_def by auto
    qed
  qed
  show ?thesis using bt_inv_Compact[OF inv] bounds flags look by (simp add: index_ok_def)
qed


lemma last_write_touches: "last_write h k = n \<Longrightarrow> 0 < n \<Longrightarrow> touches k (h ! (n - 1))"
proof (induction h rule: rev_induct)
  case (snoc x h)
  then show ?case using last_write_le[of h k] by (auto simp: nth_append split: if_splits)
qed simp

lemma needed_latest:
  assumes "bt_inv t" and "c \<le> at" and "GetLatestRevisionByKey t k at = Some r"
  shows "needed t c r"
proof (cases "c < r")
  case False
  have "GetLatestRevisionByKey t k c = Some r"
    using assms False unfolding bpt.latest_iff[OF assms(1)] by (meson le_less_linear order_trans)
  then show ?thesis by (auto simp: needed_def)
qed (simp add: needed_def)

text \<open>A lookup at a revision that is applied and not compacted away: the record that made the key what it is there.\<close>

lemma lookup_cases [consumes 3, case_names gone found]:
  assumes inv: "storage_inv holds m h K" and at: "ms_compacted m \<le> at" "at \<le> ms_applied m"
  obtains (gone) "GetLatestRevisionByKey (ms_revisions m) k at = None" "kv_at h (unat at) k = None"
    | (found) r ev where "GetLatestRevisionByKey (ms_revisions m) k at = Some r" "r \<in> K" "unat r = last_write (take (unat at) h) k"
        "findEvent (h ! (unat r - 1)) k = Some ev" "ev_type ev = PUT \<or> ev_type ev = DELETE"
        "kv_at h (unat at) k = (if ev_type ev = PUT then Some (ev_kv ev) else None)"
proof -
  define n where "n = last_write (take (unat at) h) k"
  have ok: "index_ok (ms_revisions m) h (unat (ms_applied m)) (unat (ms_compacted m))" and la: "unat (ms_applied m) \<le> length h"
    and need: "\<And>r. needed (ms_revisions m) (ms_compacted m) r \<Longrightarrow> unat r \<le> length h \<Longrightarrow> r \<in> K"
    and recs: "\<forall>r \<in> set h. record_ok r" using inv by (auto simp: storage_inv_def)
  have bt: "bt_inv (ms_revisions m)" using ok by (simp add: index_ok_def)
  have "min (unat at) (unat (ms_applied m)) = unat at" using at by (simp add: word_le_nat_alt)
  then have look: "lookup_ok h (unat (ms_compacted m)) k n (GetLatestRevisionByKey (ms_revisions m) k at)"
    using ok at(1) unfolding index_ok_def n_def word_le_nat_alt by metis
  have n: "n \<le> unat at" using last_write_le[of "take (unat at) h" k] by (simp add: n_def)
  have nl: "n \<le> length h" using n at la by (simp add: word_le_nat_alt)
  show thesis
  proof (cases "GetLatestRevisionByKey (ms_revisions m) k at")
    case None
    then have "n = 0 \<or> deleted_at h n k" using look by (auto simp: lookup_ok_def split: if_splits)
    then have "kv_at h (unat at) k = None"
      unfolding kv_at_def n_def[symmetric] deleted_at_def by (cases "event_at h n k") (auto simp: event_at_def)
    then show thesis using gone None by blast
  next
    case (Some r)
    then have r: "r = of_nat n" "0 < n" using look by (auto simp: lookup_ok_def split: if_splits)
    have un: "unat r = n" using r(1) n by (metis le_unat_uoi)
    have t: "touches k (h ! (n - 1))"
      using last_write_touches[OF n_def[symmetric] r(2)] r(2) n by simp
    then obtain ev where ev: "findEvent (h ! (n - 1)) k = Some ev" using findEvent_touches[of "h ! (n - 1)" k] by auto
    have "h ! (n - 1) \<in> set h" using nl r(2) by (intro nth_mem) simp
    then have ty: "ev_type ev = PUT \<or> ev_type ev = DELETE"
      using recs findEvent_SomeD[OF ev] by (auto simp: record_ok_def)
    have kv: "kv_at h (unat at) k = (if ev_type ev = PUT then Some (ev_kv ev) else None)"
      using ev r(2) by (simp add: kv_at_def n_def[symmetric] event_at_def)
    show thesis
      by (rule found[OF Some need[OF needed_latest[OF bt at(1) Some]] _ _ ty kv]) (use un nl ev n_def in simp_all)
  qed
qed


lemma needed_add:
  assumes ok: "index_ok t h a (unat c)" and c: "unat c \<le> a" and r: "unat r = Suc a" and rec: "record_ok (h ! a)"
    and n: "needed (add_events r (lr_events (h ! a)) t) c r'"
  shows "needed t c r'"
proof -
  have inv: "bt_inv t" using ok by (simp add: index_ok_def)
  have le: "\<forall>k. \<forall>r' \<in> set (revs_of (bt_map t) k). r' \<le> r" using revs_of_bound[OF ok] r by simp
  let ?t = "add_events r (lr_events (h ! a)) t"
  have A: "bt_inv ?t" "bt_map ?t k = (case findEvent (h ! a) k of
            Some ev \<Rightarrow> Some (revs_of (bt_map t) k @ [r], ev_type ev = DELETE) | None \<Rightarrow> bt_map t k)" for k
    using add_events_ok[OF inv le, of "lr_events (h ! a)"] rec by (simp_all add: record_ok_def touches_find)
  have "\<not> r \<le> c" using r c by (simp add: word_le_nat_alt)
  then have "GetLatestRevisionByKey ?t k c = GetLatestRevisionByKey t k c" for k
    using A(2)[of k] by (auto simp: GetLatest_revs[OF A(1)] GetLatest_revs[OF inv] revs_of_def scan_back_append scan_back_def split: option.splits)
  then show ?thesis using n by (simp add: needed_def)
qed

lemma index_ok_empty: "index_ok empty_BPTree h 0 c"
proof -
  have "revs_of (bt_map empty_BPTree) k = []" for k by (simp add: bpt.contents_empty revs_of_def)
  moreover have "lookup_ok h c k 0 (GetLatestRevisionByKey empty_BPTree k at)" for k at by (simp add: lookup_ok_def bpt.latest_empty)
  ultimately show ?thesis by (simp add: index_ok_def bpt.inv_empty bpt.contents_empty)
qed

lemma empty_BPTree_lookup [simp]: "GetLatestRevisionByKey empty_BPTree k at = None"
  by (rule bpt.latest_empty)

lemma kv_at_append: "n \<le> length h \<Longrightarrow> kv_at (h @ h') n k = kv_at h n k"
proof -
  assume n: "n \<le> length h"
  have "event_at (h @ h') (last_write (take n h) k) k = event_at h (last_write (take n h) k) k"
    using last_write_le[of "take n h" k] n by (cases "last_write (take n h) k") (simp_all add: event_at_def nth_append)
  then show ?thesis using n by (simp add: kv_at_def)
qed

lemma kv_at_snoc:
  "kv_at (h @ [rec]) (Suc (length h)) k = (case findEvent rec k of
     None \<Rightarrow> kv_at h (length h) k | Some ev \<Rightarrow> if ev_type ev = PUT then Some (ev_kv ev) else None)"
proof (cases "findEvent rec k")
  case None
  then have "\<not> touches k rec" by (simp add: findEvent_touches)
  moreover have "event_at (h @ [rec]) (last_write h k) k = event_at h (last_write h k) k"
    using last_write_le[of h k] by (cases "last_write h k") (simp_all add: event_at_def nth_append)
  ultimately show ?thesis using None by (simp add: kv_at_def)
next
  case (Some ev)
  then have "touches k rec" using findEvent_touches[of rec k] by auto
  then show ?thesis using Some by (simp add: kv_at_def event_at_def)
qed

subsection \<open>What the storage needs of its log\<close>

text \<open>
  The answer to a point read: the pair as of the requested revision, or as of the snapshot when none is requested; an
  error for a revision that is compacted away or that does not exist yet.
\<close>

definition get_response :: "RangeRequest \<Rightarrow> ResponseHeader \<Rightarrow> KeyValue option \<Rightarrow> RangeResponse" where
  "get_response req hdr v =
     (case v of
        None \<Rightarrow> \<lparr> rp_Header = Some hdr, rp_Kvs = [], rp_More = False, rp_Count = 0 \<rparr>
      | Some kv \<Rightarrow> \<lparr> rp_Header = Some hdr, rp_Kvs = [if rr_KeysOnly req then copyWithoutValue kv else kv],
                     rp_More = (rr_Limit req = 1), rp_Count = 1 \<rparr>)"

definition get_spec :: "history \<Rightarrow> revision \<Rightarrow> RangeRequest \<Rightarrow> key \<Rightarrow> revision \<Rightarrow> error + RangeResponse" where
  "get_spec h c req k s =
     (if 0 < sint (rr_Revision req) \<and> rr_Revision req < c then Inl (Wrap ''requested revision is below the compacted revision'' ErrCompacted)
      else if 0 < sint (rr_Revision req) \<and> s < rr_Revision req then Inl (Wrap ''requested revision is beyond the current revision'' ErrFutureRev)
      else let at = (if 0 < sint (rr_Revision req) then rr_Revision req else s)
           in Inr (get_response req (createHeader at) (kv_at h (unat at) k)))"

text \<open>A transaction that read, for every key, the last write there is, at a snapshot that is the whole history.\<close>

definition up_to_date :: "history \<Rightarrow> TxnMeta \<Rightarrow> bool" where
  "up_to_date h meta \<longleftrightarrow> unat (tm_snapshotRevision meta) = length h \<and> (\<forall>(k, r) \<in> set (tm_readSet meta). last_write h k \<le> unat r)"

lemma up_to_date_meta [simp]:
  "up_to_date h (NewTxnMeta s) \<longleftrightarrow> unat s = length h" "up_to_date h (AddWrite meta k) = up_to_date h meta"
  "up_to_date h (AddList meta) = up_to_date h meta"
  by (simp_all add: up_to_date_def NewTxnMeta_def AddWrite_def AddList_def)

text \<open>The transaction's write set has the keys of its record.\<close>

definition records_writes :: "LogRecord \<Rightarrow> TxnMeta \<Rightarrow> bool" where
  "records_writes rec meta \<longleftrightarrow> (\<forall>k. touches k rec \<longleftrightarrow> k \<in> writes meta)"

lemma restamp_same:
  assumes "\<forall>ev \<in> set (lr_events rec). kv_modRevision (ev_kv ev) = r \<and> (ev_type ev = PUT \<or> ev_type ev = DELETE)"
  shows "restamp r rec = rec"
proof -
  have "restamp_event r ev = ev" if "ev \<in> set (lr_events rec)" for ev
    using assms that by (cases ev, cases "ev_kv ev") (auto simp: restamp_event_def Let_def)
  then have "map (restamp_event r) (lr_events rec) = lr_events rec" by (simp add: map_idI)
  then show ?thesis by (simp add: restamp_def)
qed

lemma foldl_OnLogEntry: "\<exists>ws. foldl OnLogEntry m ns = m \<lparr> ms_watchers := ws \<rparr>"
proof (induction ns arbitrary: m)
  case Nil
  show ?case by (rule exI[of _ "ms_watchers m"]) simp
next
  case (Cons n ns)
  obtain ws where "foldl OnLogEntry (OnLogEntry m n) ns = (OnLogEntry m n) \<lparr> ms_watchers := ws \<rparr>" using Cons.IH by blast
  moreover have "(OnLogEntry m n) \<lparr> ms_watchers := ws \<rparr> = m \<lparr> ms_watchers := ws \<rparr>" by (simp add: OnLogEntry_def)
  ultimately show ?case by auto
qed

lemma foldl_OnLogEntry_simps [simp]:
  "ms_applied (foldl OnLogEntry m ns) = ms_applied m" "ms_compacted (foldl OnLogEntry m ns) = ms_compacted m"
  "ms_revisions (foldl OnLogEntry m ns) = ms_revisions m" "ms_log (foldl OnLogEntry m ns) = ms_log m"
  "ms_leaseManager (foldl OnLogEntry m ns) = ms_leaseManager m"
  using foldl_OnLogEntry[of m ns] by auto

lemma foldl_OnLogEntry_watchers [simp]: "ms_watchers (foldl OnLogEntry m ns) = [] \<longleftrightarrow> ms_watchers m = []"
  by (induction ns arbitrary: m) (simp_all add: OnLogEntry_def)

lemma index_ok_append:
  assumes ok: "index_ok t h a c" and a: "a \<le> length h"
  shows "index_ok t (h @ h') a c"
proof -
  have e: "event_at (h @ h') n k = event_at h n k" if "n \<le> length h" for n k using that by (cases n) (simp_all add: event_at_def nth_append)
  have d: "deleted_at (h @ h') n k = deleted_at h n k" if "n \<le> length h" for n k using e[OF that] by (simp add: deleted_at_def)
  have inv: "bt_inv t" and b: "\<And>k r. r \<in> set (revs_of (bt_map t) k) \<Longrightarrow> 1 \<le> unat r \<and> unat r \<le> a"
    and f: "\<And>k rs tb. bt_map t k = Some (rs, tb) \<Longrightarrow> tb \<longleftrightarrow> deleted_at h (unat (last rs)) k"
    and l: "\<And>k at. c \<le> unat at \<Longrightarrow> lookup_ok h c k (last_write (take (min (unat at) a) h) k) (GetLatestRevisionByKey t k at)"
    using ok unfolding index_ok_def by blast+
  have f': "tb \<longleftrightarrow> deleted_at (h @ h') (unat (last rs)) k" if rs: "bt_map t k = Some (rs, tb)" for k rs tb
  proof -
    have "rs \<noteq> []" using bpt.contents_sorted[OF inv rs] by simp
    then have "last rs \<in> set (revs_of (bt_map t) k)" using rs by (simp add: revs_of_def)
    then show ?thesis using f[OF rs] b a d by (meson le_trans)
  qed
  have l': "lookup_ok (h @ h') c k (last_write (take (min (unat at) a) (h @ h')) k) (GetLatestRevisionByKey t k at)" if "c \<le> unat at" for k at
  proof -
    have tk: "take (min (unat at) a) (h @ h') = take (min (unat at) a) h" using a by simp
    have "last_write (take (min (unat at) a) h) k \<le> length h" using last_write_le[of "take (min (unat at) a) h" k] by simp
    then show ?thesis using l[OF that, of k] unfolding tk lookup_ok_def by (simp add: d)
  qed
  show ?thesis unfolding index_ok_def using inv b f' l' by blast
qed

lemma storage_inv_extend:
  assumes inv: "storage_inv holds m h K" and hl: "holds l (h @ [rec]) (insert r K)" and rec: "record_ok rec" and r: "unat r = Suc (length h)"
  shows "storage_inv holds (foldl OnLogEntry (m \<lparr> ms_log := l \<rparr>) ns) (h @ [rec]) (insert r K)"
proof -
  have i: "index_ok (ms_revisions m) h (unat (ms_applied m)) (unat (ms_compacted m))" "unat (ms_applied m) \<le> length h"
    and need: "\<And>r. needed (ms_revisions m) (ms_compacted m) r \<Longrightarrow> unat r \<le> length h \<Longrightarrow> r \<in> K"
    using inv by (auto simp: storage_inv_def)
  have "r' \<in> insert r K" if "needed (ms_revisions m) (ms_compacted m) r'" "unat r' \<le> Suc (length h)" for r'
    using that need[OF that(1)] r by (cases "unat r' = Suc (length h)") (auto simp: word_unat_eq_iff)
  then show ?thesis using inv index_ok_append[OF i, of "[rec]"] hl rec by (auto simp: storage_inv_def)
qed

text \<open>The record of a put on the history \<^verbatim>\<open>h\<close>: the key keeps its creation revision and its version goes up.\<close>

definition put_record :: "history \<Rightarrow> PutRequest \<Rightarrow> LogRecord" where
  "put_record h req =
     (let k = the_bytes (pr_Key req); r = of_nat (Suc (length h)); prev = kv_at h (length h) k
      in \<lparr> lr_events = [\<lparr> ev_type = PUT,
             ev_kv = \<lparr> kv_key = k, kv_createRevision = (case prev of Some p \<Rightarrow> kv_createRevision p | None \<Rightarrow> r), kv_modRevision = r,
                       kv_version = (case prev of Some p \<Rightarrow> kv_version p + 1 | None \<Rightarrow> 1), kv_value = pr_Value req, kv_lease = pr_Lease req \<rparr>,
             ev_prevKv = prev \<rparr>] \<rparr>)"

definition delete_record :: "history \<Rightarrow> key \<Rightarrow> KeyValue \<Rightarrow> LogRecord" where
  "delete_record h k kv =
     \<lparr> lr_events = [\<lparr> ev_type = DELETE,
         ev_kv = \<lparr> kv_key = k, kv_createRevision = 0, kv_modRevision = of_nat (Suc (length h)), kv_version = 0, kv_value = [], kv_lease = 0 \<rparr>,
         ev_prevKv = Some kv \<rparr>] \<rparr>"

lemma watched_through_le: "watched_through ws th \<le> th"
  unfolding watched_through_def
proof (induction ws arbitrary: th)
  case (Cons w ws)
  show ?case using Cons[of th] Cons[of "mw_delivered w"] by (auto intro: order_trans)
qed simp

lemma needed_compact:
  assumes inv: "bt_inv t" and le: "c \<le> th" and n: "needed (fst (Bptree.Compact t th)) th r"
  shows "needed t c r"
proof (cases "th < r")
  case True
  then show ?thesis using le_less_trans[OF le] by (simp add: needed_def)
next
  case False
  then obtain k where "GetLatestRevisionByKey (fst (Bptree.Compact t th)) k th = Some r" using n by (auto simp: needed_def)
  then have "GetLatestRevisionByKey t k th = Some r" using bpt.latest_compact[OF inv, of th th k] by (simp split: if_splits)
  then show ?thesis by (rule needed_latest[OF inv le])
qed

lemma new_txn_simps [simp]:
  "tx_logEvents (new_txn s) = []" "tx_snapshotTimestamp (new_txn s) = s" "tx_meta (new_txn s) = NewTxnMeta s"
  by (simp_all add: new_txn_def)

lemma Txn_try:
  "Txn lg now m req =
     (case tryTxn lg now m req of
        (Inl e, m') \<Rightarrow> (Inl e, m')
      | (Inr (resp, True), m') \<Rightarrow> (Inr resp, m')
      | (Inr (resp, False), m') \<Rightarrow> txn_attempts lg now 63 m' req)"
proof -
  have e: "maxTxnAttempts = Suc 63" by (simp add: maxTxnAttempts_def)
  show ?thesis unfolding Txn_def e txn_attempts.simps ..
qed

locale storage_log =
  fixes lg :: "'l Log" and holds :: "'l \<Rightarrow> history \<Rightarrow> revision set \<Rightarrow> bool" and storable :: "LogRecord \<Rightarrow> bool"
  assumes bound: "holds l h K \<Longrightarrow> Suc (length h) < 2 ^ 63"
    and current: "holds l h K \<Longrightarrow> lg_GetCurrentRevision lg l = Inr (of_nat (length h))"
    and entry: "holds l h K \<Longrightarrow> r \<in> K \<Longrightarrow> lg_GetLogEntry lg l r = Inr (Some (h ! (unat r - 1)))"
    and append: "holds l h K \<Longrightarrow> Suc (Suc (length h)) < 2 ^ 63 \<Longrightarrow> \<forall>q. storable (restamp q rec) \<Longrightarrow> meta_wf meta \<Longrightarrow> records_writes rec meta
      \<Longrightarrow> \<exists>ns l'. lg_Append lg l rec meta = (Inr (of_nat (Suc (length h)), True), ns, l')
              \<and> holds l' (h @ [restamp (of_nat (Suc (length h))) rec]) (insert (of_nat (Suc (length h))) K)
          \<or> lg_Append lg l rec meta = (Inr (0, False), ns, l') \<and> holds l' h K \<and> \<not> up_to_date h meta"
begin

lemma apply_loop_ok:
  "storage_inv holds m h K \<Longrightarrow> unat (ms_applied m) + n \<le> length h
   \<Longrightarrow> \<exists>t lm m'. apply_loop lg now n m = (None, m') \<and> storage_inv holds m' h K
         \<and> m' = m \<lparr> ms_revisions := t, ms_leaseManager := lm, ms_applied := ms_applied m + of_nat n \<rparr>"
proof (induction n arbitrary: m)
  case 0
  then show ?case by (intro exI[of _ "ms_revisions m"] exI[of _ "ms_leaseManager m"]) simp
next
  case (Suc n)
  let ?a = "unat (ms_applied m)" and ?r = "ms_applied m + 1"
  have i: "index_ok (ms_revisions m) h ?a (unat (ms_compacted m))" "unat (ms_compacted m) \<le> ?a" "holds (ms_log m) h K"
    and recs: "\<forall>r \<in> set h. record_ok r"
    and need: "\<And>r. needed (ms_revisions m) (ms_compacted m) r \<Longrightarrow> unat r \<le> length h \<Longrightarrow> r \<in> K"
    using Suc.prems(1) by (auto simp: storage_inv_def)
  have a: "?a < length h" using Suc.prems(2) by simp
  have r: "unat ?r = Suc ?a" using a bound[OF i(3)] unat_Suc64[of "ms_applied m"] by simp
  have cr: "ms_compacted m < ?r" using r i(2) by (simp add: word_less_nat_alt)
  have rK: "?r \<in> K" using need[of ?r] a r cr by (simp add: needed_def)
  then have g: "lg_GetLogEntry lg (ms_log m) ?r = Inr (Some (h ! ?a))" using entry[OF i(3) rK] r by simp
  have rec: "record_ok (h ! ?a)" using recs a by simp
  obtain lm where ap: "apply_events now ?r m (lr_events (h ! ?a))
      = Inr (m \<lparr> ms_revisions := add_events ?r (lr_events (h ! ?a)) (ms_revisions m), ms_leaseManager := lm \<rparr>)"
    using apply_events_ok[of "lr_events (h ! ?a)" now ?r m] rec by (auto simp: record_ok_def)
  define m1 where "m1 = m \<lparr> ms_revisions := add_events ?r (lr_events (h ! ?a)) (ms_revisions m), ms_leaseManager := lm, ms_applied := ?r \<rparr>"
  have ok1: "index_ok (ms_revisions m1) h (unat (ms_applied m1)) (unat (ms_compacted m1))"
    using index_ok_apply[OF i(1) a i(2) r rec] r by (simp add: m1_def)
  have "storage_inv holds m1 h K"
    using Suc.prems ok1 i recs r needed_add[OF i(1) i(2) r rec] need by (auto simp: storage_inv_def m1_def)
  moreover have "unat (ms_applied m1) + n \<le> length h" using Suc.prems(2) r by (simp add: m1_def)
  ultimately obtain t lm' m' where m': "apply_loop lg now n m1 = (None, m')" "storage_inv holds m' h K"
    "m' = m1 \<lparr> ms_revisions := t, ms_leaseManager := lm', ms_applied := ms_applied m1 + of_nat n \<rparr>"
    using Suc.IH by blast
  have "apply_loop lg now (Suc n) m = (None, m')" using g ap m'(1) by (simp add: Let_def m1_def)
  moreover have "m' = m \<lparr> ms_revisions := t, ms_leaseManager := lm', ms_applied := ms_applied m + of_nat (Suc n) \<rparr>"
    using m'(3) by (simp add: m1_def add.assoc)
  ultimately show ?case using m'(2) by blast
qed

lemma applyUpTo_ok:
  assumes inv: "storage_inv holds m h K" and rv: "unat rv \<le> length h"
  obtains t lm m' where "applyUpTo lg now m rv = (None, m')" "storage_inv holds m' h K"
    "m' = m \<lparr> ms_revisions := t, ms_leaseManager := lm, ms_applied := max (ms_applied m) rv \<rparr>"
proof (cases "rv \<le> ms_applied m")
  case True
  show thesis by (rule that[where m' = m and t = "ms_revisions m" and lm = "ms_leaseManager m"]) (use True inv in \<open>simp_all add: applyUpTo_def max_def\<close>)
next
  case False
  then have lt: "unat (ms_applied m) < unat rv" by (simp add: word_le_nat_alt)
  have e: "ms_applied m + of_nat (unat rv - unat (ms_applied m)) = rv"
    using lt by (simp add: of_nat_diff)
  have mx: "max (ms_applied m) rv = rv" using False by (auto simp: max_def)
  obtain t lm m' where m': "apply_loop lg now (unat rv - unat (ms_applied m)) m = (None, m')" "storage_inv holds m' h K"
    "m' = m \<lparr> ms_revisions := t, ms_leaseManager := lm, ms_applied := ms_applied m + of_nat (unat rv - unat (ms_applied m)) \<rparr>"
    using apply_loop_ok[OF inv, of "unat rv - unat (ms_applied m)" now] lt rv by auto
  show thesis by (rule that[of m' lm t]) (use m' False in \<open>simp_all add: applyUpTo_def mx e\<close>)
qed

lemma latest_revision:
  assumes inv: "storage_inv holds m h K"
  obtains t lm m1 where "tryTxn lg now m req =
      (case evaluate lg m1 req (of_nat (length h)) of Inl e \<Rightarrow> (Inl e, m1) | Inr (resp, t) \<Rightarrow> commit lg now m1 t resp)"
    "storage_inv holds m1 h K" "m1 = m \<lparr> ms_revisions := t, ms_leaseManager := lm, ms_applied := of_nat (length h) \<rparr>"
    "unat (of_nat (length h) :: revision) = length h"
    "unat (ms_applied m) = length h \<longrightarrow> m1 = m"
proof -
  let ?s = "of_nat (length h) :: revision"
  have hl: "holds (ms_log m) h K" and a: "unat (ms_applied m) \<le> length h" using inv by (simp_all add: storage_inv_def)
  have s: "unat ?s = length h" using bound[OF hl] by (simp add: unat_of_nat take_bit_nat_eq_self)
  obtain t lm m1 where m1: "applyUpTo lg now m ?s = (None, m1)" "storage_inv holds m1 h K"
    "m1 = m \<lparr> ms_revisions := t, ms_leaseManager := lm, ms_applied := max (ms_applied m) ?s \<rparr>"
    using applyUpTo_ok[OF inv, of ?s now] s by (metis order_refl)
  have mx: "max (ms_applied m) ?s = ?s" using a s by (simp add: max_def word_le_nat_alt)
  have same: "unat (ms_applied m) = length h \<longrightarrow> m1 = m" using m1(1) s by (auto simp: applyUpTo_def word_le_nat_alt)
  show thesis
    by (rule that[OF _ m1(2) m1(3)[unfolded mx] s same]) (simp add: tryTxn_def current[OF hl] m1(1))
qed

lemma txn_get_ok:
  assumes inv: "storage_inv holds m h K" and a: "unat (ms_applied m) = length h" "ms_applied m = tx_snapshotTimestamp t"
    and req: "rr_Key req = Some k" "rr_RangeEnd req = None" "\<not> rr_CountOnly req"
  shows "txn_get lg m t req = get_spec h (ms_compacted m) req k (tx_snapshotTimestamp t)"
proof -
  let ?s = "tx_snapshotTimestamp t"
  have hl: "holds (ms_log m) h K" and c: "ms_compacted m \<le> ms_applied m" using inv by (simp_all add: storage_inv_def word_le_nat_alt)
  show ?thesis
  proof (cases "read_revision m t req")
    case (Inl e)
    then show ?thesis using req by (auto simp: txn_get_def get_spec_def read_revision_def checkReadRevision_def split: if_splits)
  next
    case (Inr at)
    then have at: "ms_compacted m \<le> at" "at \<le> ms_applied m" and at_def: "at = (if 0 < sint (rr_Revision req) then rr_Revision req else ?s)"
      and ne: "\<not> (0 < sint (rr_Revision req) \<and> rr_Revision req < ms_compacted m)" "\<not> (0 < sint (rr_Revision req) \<and> ?s < rr_Revision req)"
      using a(2) c by (auto simp: read_revision_def checkReadRevision_def split: if_splits)
    have sp: "get_spec h (ms_compacted m) req k ?s = Inr (get_response req (createHeader at) (kv_at h (unat at) k))"
      using ne by (auto simp: get_spec_def at_def Let_def)
    from inv at show ?thesis
    proof (cases rule: lookup_cases[where k = k])
      case gone
      then show ?thesis using req Inr unfolding sp by (simp add: txn_get_def get_response_def)
    next
      case (found r ev)
      then show ?thesis using req Inr entry[OF hl found(2)] unfolding sp by (auto simp: txn_get_def get_response_def Let_def)
    qed
  qed
qed

lemma Get_ok:
  assumes inv: "storage_inv holds m h K" and req: "rr_Key req = Some k" "rr_RangeEnd req = None" "\<not> rr_CountOnly req"
  shows "\<exists>m'. storage_inv holds m' h K \<and> Get lg now m req =
     (case get_spec h (ms_compacted m) req k (of_nat (length h)) of
        Inl e \<Rightarrow> Inl e | Inr resp \<Rightarrow> Inr (resp \<lparr> rp_Header := Some (createHeader (of_nat (length h))) \<rparr>), m')"
proof -
  let ?s = "of_nat (length h) :: revision"
  let ?req = "\<lparr> tr_Compare = [], tr_Success = [RequestRange req], tr_Failure = [] \<rparr>"
  obtain t lm m1 where tt: "tryTxn lg now m ?req =
      (case evaluate lg m1 ?req ?s of Inl e \<Rightarrow> (Inl e, m1) | Inr (resp, t) \<Rightarrow> commit lg now m1 t resp)"
    and m1: "storage_inv holds m1 h K" "m1 = m \<lparr> ms_revisions := t, ms_leaseManager := lm, ms_applied := ?s \<rparr>" and s: "unat ?s = length h"
    by (rule latest_revision[OF inv])
  have g: "txn_get lg m1 (new_txn ?s) req = get_spec h (ms_compacted m) req k ?s"
    using txn_get_ok[OF m1(1) _ _ req, of "new_txn ?s"] s by (simp add: m1(2))
  have "Get lg now m req = (case get_spec h (ms_compacted m) req k ?s of
        Inl e \<Rightarrow> Inl e | Inr resp \<Rightarrow> Inr (resp \<lparr> rp_Header := Some (createHeader ?s) \<rparr>), m1)"
    using req(2) by (cases "get_spec h (ms_compacted m) req k ?s")
      (simp_all add: Get_def range_txn_def Txn_try tt evaluate_def run_op_def g commit_def Let_def)
  then show ?thesis using m1(1) by blast
qed

lemma commit_ok:
  assumes inv: "storage_inv holds m h K" and a: "unat (ms_applied m) = length h" and b: "Suc (Suc (length h)) < 2 ^ 63"
    and rec: "tx_logEvents t \<noteq> []" "record_ok \<lparr> lr_events = tx_logEvents t \<rparr>"
      "\<forall>ev \<in> set (tx_logEvents t). kv_modRevision (ev_kv ev) = of_nat (Suc (length h))"
      "\<forall>q. storable (restamp q \<lparr> lr_events = tx_logEvents t \<rparr>)"
    and meta: "meta_wf (tx_meta t)" "records_writes \<lparr> lr_events = tx_logEvents t \<rparr> (tx_meta t)" "up_to_date h (tx_meta t)"
  obtains m' hdr where "hdr = (tp_Header resp) \<lparr> hd_Revision := of_nat (Suc (length h)) \<rparr>"
    "commit lg now m t resp = (Inr (resp \<lparr> tp_Header := hdr, tp_Responses := map (set_header hdr) (tp_Responses resp) \<rparr>, True), m')"
    "storage_inv holds m' (h @ [\<lparr> lr_events = tx_logEvents t \<rparr>]) (insert (of_nat (Suc (length h))) K)"
    "ms_applied m' = of_nat (Suc (length h))" "ms_compacted m' = ms_compacted m"
    "ms_watchers m = [] \<longrightarrow> ms_watchers m' = []"
proof -
  let ?r = "of_nat (Suc (length h)) :: revision" and ?rec = "\<lparr> lr_events = tx_logEvents t \<rparr>"
  have hl: "holds (ms_log m) h K" using inv by (simp add: storage_inv_def)
  have ur: "unat ?r = Suc (length h)" using b by (simp add: unat_of_nat take_bit_nat_eq_self del: of_nat_Suc)
  have same: "restamp ?r ?rec = ?rec" using rec(2,3) by (intro restamp_same) (auto simp: record_ok_def)
  obtain ns l' where ap: "lg_Append lg (ms_log m) ?rec (tx_meta t) = (Inr (?r, True), ns, l')"
    and hl': "holds l' (h @ [?rec]) (insert ?r K)"
    using append[OF hl b rec(4) meta(1,2)] meta(3) unfolding same by auto
  define m1 where "m1 = foldl OnLogEntry (m \<lparr> ms_log := l' \<rparr>) ns"
  have inv1: "storage_inv holds m1 (h @ [?rec]) (insert ?r K)"
    unfolding m1_def by (rule storage_inv_extend[OF inv hl' rec(2) ur])
  have sel: "ms_applied m1 = ms_applied m" "ms_compacted m1 = ms_compacted m" by (simp_all add: m1_def foldl_OnLogEntry)
  have "unat ?r \<le> length (h @ [?rec])" using ur by simp
  then obtain t' lm m' where m': "applyUpTo lg now m1 ?r = (None, m')" "storage_inv holds m' (h @ [?rec]) (insert ?r K)"
    "m' = m1 \<lparr> ms_revisions := t', ms_leaseManager := lm, ms_applied := max (ms_applied m1) ?r \<rparr>"
    by (rule applyUpTo_ok[OF inv1])
  have mx: "max (ms_applied m1) ?r = ?r" using ur a by (simp add: max_def sel word_le_nat_alt del: of_nat_Suc)
  show thesis
    by (rule that[OF refl _ m'(2)]) (use rec(1) in \<open>simp_all add: commit_def ap m1_def[symmetric] m'(1) Let_def m'(3) mx sel(2) del: of_nat_Suc, simp_all add: m1_def\<close>)
qed

lemma Put_ok:
  assumes inv: "storage_inv holds m h K" and b: "Suc (Suc (length h)) < 2 ^ 63"
    and st: "\<forall>q. storable (restamp q (put_record h req))"
    and lease: "pr_Lease req \<noteq> 0 \<Longrightarrow> unat (ms_applied m) = length h \<and> HasLease (ms_leaseManager m) (pr_Lease req)"
  shows "\<exists>m'. Put lg now m req = (Inr \<lparr> pp_Header = Some (createHeader (of_nat (Suc (length h)))),
        pp_PrevKv = (if pr_PrevKv req then kv_at h (length h) (the_bytes (pr_Key req)) else None) \<rparr>, m')
     \<and> storage_inv holds m' (h @ [put_record h req]) (insert (of_nat (Suc (length h))) K)
     \<and> ms_compacted m' = ms_compacted m \<and> unat (ms_applied m') = Suc (length h) \<and> (ms_watchers m = [] \<longrightarrow> ms_watchers m' = [])"
proof -
  let ?s = "of_nat (length h) :: revision" and ?k = "the_bytes (pr_Key req)"
  let ?req = "\<lparr> tr_Compare = [], tr_Success = [RequestPut req], tr_Failure = [] \<rparr>"
  obtain t lm m1 where tt: "tryTxn lg now m ?req =
      (case evaluate lg m1 ?req ?s of Inl e \<Rightarrow> (Inl e, m1) | Inr (resp, t) \<Rightarrow> commit lg now m1 t resp)"
    and m1: "storage_inv holds m1 h K" "m1 = m \<lparr> ms_revisions := t, ms_leaseManager := lm, ms_applied := ?s \<rparr>" and s: "unat ?s = length h"
    and same: "unat (ms_applied m) = length h \<longrightarrow> m1 = m"
    by (rule latest_revision[OF inv])
  have hl: "holds (ms_log m1) h K" and c: "ms_compacted m1 \<le> ?s" using m1(1) s by (simp_all add: storage_inv_def m1(2) word_le_nat_alt)
  have le: "pr_Lease req \<noteq> 0 \<longrightarrow> HasLease (ms_leaseManager m1) (pr_Lease req)" using lease same by auto
  define t1 where "t1 = (new_txn ?s) \<lparr> tx_logEvents := lr_events (put_record h req), tx_meta := AddWrite (NewTxnMeta ?s) ?k \<rparr>"
  have put: "txn_put lg m1 (new_txn ?s) req =
      Inr (\<lparr> pp_Header = None, pp_PrevKv = (if pr_PrevKv req then kv_at h (length h) ?k else None) \<rparr>, t1)"
  proof -
    have "?s \<le> ms_applied m1" by (simp add: m1(2))
    from m1(1) c this show ?thesis
    proof (cases rule: lookup_cases[where k = ?k])
      case gone
      then show ?thesis using le s by (auto simp: txn_put_def put_record_def t1_def Let_def add.commute)
    next
      case (found r ev)
      then show ?thesis using le s entry[OF hl found(2)]
        by (auto simp: txn_put_def existing_event_def put_record_def t1_def Let_def add.commute)
    qed
  qed
  define resp where "resp = \<lparr> tp_Header = createHeader ?s, tp_Succeeded = True,
      tp_Responses = [ResponsePut \<lparr> pp_Header = None, pp_PrevKv = (if pr_PrevKv req then kv_at h (length h) ?k else None) \<rparr>] \<rparr>"
  have ev: "evaluate lg m1 ?req ?s = Inr (resp, t1)" by (simp add: evaluate_def run_op_def put resp_def)
  have rec: "\<lparr> lr_events = tx_logEvents t1 \<rparr> = put_record h req" by (simp add: t1_def put_record_def Let_def)
  have am1: "unat (ms_applied m1) = length h" by (simp add: m1(2) s)
  obtain m' hdr where m': "hdr = (tp_Header resp) \<lparr> hd_Revision := of_nat (Suc (length h)) \<rparr>"
    "commit lg now m1 t1 resp = (Inr (resp \<lparr> tp_Header := hdr, tp_Responses := map (set_header hdr) (tp_Responses resp) \<rparr>, True), m')"
    "storage_inv holds m' (h @ [put_record h req]) (insert (of_nat (Suc (length h))) K)"
    "ms_applied m' = of_nat (Suc (length h))" "ms_compacted m' = ms_compacted m1" "ms_watchers m1 = [] \<longrightarrow> ms_watchers m' = []"
    by (rule commit_ok[OF m1(1) am1 b, of t1 resp now, unfolded rec])
      (use st in \<open>simp_all add: t1_def put_record_def Let_def record_ok_def records_writes_def touches_def s eq_commute\<close>)
  have tx: "Txn lg now m ?req = (Inr (resp \<lparr> tp_Header := hdr, tp_Responses := map (set_header hdr) (tp_Responses resp) \<rparr>), m')"
    by (simp add: Txn_try tt ev m'(2))
  have "Put lg now m req = (Inr \<lparr> pp_Header = Some (createHeader (of_nat (Suc (length h)))),
        pp_PrevKv = (if pr_PrevKv req then kv_at h (length h) ?k else None) \<rparr>, m')"
    by (simp add: Put_def tx m'(1) resp_def set_header_def createHeader_def)
  moreover have "unat (ms_applied m') = Suc (length h)"
    using b by (simp add: m'(4) unat_of_nat take_bit_nat_eq_self del: of_nat_Suc)
  ultimately show ?thesis using m'(3,5,6) by (auto simp: m1(2))
qed

lemma Delete_ok:
  assumes inv: "storage_inv holds m h K" and b: "Suc (Suc (length h)) < 2 ^ 63" and req: "dr_RangeEnd req = None"
    and st: "\<forall>q. storable (restamp q (delete_record h (the_bytes (dr_Key req)) kv))"
    and kv: "kv_at h (length h) (the_bytes (dr_Key req)) = Some kv"
  shows "\<exists>m'. Delete lg now m req = (Inr \<lparr> dp_Header = Some (createHeader (of_nat (Suc (length h)))), dp_Deleted = 1 \<rparr>, m')
     \<and> storage_inv holds m' (h @ [delete_record h (the_bytes (dr_Key req)) kv]) (insert (of_nat (Suc (length h))) K)
     \<and> ms_compacted m' = ms_compacted m \<and> unat (ms_applied m') = Suc (length h) \<and> (ms_watchers m = [] \<longrightarrow> ms_watchers m' = [])"
proof -
  let ?s = "of_nat (length h) :: revision" and ?k = "the_bytes (dr_Key req)"
  let ?req = "\<lparr> tr_Compare = [], tr_Success = [RequestDeleteRange req], tr_Failure = [] \<rparr>"
  obtain t lm m1 where tt: "tryTxn lg now m ?req =
      (case evaluate lg m1 ?req ?s of Inl e \<Rightarrow> (Inl e, m1) | Inr (resp, t) \<Rightarrow> commit lg now m1 t resp)"
    and m1: "storage_inv holds m1 h K" "m1 = m \<lparr> ms_revisions := t, ms_leaseManager := lm, ms_applied := ?s \<rparr>" and s: "unat ?s = length h"
    by (rule latest_revision[OF inv])
  have hl: "holds (ms_log m1) h K" and c: "ms_compacted m1 \<le> ?s" "?s \<le> ms_applied m1"
    using m1(1) s by (simp_all add: storage_inv_def m1(2) word_le_nat_alt)
  define t1 where "t1 = (new_txn ?s) \<lparr> tx_logEvents := lr_events (delete_record h ?k kv), tx_meta := AddWrite (NewTxnMeta ?s) ?k \<rparr>"
  from m1(1) c have del: "txn_delete lg m1 (new_txn ?s) req = Inr (\<lparr> dp_Header = None, dp_Deleted = 1 \<rparr>, t1)"
  proof (cases rule: lookup_cases[where k = ?k])
    case gone
    then show ?thesis using kv s by simp
  next
    case (found r ev)
    then show ?thesis using kv s entry[OF hl found(2)] req
      by (auto simp: txn_delete_def existing_event_def delete_record_def t1_def Let_def add.commute split: if_splits)
  qed
  define resp where "resp = \<lparr> tp_Header = createHeader ?s, tp_Succeeded = True,
      tp_Responses = [ResponseDeleteRange \<lparr> dp_Header = None, dp_Deleted = 1 \<rparr>] \<rparr>"
  have ev: "evaluate lg m1 ?req ?s = Inr (resp, t1)" by (simp add: evaluate_def run_op_def del resp_def)
  have rec: "\<lparr> lr_events = tx_logEvents t1 \<rparr> = delete_record h ?k kv" by (simp add: t1_def delete_record_def Let_def)
  have am1: "unat (ms_applied m1) = length h" by (simp add: m1(2) s)
  obtain m' hdr where m': "hdr = (tp_Header resp) \<lparr> hd_Revision := of_nat (Suc (length h)) \<rparr>"
    "commit lg now m1 t1 resp = (Inr (resp \<lparr> tp_Header := hdr, tp_Responses := map (set_header hdr) (tp_Responses resp) \<rparr>, True), m')"
    "storage_inv holds m' (h @ [delete_record h ?k kv]) (insert (of_nat (Suc (length h))) K)"
    "ms_applied m' = of_nat (Suc (length h))" "ms_compacted m' = ms_compacted m1" "ms_watchers m1 = [] \<longrightarrow> ms_watchers m' = []"
    by (rule commit_ok[OF m1(1) am1 b, of t1 resp now, unfolded rec])
      (use st in \<open>simp_all add: t1_def delete_record_def Let_def record_ok_def records_writes_def touches_def s eq_commute\<close>)
  have tx: "Txn lg now m ?req = (Inr (resp \<lparr> tp_Header := hdr, tp_Responses := map (set_header hdr) (tp_Responses resp) \<rparr>), m')"
    by (simp add: Txn_try tt ev m'(2))
  have "Delete lg now m req = (Inr \<lparr> dp_Header = Some (createHeader (of_nat (Suc (length h)))), dp_Deleted = 1 \<rparr>, m')"
    by (simp add: Delete_def tx m'(1) resp_def set_header_def createHeader_def)
  moreover have "unat (ms_applied m') = Suc (length h)"
    using b by (simp add: m'(4) unat_of_nat take_bit_nat_eq_self del: of_nat_Suc)
  ultimately show ?thesis using m'(3,5,6) by (auto simp: m1(2))
qed

lemma Delete_absent:
  assumes inv: "storage_inv holds m h K" and req: "dr_RangeEnd req = None"
    and kv: "kv_at h (length h) (the_bytes (dr_Key req)) = None"
  shows "\<exists>m'. storage_inv holds m' h K \<and> ms_compacted m' = ms_compacted m \<and> unat (ms_applied m') = length h \<and>
     Delete lg now m req = (if GetLatestRevisionByKey (ms_revisions m') (the_bytes (dr_Key req)) (of_nat (length h)) = None
       then Inr \<lparr> dp_Header = Some (createHeader (of_nat (length h))), dp_Deleted = 0 \<rparr>
       else Inl (Fatal ''old event is not a PUT''), m')"
proof -
  let ?s = "of_nat (length h) :: revision" and ?k = "the_bytes (dr_Key req)"
  let ?req = "\<lparr> tr_Compare = [], tr_Success = [RequestDeleteRange req], tr_Failure = [] \<rparr>"
  obtain t lm m1 where tt: "tryTxn lg now m ?req =
      (case evaluate lg m1 ?req ?s of Inl e \<Rightarrow> (Inl e, m1) | Inr (resp, t) \<Rightarrow> commit lg now m1 t resp)"
    and m1: "storage_inv holds m1 h K" "m1 = m \<lparr> ms_revisions := t, ms_leaseManager := lm, ms_applied := ?s \<rparr>" and s: "unat ?s = length h"
    by (rule latest_revision[OF inv])
  have hl: "holds (ms_log m1) h K" and c: "ms_compacted m1 \<le> ?s" "?s \<le> ms_applied m1"
    using m1(1) s by (simp_all add: storage_inv_def m1(2) word_le_nat_alt)
  from m1(1) c have "Delete lg now m req = (if GetLatestRevisionByKey (ms_revisions m1) ?k ?s = None
       then Inr \<lparr> dp_Header = Some (createHeader ?s), dp_Deleted = 0 \<rparr> else Inl (Fatal ''old event is not a PUT''), m1)"
  proof (cases rule: lookup_cases[where k = ?k])
    case gone
    then show ?thesis using req
      by (simp add: Delete_def Txn_try tt evaluate_def run_op_def txn_delete_def Let_def commit_def)
  next
    case (found r ev)
    then show ?thesis using kv s req entry[OF hl found(2)]
      by (auto simp: Delete_def Txn_try tt evaluate_def run_op_def txn_delete_def existing_event_def Let_def split: if_splits)
  qed
  then show ?thesis using m1(1) s by (intro exI[of _ m1]) (simp add: m1(2))
qed

lemma Compact_ok:
  assumes inv: "storage_inv holds m h K"
  shows "storage_inv holds (snd (Memory_Storage.Compact m rv)) h K
    \<and> ms_compacted (snd (Memory_Storage.Compact m rv)) = fst (fst (Memory_Storage.Compact m rv))
    \<and> ms_compacted m \<le> fst (fst (Memory_Storage.Compact m rv))"
proof -
  define th where "th = watched_through (ms_watchers m) (if ms_applied m < rv then ms_applied m else rv)"
  have "th \<le> (if ms_applied m < rv then ms_applied m else rv)" unfolding th_def by (rule watched_through_le)
  then have a: "th \<le> ms_applied m" by (auto split: if_splits)
  show ?thesis
  proof (cases "th \<le> ms_compacted m")
    case True
    then show ?thesis using inv by (simp add: Memory_Storage.Compact_def Let_def th_def)
  next
    case False
    obtain t kr rd where t: "Bptree.Compact (ms_revisions m) th = (t, kr, rd)" by (metis prod_cases3)
    have ft: "fst (Bptree.Compact (ms_revisions m) th) = t" by (simp add: t)
    have i: "index_ok (ms_revisions m) h (unat (ms_applied m)) (unat (ms_compacted m))"
      and need: "\<And>r. needed (ms_revisions m) (ms_compacted m) r \<Longrightarrow> unat r \<le> length h \<Longrightarrow> r \<in> K"
      using inv by (auto simp: storage_inv_def)
    have lt: "ms_compacted m \<le> th" using False by simp
    have bt: "bt_inv (ms_revisions m)" using i by (simp add: index_ok_def)
    have ok: "index_ok t h (unat (ms_applied m)) (unat th)"
      using index_ok_Compact[OF i, of th] lt a unfolding ft by (simp add: word_le_nat_alt)
    have "needed (ms_revisions m) (ms_compacted m) r" if "needed t th r" for r
      using needed_compact[OF bt lt that[folded ft]] .
    then have "storage_inv holds (m \<lparr> ms_revisions := t, ms_compacted := th \<rparr>) h K"
      using inv ok need a by (auto simp: storage_inv_def word_le_nat_alt)
    then show ?thesis using False t lt by (simp add: Memory_Storage.Compact_def Let_def th_def)
  qed
qed

lemma NewMemoryStorage_empty:
  assumes hl: "holds l [] K" and st: "storable \<lparr> lr_events = [] \<rparr>"
  shows "\<exists>m. NewMemoryStorage lg now l = Inr m \<and> storage_inv holds m [\<lparr> lr_events = [] \<rparr>] (insert 1 K)
     \<and> ms_compacted m = 0 \<and> ms_applied m = 1 \<and> ms_watchers m = []"
proof -
  let ?rec = "\<lparr> lr_events = [] \<rparr> :: LogRecord"
  have rs: "restamp q ?rec = ?rec" for q by (simp add: restamp_def)
  have one: "of_nat (Suc (length ([] :: history))) = (1 :: revision)" by simp
  have "\<exists>ns l'. lg_Append lg l ?rec (NewTxnMeta 0) = (Inr (1, True), ns, l') \<and> holds l' [?rec] (insert 1 K)"
    using append[OF hl, of ?rec "NewTxnMeta 0"] st unfolding rs one by (auto simp: records_writes_def touches_def)
  then obtain ns l' where ap: "lg_Append lg l ?rec (NewTxnMeta 0) = (Inr (1, True), ns, l')" and hl': "holds l' [?rec] (insert 1 K)"
    by blast
  define m where "m = foldl OnLogEntry (empty_storage l \<lparr> ms_log := l', ms_applied := 1 \<rparr>) ns"
  have sel: "ms_revisions m = empty_BPTree" "ms_applied m = 1" "ms_compacted m = 0" "ms_log m = l'" "ms_watchers m = []" by (simp_all add: m_def empty_storage_def)
  have new: "NewMemoryStorage lg now l = Inr m"
    using current[OF hl] ap by (simp add: NewMemoryStorage_def ReplayLog_def empty_storage_def m_def)
  have ok: "index_ok empty_BPTree [?rec] 1 0"
    using index_ok_apply[OF index_ok_empty, of "[?rec]" 0 1] by (simp add: add_events_def record_ok_def)
  have need: "r \<in> insert 1 K" if "needed empty_BPTree 0 r" "unat r \<le> 1" for r
  proof -
    have "r \<noteq> 0" using that(1) by (auto simp: needed_def)
    then have "unat r = 1" using that(2) by (metis One_nat_def le_SucE le_zero_eq unat_0_iff)
    then have "r = 1" by (metis of_nat_1 of_nat_unat ucast_id)
    then show ?thesis by simp
  qed
  have "storage_inv holds m [?rec] (insert 1 K)"
    using ok hl' need by (simp add: storage_inv_def sel record_ok_def)
  then show ?thesis using new sel by blast
qed

end

end
