(* ===== verification/File_Storage.thy ===== *)
theory File_Storage
  imports Storage_Spec Log_Recovery
begin

text \<open>
  The storage over the file log: the file log and its batching as the \<^verbatim>\<open>Log\<close> of the storage, that they keep what
  the storage needs of its log, and what reads and writes then do.
\<close>

subsection \<open>The file log as the storage's log\<close>

text \<open>
  \<^verbatim>\<open>Append\<close> is \<^verbatim>\<open>Batching.Add\<close> with the wait: the flusher takes and flushes batches until the transaction's result
  is there.  When the flusher has no batch left to take, the wait ends with the context.
\<close>

primrec flush_until :: "'l flush_func \<Rightarrow> nat \<Rightarrow> Batching \<Rightarrow> 'l \<Rightarrow> nat \<Rightarrow> error + BatchResult option \<times> Batching \<times> 'l" where
  "flush_until flushFunc 0 b l ch = Inr (bg_results b ch, b, l)"
| "flush_until flushFunc (Suc n) b l ch =
     (case bg_results b ch of
        Some res \<Rightarrow> Inr (Some res, b, l)
      | None \<Rightarrow>
          let b' = (if bg_flushing b = None then grab_batch b else b)
          in case bg_flushing b' of
               None \<Rightarrow> Inr (None, b', l)
             | Some batch \<Rightarrow>
                 (case flushBatch flushFunc b' batch l of
                    Inl e \<Rightarrow> Inl e
                  | Inr (b'', l') \<Rightarrow> flush_until flushFunc n b'' l' ch))"

definition fs_Append :: "Protowire \<Rightarrow> FilesystemLog \<times> Batching \<Rightarrow> LogRecord \<Rightarrow> TxnMeta
    \<Rightarrow> (error + revision \<times> bool) \<times> revision list \<times> FilesystemLog \<times> Batching" where
  "fs_Append w s logRecord txnMeta =
     (case s of (l, b) \<Rightarrow> case Batching_Add b logRecord txnMeta of (b1, ch) \<Rightarrow>
        (case flush_until (commitBatch w) (Suc (length (all_batches b1))) b1 l ch of
           Inl e \<Rightarrow> (Inl e, [], l, b1)
         | Inr (res, b', l') \<Rightarrow>
             ((case res of None \<Rightarrow> Inl (Errorf ''context done'') | Some r \<Rightarrow> Inr (br_revision r, br_success r)),
              drop (length (fl_notified l)) (fl_notified l'), l', b')))"

definition fs_log :: "Protowire \<Rightarrow> (FilesystemLog \<times> Batching) Log" where
  "fs_log w =
     \<lparr> lg_Append = fs_Append w,
       lg_GetCurrentRevision = (\<lambda>(l, b). Inr (GetCurrentRevision l)),
       lg_Read = (\<lambda>(l, b) start. Read w l start (\<lambda>acc r record. (acc @ [(r, record)], True)) []),
       lg_GetLogEntry = (\<lambda>(l, b) r. case fst (GetLogEntry w l r) of Inl e \<Rightarrow> Inl e | Inr record \<Rightarrow> Inr (Some record)),
       lg_Compact = (\<lambda>(l, b) through live. case log_Compact w l through live of (e, l') \<Rightarrow> (e, l', b)) \<rparr>"

text \<open>Between appends: nothing is pending, and the batching is where the log is.  \<^verbatim>\<open>base\<close> is where the log was when it was opened.\<close>

definition batching_idle :: "nat \<Rightarrow> history \<Rightarrow> Batching \<Rightarrow> bool" where
  "batching_idle base h b \<longleftrightarrow> all_batches b = [] \<and> unat (bg_lastLogPosition b) = length h
     \<and> base \<le> length h \<and> cw_inv base h (bg_committedWrites b) \<and> (\<forall>ch \<ge> bg_nextChan b. bg_results b ch = None)"

definition fs_holds :: "Protowire \<Rightarrow> nat \<Rightarrow> FilesystemLog \<times> Batching \<Rightarrow> history \<Rightarrow> revision set \<Rightarrow> bool" where
  "fs_holds w base s h K \<longleftrightarrow> (\<exists>xss. log_inv w (fst s) h xss \<and> kept_revs xss = K) \<and> batching_idle base h (snd s)"

lemma idle_empty:
  assumes "all_batches b = []"
  shows "bg_flushing b = None" "bg_flushQueue b = []" "bg_openBatch b = None"
  using assms by (auto simp: all_batches_def split: option.splits)

lemma up_to_date_validates:
  assumes "cw_inv base h cw" and "unat p = length h" and "up_to_date h m"
  shows "validateTxn m p cw"
proof (cases "tm_hasRangeRead m")
  case True
  then show ?thesis using assms by (simp add: validateTxn_def up_to_date_def word_unat_eq_iff)
next
  case False
  have cw: "unat (map_get cw k) \<le> last_write h k" for k using assms(1) by (auto simp: cw_inv_def)
  show ?thesis unfolding validate_point[OF False]
    using assms(3) cw last_write_le[of h] by (fastforce simp: up_to_date_def intro: order_trans)
qed

lemma fs_Append_single:
  fixes rec :: LogRecord and meta :: TxnMeta
  assumes idle: "batching_idle base h b" and p: "p = bg_lastLogPosition b" and ch: "ch = bg_nextChan b"
  defines "t \<equiv> \<lparr> pt_logRecord = rec, pt_meta = meta, pt_resultChan = ch \<rparr>"
  shows "\<not> validateTxn meta p (bg_committedWrites b) \<Longrightarrow>
      fs_Append w (l, b) rec meta = (Inr (0, False), [], l, b \<lparr> bg_nextChan := Suc ch, bg_openBatch := None, bg_flushing := None,
        bg_results := (bg_results b)(ch \<mapsto> \<lparr> br_revision = 0, br_success = False \<rparr>) \<rparr>)"
    and "validateTxn meta p (bg_committedWrites b)
      \<Longrightarrow> commitBatch w l p \<lparr> bc_transactions = [t \<lparr> pt_logRecord := restamp (p + 1) rec \<rparr>] \<rparr> = (None, l')
      \<Longrightarrow> fs_Append w (l, b) rec meta = (Inr (p + 1, True), drop (length (fl_notified l)) (fl_notified l'), l',
        b \<lparr> bg_nextChan := Suc ch, bg_openBatch := None, bg_committedWrites := record_writes meta (p + 1) (bg_committedWrites b),
          bg_flushing := None, bg_results := (bg_results b)(ch \<mapsto> \<lparr> br_revision = p + 1, br_success = True \<rparr>), bg_lastLogPosition := p + 1 \<rparr>)"
proof -
  have e: "bg_flushing b = None" "bg_flushQueue b = []" "bg_openBatch b = None" using idle idle_empty[of b] by (simp_all add: batching_idle_def)
  define batch where "batch = \<lparr> tb_flushed = False, tb_pendingBatch = [t] \<rparr>"
  define b1 where "b1 = b \<lparr> bg_nextChan := Suc ch, bg_openBatch := Some batch \<rparr>"
  define b2 where "b2 = b1 \<lparr> bg_flushing := Some batch, bg_openBatch := None \<rparr>"
  have add: "Batching_Add b rec meta = (b1, ch)"
    by (simp add: Batching_Add_def Let_def e b1_def batch_def t_def batch_add_def newTxnBatch_def ch)
  have grab: "grab_batch b1 = b2" by (simp add: grab_batch_def b1_def b2_def e)
  have n1: "length (all_batches b1) = 1" by (simp add: all_batches_def b1_def e)
  have none: "bg_results b1 ch = None" "bg_flushing b1 = None" using idle by (simp_all add: b1_def e batching_idle_def ch)
  have fb: "bg_flushing b2 = Some batch" by (simp add: b2_def)
  have fu: "flush_until (commitBatch w) (Suc (length (all_batches b1))) b1 l ch = Inr (Some res, b3, l')"
    if "flushBatch (commitBatch w) b2 batch l = Inr (b3, l')" "bg_results b3 ch = Some res" for b3 l' res
    using that by (simp add: n1 none grab fb)
  show "fs_Append w (l, b) rec meta = (Inr (0, False), [], l, b \<lparr> bg_nextChan := Suc ch, bg_openBatch := None, bg_flushing := None,
        bg_results := (bg_results b)(ch \<mapsto> \<lparr> br_revision = 0, br_success = False \<rparr>) \<rparr>)" if v: "\<not> validateTxn meta p (bg_committedWrites b)"
  proof -
    define b3 where "b3 = b2 \<lparr> bg_flushing := None, bg_results := (bg_results b)(ch \<mapsto> \<lparr> br_revision = 0, br_success = False \<rparr>) \<rparr>"
    have fl: "flushBatch (commitBatch w) b2 batch l = Inr (b3, l)"
      using v by (simp add: flushBatch_def prepare_def batch_def t_def b1_def b2_def b3_def deliver_rejected_def p)
    show ?thesis using fu[OF fl] by (simp add: fs_Append_def add del: flush_until.simps) (simp add: b3_def b2_def b1_def)
  qed
  show "fs_Append w (l, b) rec meta = (Inr (p + 1, True), drop (length (fl_notified l)) (fl_notified l'), l',
        b \<lparr> bg_nextChan := Suc ch, bg_openBatch := None, bg_committedWrites := record_writes meta (p + 1) (bg_committedWrites b),
          bg_flushing := None, bg_results := (bg_results b)(ch \<mapsto> \<lparr> br_revision = p + 1, br_success = True \<rparr>), bg_lastLogPosition := p + 1 \<rparr>)"
    if v: "validateTxn meta p (bg_committedWrites b)" and c: "commitBatch w l p \<lparr> bc_transactions = [t \<lparr> pt_logRecord := restamp (p + 1) rec \<rparr>] \<rparr> = (None, l')"
  proof -
    define b3 where "b3 = b2 \<lparr> bg_committedWrites := record_writes meta (p + 1) (bg_committedWrites b), bg_flushing := None,
        bg_results := (bg_results b)(ch \<mapsto> \<lparr> br_revision = p + 1, br_success = True \<rparr>), bg_lastLogPosition := p + 1 \<rparr>"
    have fl: "flushBatch (commitBatch w) b2 batch l = Inr (b3, l')"
      using v c by (simp add: flushBatch_def prepare_def batch_def t_def b1_def b2_def b3_def deliver_rejected_def Let_def p)
    show ?thesis using fu[OF fl] by (simp add: fs_Append_def add del: flush_until.simps) (simp add: b3_def b2_def b1_def)
  qed
qed

lemma fs_Append_rejects:
  assumes hl: "fs_holds w base s h K" and v: "\<not> validateTxn meta (bg_lastLogPosition (snd s)) (bg_committedWrites (snd s))"
  shows "\<exists>s'. fs_Append w s rec meta = (Inr (0, False), [], s') \<and> fs_holds w base s' h K"
proof -
  obtain l b where s: "s = (l, b)" by (cases s)
  have idle: "batching_idle base h b" using hl by (simp add: fs_holds_def s)
  have v': "\<not> validateTxn meta (bg_lastLogPosition b) (bg_committedWrites b)" using v by (simp add: s)
  define b' where "b' = b \<lparr> bg_nextChan := Suc (bg_nextChan b), bg_openBatch := None, bg_flushing := None,
        bg_results := (bg_results b)(bg_nextChan b \<mapsto> \<lparr> br_revision = 0, br_success = False \<rparr>) \<rparr>"
  have "bg_flushQueue b = []" using idle idle_empty(2) by (simp add: batching_idle_def)
  then have "batching_idle base h b'" using idle by (simp add: batching_idle_def b'_def all_batches_def)
  moreover have "fs_Append w s rec meta = (Inr (0, False), [], l, b')"
    unfolding b'_def s by (rule fs_Append_single(1)[OF idle refl refl v'])
  ultimately show ?thesis using hl by (auto simp: fs_holds_def s)
qed

lemma fs_Append_ok:
  assumes pc: "proto_codec w" and hl: "fs_holds w base s h K" and b: "Suc (Suc (length h)) < 2 ^ 63"
    and st: "\<forall>q. storable w (restamp q rec)" and meta: "meta_wf meta" "records_writes rec meta"
  shows "\<exists>ns s'. fs_Append w s rec meta = (Inr (of_nat (Suc (length h)), True), ns, s')
              \<and> fs_holds w base s' (h @ [restamp (of_nat (Suc (length h))) rec]) (insert (of_nat (Suc (length h))) K)
          \<or> fs_Append w s rec meta = (Inr (0, False), ns, s') \<and> fs_holds w base s' h K \<and> \<not> up_to_date h meta"
proof -
  obtain l bt where s: "s = (l, bt)" by (cases s)
  obtain xss where inv: "log_inv w l h xss" "kept_revs xss = K" and idle: "batching_idle base h bt"
    using hl by (auto simp: fs_holds_def s)
  let ?p = "bg_lastLogPosition bt" and ?cw = "bg_committedWrites bt"
  have base: "base \<le> length h" "cw_inv base h ?cw" "unat ?p = length h" using idle by (simp_all add: batching_idle_def)
  show ?thesis
  proof (cases "validateTxn meta ?p ?cw")
    case False
    then have "\<not> up_to_date h meta" using up_to_date_validates[OF base(2,3)] by blast
    then show ?thesis using fs_Append_rejects[OF hl, of meta rec] False by (auto simp: s)
  next
    case True
    define r where "r = ?p + 1"
    have ur: "unat r = Suc (length h)" using base(3) b unat_Suc64[of ?p] by (simp add: r_def)
    have r: "r = of_nat (Suc (length h))" using ur by (metis of_nat_unat ucast_id)
    define c where "c = \<lparr> bc_transactions = [\<lparr> pt_logRecord = rec, pt_meta = meta, pt_resultChan = bg_nextChan bt \<rparr> \<lparr> pt_logRecord := restamp (?p + 1) rec \<rparr>] \<rparr>"
    obtain l' xss' where l': "commitBatch w l ?p c = (None, l')" "log_inv w l' (h @ map pt_logRecord (bc_transactions c)) xss'"
      "kept_revs xss' = kept_revs xss \<union> fst ` set (stamp_from ?p (map pt_logRecord (bc_transactions c)))"
      by (rule commitBatch_inv[OF pc inv(1) base(3), of c]) (use b st in \<open>simp_all add: c_def\<close>)
    have cc: "map pt_logRecord (bc_transactions c) = [restamp r rec]" "fst ` set (stamp_from ?p [restamp r rec]) = {r}"
      by (simp_all add: c_def stamp_from_def r_def)
    have "cw_inv base (h @ [restamp r rec]) (record_writes meta r ?cw)"
      using meta(2) by (intro cw_inv_record[OF base(2) ur base(1)]) (auto simp: records_writes_def)
    moreover have "bg_flushQueue bt = []" using idle idle_empty(2) by (simp add: batching_idle_def)
    moreover define b' where "b' = bt \<lparr> bg_nextChan := Suc (bg_nextChan bt), bg_openBatch := None, bg_committedWrites := record_writes meta r ?cw,
          bg_flushing := None, bg_results := (bg_results bt)(bg_nextChan bt \<mapsto> \<lparr> br_revision = r, br_success = True \<rparr>), bg_lastLogPosition := r \<rparr>"
    ultimately have "batching_idle base (h @ [restamp r rec]) b'" using idle ur by (simp add: batching_idle_def all_batches_def)
    then have "fs_holds w base (l', b') (h @ [restamp r rec]) (insert r K)"
      using l'(2,3) inv(2) unfolding cc by (auto simp: fs_holds_def)
    moreover have "fs_Append w s rec meta = (Inr (r, True), drop (length (fl_notified l)) (fl_notified l'), l', b')"
      unfolding b'_def s r_def by (rule fs_Append_single(2)[OF idle refl refl True l'(1)[unfolded c_def]])
    ultimately show ?thesis unfolding r by blast
  qed
qed

lemma fs_storage_log:
  assumes pc: "proto_codec w"
  shows "storage_log (fs_log w) (fs_holds w base) (storable w)"
proof
  fix l h K assume hl: "fs_holds w base l h K"
  then obtain xss where inv: "log_inv w (fst l) h xss" "kept_revs xss = K" by (auto simp: fs_holds_def)
  show "Suc (length h) < 2 ^ 63" using inv(1) by (simp add: log_inv_def)
  have "unat (fl_lastRevision (fst l)) = length h" using inv(1) by (simp add: log_inv_def)
  then have "fl_lastRevision (fst l) = of_nat (length h)" by (metis of_nat_unat ucast_id)
  then show "lg_GetCurrentRevision (fs_log w) l = Inr (of_nat (length h))"
    by (simp add: fs_log_def GetCurrentRevision_def case_prod_beta)
  show "lg_GetLogEntry (fs_log w) l r = Inr (Some (h ! (unat r - 1)))" if "r \<in> K" for r
    using GetLogEntry_ok(1)[OF pc inv(1), of r] that inv(2) by (simp add: fs_log_def case_prod_beta)
next
  fix l h K rec meta
  assume "fs_holds w base l h K" "Suc (Suc (length h)) < 2 ^ 63" "\<forall>q. storable w (restamp q rec)" "meta_wf meta" "records_writes rec meta"
  from fs_Append_ok[OF pc this]
  show "\<exists>ns l'. lg_Append (fs_log w) l rec meta = (Inr (of_nat (Suc (length h)), True), ns, l')
              \<and> fs_holds w base l' (h @ [restamp (of_nat (Suc (length h))) rec]) (insert (of_nat (Suc (length h))) K)
          \<or> lg_Append (fs_log w) l rec meta = (Inr (0, False), ns, l') \<and> fs_holds w base l' h K \<and> \<not> up_to_date h meta"
    by (simp add: fs_log_def)
qed

interpretation fs: storage_log "fs_log std_wire" "fs_holds std_wire base" "storable std_wire" for base
  by (rule fs_storage_log[OF std.proto_codec_axioms])


subsection \<open>Small records are storable\<close>

definition event_size :: "Event \<Rightarrow> nat" where
  "event_size ev = 320 + length (kv_key (ev_kv ev)) + length (kv_value (ev_kv ev))
     + (case ev_prevKv ev of None \<Rightarrow> 0 | Some kv \<Rightarrow> length (kv_key kv) + length (kv_value kv))"

lemma std_storable:
  assumes "\<forall>ev \<in> set (lr_events rec). ev_type ev = PUT \<or> ev_type ev = DELETE" and "sum_list (map event_size (lr_events rec)) < 2 ^ 63"
  shows "storable std_wire rec"
proof -
  have ev: "length (enc_message_field std_base 11 (enc_Event std_base ev)) \<le> event_size ev" for ev
    using std_length_message_field[of 11 "enc_Event std_base ev"] std_length_Event[of ev] by (simp add: event_size_def split: option.splits)
  have "length (concat (map (\<lambda>ev. enc_message_field std_base 11 (enc_Event std_base ev)) evs)) \<le> sum_list (map event_size evs)" for evs
  proof (induction evs)
    case (Cons e evs)
    then show ?case using ev[of e] by simp
  qed simp
  then have body: "length (concat (map (\<lambda>ev. enc_message_field std_base 11 (enc_Event std_base ev)) (lr_events rec)))
      \<le> sum_list (map event_size (lr_events rec))" .
  have le: "length (enc_WatchResponse std_base rv (lr_events rec)) \<le> 40 + sum_list (map event_size (lr_events rec))" for rv
    using std_length_message_field[of 1 "enc_varint_field std_base 3 rv"] std_length_varint_field[of 3 rv] body
    unfolding enc_WatchResponse_def length_append by linarith
  have "length (enc_WatchResponse std_wire rv (lr_events rec)) < 2 ^ 64" for rv
    unfolding std_wire_base by (rule le_less_trans[OF le]) (use assms(2) in simp)
  then show ?thesis using assms(1) unfolding storable_def recordable_def loggable_def fits_def by simp
qed

lemma event_size_restamp [simp]: "event_size (restamp_event q ev) = event_size ev" "ev_type (restamp_event q ev) = ev_type ev"
  by (cases "ev_type ev"; simp add: event_size_def restamp_event_def Let_def)+

lemma std_storable_restamp:
  assumes "\<forall>ev \<in> set (lr_events rec). ev_type ev = PUT \<or> ev_type ev = DELETE" and "sum_list (map event_size (lr_events rec)) < 2 ^ 63"
  shows "storable std_wire (restamp q rec)"
  by (rule std_storable) (use assms in \<open>simp_all add: restamp_def comp_def\<close>)


subsection \<open>A storage over an empty directory\<close>

definition demo_options :: Options where
  "demo_options = \<lparr> op_cacheBytes = 0, op_rotateBytes = 1, op_archive = False, op_mmap = True \<rparr>"

definition demo_storage :: "(FilesystemLog \<times> Batching) MemoryStorage" where
  "demo_storage = projr (NewMemoryStorage (fs_log std_wire) 0 (fresh_log demo_options, NewBatching 0))"

abbreviation first_record :: LogRecord where
  "first_record \<equiv> \<lparr> lr_events = [] \<rparr>"

lemma demo_storage_ok:
  "storage_inv (fs_holds std_wire 0) demo_storage [first_record] {1} \<and> ms_compacted demo_storage = 0 \<and> ms_watchers demo_storage = []"
proof -
  have "fs_holds std_wire 0 (fresh_log demo_options, NewBatching 0) [] {}"
    using fresh_inv[of std_wire demo_options]
    by (auto simp: fs_holds_def batching_idle_def NewBatching_def all_batches_def cw_inv_def map_get_def kept_revs_def)
  moreover have "storable std_wire first_record" by (rule std_storable) simp_all
  ultimately show ?thesis using fs.NewMemoryStorage_empty[of 0 "(fresh_log demo_options, NewBatching 0)" "{}" 0] by (auto simp: demo_storage_def)
qed

lemmas demo_inv = demo_storage_ok[THEN conjunct1] demo_storage_ok[THEN conjunct2, THEN conjunct1] demo_storage_ok[THEN conjunct2, THEN conjunct2]

definition demo_put :: "byte \<Rightarrow> byte \<Rightarrow> PutRequest" where
  "demo_put k v = \<lparr> pr_Key = Some [k], pr_Value = [v], pr_Lease = 0, pr_PrevKv = True \<rparr>"


definition demo_get :: "byte \<Rightarrow> revision \<Rightarrow> RangeRequest" where
  "demo_get k rv = \<lparr> rr_Key = Some [k], rr_RangeEnd = None, rr_Limit = 0, rr_Revision = rv, rr_KeysOnly = False, rr_CountOnly = False \<rparr>"

definition demo_delete :: "byte \<Rightarrow> DeleteRangeRequest" where
  "demo_delete k = \<lparr> dr_Key = Some [k], dr_RangeEnd = None \<rparr>"

text \<open>After a put of the key 5, and after the key is deleted again.\<close>

definition demo_kv :: KeyValue where
  "demo_kv = \<lparr> kv_key = [5], kv_createRevision = 2, kv_modRevision = 2, kv_version = 1, kv_value = [7], kv_lease = 0 \<rparr>"

definition put_5 :: LogRecord where
  "put_5 = \<lparr> lr_events = [\<lparr> ev_type = PUT, ev_kv = demo_kv, ev_prevKv = None \<rparr>] \<rparr>"

definition delete_5 :: LogRecord where
  "delete_5 = \<lparr> lr_events = [\<lparr> ev_type = DELETE, ev_kv = \<lparr> kv_key = [5], kv_createRevision = 0, kv_modRevision = 3, kv_version = 0, kv_value = [], kv_lease = 0 \<rparr>,
     ev_prevKv = Some demo_kv \<rparr>] \<rparr>"

definition demo_storage2 :: "(FilesystemLog \<times> Batching) MemoryStorage" where
  "demo_storage2 = snd (Put (fs_log std_wire) 0 demo_storage (demo_put 5 7))"

definition demo_storage3 :: "(FilesystemLog \<times> Batching) MemoryStorage" where
  "demo_storage3 = snd (Delete (fs_log std_wire) 0 demo_storage2 (demo_delete 5))"

lemma demo_requests [simp]:
  "pr_Key (demo_put k v) = Some [k]" "pr_Value (demo_put k v) = [v]" "pr_Lease (demo_put k v) = 0" "pr_PrevKv (demo_put k v)"
  "rr_Key (demo_get k rv) = Some [k]" "rr_RangeEnd (demo_get k rv) = None" "rr_Limit (demo_get k rv) = 0" "rr_Revision (demo_get k rv) = rv"
  "\<not> rr_KeysOnly (demo_get k rv)" "\<not> rr_CountOnly (demo_get k rv)"
  "dr_Key (demo_delete k) = Some [k]" "dr_RangeEnd (demo_delete k) = None" "the_bytes (Some bs) = bs"
  by (simp_all add: demo_put_def demo_get_def demo_delete_def the_bytes_def)

lemma demo_records:
  "put_record [first_record] (demo_put 5 7) = put_5" "delete_record [first_record, put_5] [5] demo_kv = delete_5"
  "kv_at [first_record] (Suc 0) [5] = None" "kv_at [first_record, put_5] (Suc (Suc 0)) [5] = Some demo_kv"
  "kv_at [first_record, put_5, delete_5] (Suc (Suc (Suc 0))) [5] = None"
proof -
  have n: "kv_at [] 0 k = None" for k by (simp add: kv_at_def event_at_def)
  show 1: "kv_at [first_record] (Suc 0) [5] = None"
    using kv_at_snoc[of "[]" first_record "[5]"] n by (simp add: findEvent_def)
  show 2: "kv_at [first_record, put_5] (Suc (Suc 0)) [5] = Some demo_kv"
    using kv_at_snoc[of "[first_record]" put_5 "[5]"] by (simp add: findEvent_def put_5_def demo_kv_def)
  show 3: "kv_at [first_record, put_5, delete_5] (Suc (Suc (Suc 0))) [5] = None"
    using kv_at_snoc[of "[first_record, put_5]" delete_5 "[5]"] by (simp add: findEvent_def delete_5_def)
  show "put_record [first_record] (demo_put 5 7) = put_5"
    using 1 by (simp add: put_record_def put_5_def demo_kv_def)
  show "delete_record [first_record, put_5] [5] demo_kv = delete_5"
    by (simp add: delete_record_def delete_5_def)
qed

lemma demo_storable: "\<forall>q. storable std_wire (restamp q put_5)" "\<forall>q. storable std_wire (restamp q delete_5)"
  by (intro allI std_storable_restamp; simp add: put_5_def delete_5_def event_size_def demo_kv_def)+

lemma demo_storage2_ok:
  "storage_inv (fs_holds std_wire 0) demo_storage2 [first_record, put_5] {1, 2} \<and> ms_compacted demo_storage2 = 0 \<and> ms_watchers demo_storage2 = []"
  using fs.Put_ok[OF demo_inv(1), of "demo_put 5 7" 0] demo_storable(1)
  by (auto simp: demo_records demo_storage2_def insert_commute demo_inv(2,3))

lemmas demo_inv2 = demo_storage2_ok[THEN conjunct1] demo_storage2_ok[THEN conjunct2, THEN conjunct1] demo_storage2_ok[THEN conjunct2, THEN conjunct2]

lemma demo_storage3_ok:
  "storage_inv (fs_holds std_wire 0) demo_storage3 [first_record, put_5, delete_5] {1, 2, 3}
   \<and> ms_compacted demo_storage3 = 0 \<and> ms_applied demo_storage3 = 3 \<and> ms_watchers demo_storage3 = []"
  using fs.Delete_ok[OF demo_inv2(1), of "demo_delete 5" demo_kv 0] demo_storable(2)
  by (auto simp: demo_records demo_storage3_def insert_commute demo_inv2(2,3) word_unat_eq_iff)

lemmas demo_inv3 = demo_storage3_ok[THEN conjunct1] demo_storage3_ok[THEN conjunct2, THEN conjunct1] demo_storage3_ok[THEN conjunct2, THEN conjunct2, THEN conjunct1] demo_storage3_ok[THEN conjunct2, THEN conjunct2, THEN conjunct2]

text \<open>The deleted key is compacted away.\<close>

definition demo_storage4 :: "(FilesystemLog \<times> Batching) MemoryStorage" where
  "demo_storage4 = snd (Memory_Storage.Compact demo_storage3 3)"

lemma demo_compact: "Memory_Storage.Compact demo_storage3 3 = ((3, True), demo_storage4)"
  by (simp add: demo_storage4_def Memory_Storage.Compact_def watched_through_def demo_inv3 Let_def split: prod.splits)


lemma demo_gone:
  "GetLatestRevisionByKey (ms_revisions demo_storage4) [5] 3 = None" "unat (ms_applied demo_storage4) = 3" "ms_applied demo_storage4 = 3"
proof -
  let ?h = "[first_record, put_5, delete_5]"
  have ok: "index_ok (ms_revisions demo_storage3) ?h 3 0" using demo_inv3 by (simp add: storage_inv_def)
  then have bt: "bt_inv (ms_revisions demo_storage3)" by (simp add: index_ok_def)
  have lw: "last_write ?h [5] = 3" by (simp add: last_write_def touches_def delete_5_def)
  have "lookup_ok ?h 0 [5] (last_write (take (min (unat (3 :: revision)) 3) ?h) [5]) (GetLatestRevisionByKey (ms_revisions demo_storage3) [5] 3)"
    using ok unfolding index_ok_def by blast
  then have l: "GetLatestRevisionByKey (ms_revisions demo_storage3) [5] 3 = Some 3" using lw by (simp add: lookup_ok_def)
  obtain rs tb where rs: "bt_map (ms_revisions demo_storage3) [5] = Some (rs, tb)" "3 \<in> set rs"
    using l unfolding bpt.latest_iff[OF bt] by (cases "bt_map (ms_revisions demo_storage3) [5]") (auto simp: revs_of_def)
  have s: "sorted rs" "rs \<noteq> []" using bpt.contents_sorted[OF bt rs(1)] by auto
  have "last rs \<in> set (revs_of (bt_map (ms_revisions demo_storage3)) [5])" using rs(1) s(2) by (simp add: revs_of_def)
  then have "unat (last rs) \<le> 3" using ok unfolding index_ok_def by blast
  moreover have "3 \<le> last rs" using rs(2) s by (induction rs rule: rev_induct) (auto simp: sorted_append)
  ultimately have "last rs = 3" by (simp add: word_le_nat_alt word_unat_eq_iff)
  moreover have "tb \<longleftrightarrow> deleted_at ?h (unat (last rs)) [5]" using ok rs(1) unfolding index_ok_def by blast
  ultimately have "removed 3 (bt_map (ms_revisions demo_storage3) [5])"
    using rs(1) by (simp add: removed_def deleted_at_def event_at_def findEvent_def delete_5_def)
  then show "GetLatestRevisionByKey (ms_revisions demo_storage4) [5] 3 = None"
    using bpt.latest_compact[OF bt, of 3 3 "[5]"]
    by (auto simp: demo_storage4_def Memory_Storage.Compact_def watched_through_def demo_inv3 Let_def split: prod.splits)
  show "ms_applied demo_storage4 = 3"
    by (simp add: demo_storage4_def Memory_Storage.Compact_def watched_through_def demo_inv3 Let_def split: prod.splits)
  then show "unat (ms_applied demo_storage4) = 3" by simp
qed

text \<open>The transaction that puts a key if it does not exist.\<close>

definition create_request :: "key \<Rightarrow> PutRequest \<Rightarrow> TxnRequest" where
  "create_request k req = \<lparr> tr_Compare = [\<lparr> cc_Result = Compare_EQUAL, cc_Target = Compare_MOD, cc_Key = Some k, cc_TargetUnion = Union_ModRevision 0 \<rparr>],
     tr_Success = [RequestPut req], tr_Failure = [] \<rparr>"

lemma create_rejected:
  assumes pc: "proto_codec w" and inv: "storage_inv (fs_holds w base) m h K" and a: "unat (ms_applied m) = length h"
    and none: "GetLatestRevisionByKey (ms_revisions m) k (ms_applied m) = None" and lw: "base < last_write h k"
    and req: "pr_Key req = Some k" "pr_Lease req = 0"
  shows "\<exists>s' resp. tryTxn (fs_log w) now m (create_request k req) = (Inr (resp, False), m \<lparr> ms_log := s' \<rparr>) \<and> fs_holds w base s' h K"
proof -
  have hl: "fs_holds w base (ms_log m) h K" using inv by (simp add: storage_inv_def)
  let ?s = "of_nat (length h) :: revision" and ?req = "create_request k req"
  obtain m1 where tt: "tryTxn (fs_log w) now m ?req =
      (case evaluate (fs_log w) m1 ?req ?s of Inl e \<Rightarrow> (Inl e, m1) | Inr (resp, t) \<Rightarrow> commit (fs_log w) now m1 t resp)"
    and same: "unat (ms_applied m) = length h \<longrightarrow> m1 = m"
    by (rule storage_log.latest_revision[OF fs_storage_log[OF pc] inv])
  have m1: "m1 = m" using same a by simp
  have ap: "ms_applied m = ?s" using a by (metis of_nat_unat ucast_id)
  obtain resp t where ev: "evaluate (fs_log w) m ?req ?s = Inr (resp, t)" and ne: "tx_logEvents t \<noteq> []"
    and meta: "tx_meta t = AddWrite (AddRead (NewTxnMeta ?s) k 0) k"
    using none ap req by (auto simp: evaluate_def create_request_def run_op_def txn_put_def Let_def check_target_def compare_equal_def)
  have cw: "unat (map_get (bg_committedWrites (snd (ms_log m))) k) = last_write h k"
    using hl lw by (simp add: fs_holds_def batching_idle_def cw_inv_def)
  have "\<not> validateTxn (tx_meta t) (bg_lastLogPosition (snd (ms_log m))) (bg_committedWrites (snd (ms_log m)))"
    using cw lw by (simp add: meta validateTxn_def AddWrite_def AddRead_def NewTxnMeta_def word_less_nat_alt)
  then obtain s' where s': "fs_Append w (ms_log m) \<lparr> lr_events = tx_logEvents t \<rparr> (tx_meta t) = (Inr (0, False), [], s')" "fs_holds w base s' h K"
    using fs_Append_rejects[OF hl, of "tx_meta t" "\<lparr> lr_events = tx_logEvents t \<rparr>"] by auto
  have "commit (fs_log w) now m t resp = (Inr (resp, False), m \<lparr> ms_log := s' \<rparr>)"
    using ne s'(1) by (simp add: commit_def fs_log_def)
  then have "tryTxn (fs_log w) now m ?req = (Inr (resp, False), m \<lparr> ms_log := s' \<rparr>)" using tt ev m1 by simp
  then show ?thesis using s'(2) by blast
qed

lemma create_attempts:
  assumes pc: "proto_codec w" and lw: "base < last_write h k" and req: "pr_Key req = Some k" "pr_Lease req = 0"
  shows "storage_inv (fs_holds w base) m h K \<Longrightarrow> unat (ms_applied m) = length h
    \<Longrightarrow> GetLatestRevisionByKey (ms_revisions m) k (ms_applied m) = None
    \<Longrightarrow> \<exists>m'. txn_attempts (fs_log w) now n m (create_request k req) = (Inl (Errorf ''transaction conflicted with concurrent writes''), m')
      \<and> storage_inv (fs_holds w base) m' h K"
proof (induction n arbitrary: m)
  case (Suc n)
  obtain s' resp where s': "tryTxn (fs_log w) now m (create_request k req) = (Inr (resp, False), m \<lparr> ms_log := s' \<rparr>)" "fs_holds w base s' h K"
    using create_rejected[OF pc Suc.prems lw req] by blast
  have "storage_inv (fs_holds w base) (m \<lparr> ms_log := s' \<rparr>) h K" using Suc.prems(1) s'(2) by (simp add: storage_inv_def)
  then show ?case using Suc.IH[of "m \<lparr> ms_log := s' \<rparr>"] Suc.prems s'(1) by simp
qed simp

subsection \<open>Properties\<close>

text \<open>C4: Linearizable, multi-version reads.  On a storage whose log holds the history \<^verbatim>\<open>h\<close>, whatever part of it the index
  has already applied, \<^verbatim>\<open>Get\<close> of a key first catches up with the log and then answers from \<^verbatim>\<open>h\<close> alone: the pair that the
  last record at or below the requested revision put (none when that record deletes the key, or there is none),
  at the latest revision of the log when no revision is requested; \<^verbatim>\<open>ErrCompacted\<close> below the compacted
  revision and \<^verbatim>\<open>ErrFutureRev\<close> beyond the log.  The header has the latest revision, and the history stays what it was.\<close>

theorem Get_reads:
  assumes "proto_codec w" and "storage_inv (fs_holds w base) m h K"
    and "rr_Key req = Some k" and "rr_RangeEnd req = None" and "\<not> rr_CountOnly req"
  shows "\<exists>m'. storage_inv (fs_holds w base) m' h K \<and> Get (fs_log w) now m req =
     (case get_spec h (ms_compacted m) req k (of_nat (length h)) of
        Inl e \<Rightarrow> Inl e | Inr resp \<Rightarrow> Inr (resp \<lparr> rp_Header := Some (createHeader (of_nat (length h))) \<rparr>), m')"
  by (rule storage_log.Get_ok[OF fs_storage_log[OF assms(1)] assms(2-5)])

theorem Get_reads_witness:
  "rp_Kvs (projr (fst (Get (fs_log std_wire) 0 demo_storage3 (demo_get 5 2)))) = [demo_kv]
   \<and> rp_Kvs (projr (fst (Get (fs_log std_wire) 0 demo_storage3 (demo_get 5 0)))) = []"
proof -
  have "kv_at [first_record, put_5, delete_5] 2 [5] = Some demo_kv"
    using kv_at_append[of 2 "[first_record, put_5]" "[delete_5]" "[5]"] demo_records(4) by (simp add: numeral_2_eq_2)
  moreover have "kv_at [first_record, put_5, delete_5] 3 [5] = None" using demo_records(5) by (simp add: numeral_3_eq_3)
  ultimately show ?thesis
    using Get_reads[OF std.proto_codec_axioms demo_inv3(1), of "demo_get 5 2" "[5]" 0]
      Get_reads[OF std.proto_codec_axioms demo_inv3(1), of "demo_get 5 0" "[5]" 0]
    by (auto simp: get_spec_def get_response_def demo_inv3(2))
qed

text \<open>C3: A put that nothing else interferes with is committed at the next revision.  On a storage whose log holds
  \<^verbatim>\<open>h\<close>, \<^verbatim>\<open>Put\<close> succeeds and leaves a storage whose log holds \<^verbatim>\<open>h\<close> and one record more.  As of the new revision the key has
  the request's value and lease, that revision as its modification revision, the creation revision of the
  pair it replaces (or the new one) and the next version (or 1); every other key, and every key at every earlier
  revision, has what it had; the response has the revision and, when asked for, the pair replaced.\<close>

theorem Put_writes:
  assumes "proto_codec w" and "storage_inv (fs_holds w base) m h K" and "Suc (Suc (length h)) < 2 ^ 63"
    and "\<forall>q. storable w (restamp q (put_record h req))" and "k = the_bytes (pr_Key req)" and "r = of_nat (Suc (length h))"
    and "pr_Lease req \<noteq> 0 \<Longrightarrow> unat (ms_applied m) = length h \<and> HasLease (ms_leaseManager m) (pr_Lease req)"
  shows "\<exists>m' h'. Put (fs_log w) now m req =
         (Inr \<lparr> pp_Header = Some (createHeader r), pp_PrevKv = (if pr_PrevKv req then kv_at h (length h) k else None) \<rparr>, m')
     \<and> storage_inv (fs_holds w base) m' h' (insert r K) \<and> length h' = Suc (length h)
     \<and> kv_at h' (Suc (length h)) k = Some \<lparr> kv_key = k, kv_createRevision = (case kv_at h (length h) k of Some p \<Rightarrow> kv_createRevision p | None \<Rightarrow> r),
           kv_modRevision = r, kv_version = (case kv_at h (length h) k of Some p \<Rightarrow> kv_version p + 1 | None \<Rightarrow> 1),
           kv_value = pr_Value req, kv_lease = pr_Lease req \<rparr>
     \<and> (\<forall>j. j \<noteq> k \<longrightarrow> kv_at h' (Suc (length h)) j = kv_at h (length h) j)
     \<and> (\<forall>n \<le> length h. \<forall>j. kv_at h' n j = kv_at h n j)"
proof -
  obtain m' where "Put (fs_log w) now m req =
         (Inr \<lparr> pp_Header = Some (createHeader r), pp_PrevKv = (if pr_PrevKv req then kv_at h (length h) k else None) \<rparr>, m')"
    "storage_inv (fs_holds w base) m' (h @ [put_record h req]) (insert r K)"
    using storage_log.Put_ok[OF fs_storage_log[OF assms(1)] assms(2-4,7)] assms(5,6) by metis
  moreover have "findEvent (put_record h req) j = (if j = k then Some (hd (lr_events (put_record h req))) else None)" for j
    using assms(5) by (simp add: findEvent_def put_record_def Let_def)
  ultimately show ?thesis
    unfolding assms(5,6)
    by (intro exI[of _ m'] exI[of _ "h @ [put_record h req]"]) (simp add: kv_at_snoc kv_at_append del: of_nat_Suc, simp add: put_record_def Let_def del: of_nat_Suc)
qed

theorem Put_writes_witness:
  "\<exists>m' h'. Put (fs_log std_wire) 0 demo_storage (demo_put 5 7) = (Inr \<lparr> pp_Header = Some (createHeader 2), pp_PrevKv = None \<rparr>, m')
     \<and> storage_inv (fs_holds std_wire 0) m' h' {1, 2} \<and> kv_at h' 2 [5] = Some demo_kv"
proof -
  have s: "\<forall>q. storable std_wire (restamp q (put_record [first_record] (demo_put 5 7)))" using demo_storable(1) by (simp add: demo_records)
  have b: "Suc (Suc (length [first_record])) < 2 ^ 63" by simp
  obtain m' h' where "Put (fs_log std_wire) 0 demo_storage (demo_put 5 7) = (Inr \<lparr> pp_Header = Some (createHeader 2), pp_PrevKv = None \<rparr>, m')"
    "storage_inv (fs_holds std_wire 0) m' h' (insert 2 {1})" "kv_at h' 2 [5] = Some demo_kv"
    using Put_writes[OF std.proto_codec_axioms demo_inv(1) b s, of "[5]" 2 0] by (auto simp: demo_records(3) demo_kv_def numeral_2_eq_2)
  then show ?thesis by (auto simp: insert_commute)
qed


text \<open>C31: A deleted key that the index still has takes the process down when it is deleted again.  When the last record
  for the key is a delete above the compacted revision, \<^verbatim>\<open>Delete\<close> of the key neither succeeds nor reports that
  nothing was deleted: it is a fatal error of the process, whatever the log.\<close>

theorem Delete_twice_fatal:
  assumes "proto_codec w" and "storage_inv (fs_holds w base) m h K" and "dr_RangeEnd req = None" and "k = the_bytes (dr_Key req)"
    and "unat (ms_compacted m) < last_write h k" and "deleted_at h (last_write h k) k"
  shows "fst (Delete (fs_log w) now m req) = Inl (Fatal ''old event is not a PUT'')"
proof -
  have gone: "kv_at h (length h) k = None" using assms(6) by (auto simp: kv_at_def deleted_at_def split: option.splits)
  obtain m' where m': "storage_inv (fs_holds w base) m' h K" "ms_compacted m' = ms_compacted m" "unat (ms_applied m') = length h"
    "Delete (fs_log w) now m req = (if GetLatestRevisionByKey (ms_revisions m') k (of_nat (length h)) = None
       then Inr \<lparr> dp_Header = Some (createHeader (of_nat (length h))), dp_Deleted = 0 \<rparr>
       else Inl (Fatal ''old event is not a PUT''), m')"
    using storage_log.Delete_absent[OF fs_storage_log[OF assms(1)] assms(2,3)] gone assms(4) by metis
  have s: "unat (of_nat (length h) :: revision) = length h" using m'(3) by (metis of_nat_unat ucast_id)
  have "lookup_ok h (unat (ms_compacted m)) k (last_write h k) (GetLatestRevisionByKey (ms_revisions m') k (of_nat (length h)))"
    using m'(1,2,3) s unfolding storage_inv_def index_ok_def by (metis min.idem order_refl take_all)
  then have "GetLatestRevisionByKey (ms_revisions m') k (of_nat (length h)) \<noteq> None" using assms(5) by (auto simp: lookup_ok_def)
  then show ?thesis by (simp add: m'(4))
qed

theorem Delete_twice_fatal_witness:
  "fst (Delete (fs_log std_wire) 0 demo_storage3 (demo_delete 5)) = Inl (Fatal ''old event is not a PUT'')"
proof -
  have "last_write [first_record, put_5, delete_5] [5] = 3" by (simp add: last_write_def touches_def delete_5_def)
  then show ?thesis
    using Delete_twice_fatal[OF std.proto_codec_axioms demo_inv3(1), of "demo_delete 5" "[5]" 0]
    by (simp add: demo_inv3(2) deleted_at_def event_at_def findEvent_def delete_5_def)
qed



text \<open>C19: A key that was deleted and compacted away cannot be created again conditionally.  When a key was last written after
  the log was opened and the index no longer has it, the transaction that puts the key if its modification revision is 0 (which
  it is: the key does not exist) is never committed: it records that it read revision 0, the table of committed writes still has
  the delete, and every one of the attempts is rejected, on a log that nothing else writes to, which stays as it was.\<close>

theorem create_after_compaction:
  assumes "proto_codec w" and "storage_inv (fs_holds w base) m h K" and "unat (ms_applied m) = length h"
    and "GetLatestRevisionByKey (ms_revisions m) k (ms_applied m) = None" and "base < last_write h k"
    and "pr_Key req = Some k" and "pr_Lease req = 0"
  shows "kv_at h (length h) k = None
    \<and> (\<exists>m'. Txn (fs_log w) now m (create_request k req) = (Inl (Errorf ''transaction conflicted with concurrent writes''), m')
         \<and> storage_inv (fs_holds w base) m' h K)"
proof -
  have c: "ms_compacted m \<le> ms_applied m" using assms(2) by (simp add: storage_inv_def word_le_nat_alt)
  from assms(2) c order_refl have "kv_at h (unat (ms_applied m)) k = None"
    by (cases rule: lookup_cases[where k = k]) (simp_all add: assms(4))
  then show ?thesis
    using create_attempts[OF assms(1,5-7,2-4), of now maxTxnAttempts] by (simp add: Txn_def assms(3))
qed


theorem create_after_compaction_witness:
  "\<exists>m'. Txn (fs_log std_wire) 0 demo_storage4 (create_request [5] (demo_put 5 8))
     = (Inl (Errorf ''transaction conflicted with concurrent writes''), m')"
proof -
  have lw: "last_write [first_record, put_5, delete_5] [5] = 3" by (simp add: last_write_def touches_def delete_5_def)
  have inv: "storage_inv (fs_holds std_wire 0) demo_storage4 [first_record, put_5, delete_5] {1, 2, 3}"
    using fs.Compact_ok[OF demo_inv3(1), of 3] by (simp add: demo_compact)
  show ?thesis
    using create_after_compaction[OF std.proto_codec_axioms inv, of "[5]" "demo_put 5 8" 0] lw demo_gone by auto
qed

end
