(* ===== verification/Log_Compaction.thy ===== *)
theory Log_Compaction
  imports Log_Recovery
begin

text \<open>
  Compaction of the log's files: what is rewritten holds exactly the live records of what it replaces, and the log
  goes on holding its history, with every live record and every record above the point readable.
\<close>

subsection \<open>The live records of a file\<close>

definition live_rec :: "liveFunc \<Rightarrow> stamped \<Rightarrow> bool" where
  "live_rec live x \<longleftrightarrow> list_ex (\<lambda>ev. live (kv_key (ev_kv ev)) (fst x)) (lr_events (snd x))"

definition keep_each :: "Protowire \<Rightarrow> ('s \<Rightarrow> bytes \<Rightarrow> revision \<Rightarrow> 's) \<Rightarrow> 's \<Rightarrow> stamped list \<Rightarrow> 's" where
  "keep_each w keep s xs = foldl (\<lambda>s x. keep s (enc_message w x) (fst x)) s xs"

lemma live_loop_ok:
  assumes wf: "wire_format w"
  shows "\<forall>x \<in> set xs. recordable w x \<Longrightarrow> \<forall>j < length xs. revisionAt f (i + j) = fst (xs ! j) \<Longrightarrow>
    live_loop w live f (pre @ enc_records w xs @ post) keep i (spans_at w (length pre) xs) s dead
    = Inr (keep_each w keep s (filter (live_rec live) xs), dead + length (filter (\<lambda>x. \<not> live_rec live x) xs))"
proof (induction xs arbitrary: pre i s dead)
  case (Cons x xs)
  have sb: "span_bytes (spans_at w (length pre) (x # xs) ! 0) (pre @ enc_records w (x # xs) @ post) = enc_message w x"
    using span_bytes_at[of 0 "x # xs" w pre post] by simp
  have dec: "DecodeAlias w (enc_message w x) = Inr (snd x)"
    using wire_format.DecodeAlias_roundtrip[OF wf, of "fst x" "lr_events (snd x)"] Cons.prems(1)
    by (simp add: enc_message_def recordable_def)
  have rv: "revisionAt f i = fst x" using Cons.prems(2) by (metis add.right_neutral length_greater_0_conv list.discI nth_Cons_0)
  have eq: "pre @ enc_records w (x # xs) @ post = (pre @ enc_delimited w (enc_message w x)) @ enc_records w xs @ post"
    by (simp add: enc_records_Cons)
  have "\<forall>j < length xs. revisionAt f (Suc i + j) = fst (xs ! j)"
    using Cons.prems(2) by (metis Suc_less_eq add_Suc_shift length_Cons nth_Cons_Suc)
  then have IH: "live_loop w live f (pre @ enc_records w (x # xs) @ post) keep (Suc i)
      (spans_at w (length pre + length (enc_delimited w (enc_message w x))) xs) s' dead'
    = Inr (keep_each w keep s' (filter (live_rec live) xs), dead' + length (filter (\<lambda>x. \<not> live_rec live x) xs))" for s' dead'
    using Cons.IH[of "Suc i" "pre @ enc_delimited w (enc_message w x)" s' dead'] Cons.prems(1) unfolding eq by simp
  have "list_ex (\<lambda>ev. live (kv_key (ev_kv ev)) (fst x)) (lr_events (snd x)) = live_rec live x" by (simp add: live_rec_def)
  then show ?case using sb dec rv IH by (simp add: keep_each_def Let_def)
qed (simp add: keep_each_def)

lemma revisionAt_ok:
  assumes f: "file_ok w d h f xs" "lf_indexed f" and i: "i < length xs"
  shows "revisionAt f i = fst (xs ! i)"
proof (cases "fi_sparse f")
  case True
  then show ?thesis using f i by (simp add: file_ok_def revisionAt_def)
next
  case False
  then have seq: "map (unat \<circ> fst) xs = [unat (fi_first f)..<Suc (unat (fi_last f))]" and none: "lf_revisions f = None"
    using f(1) by (simp_all add: file_ok_def)
  have len: "length xs = Suc (unat (fi_last f)) - unat (fi_first f)" using seq by (metis length_map length_upt)
  have "unat (fst (xs ! i)) = map (unat \<circ> fst) xs ! i" using i by simp
  also have "\<dots> = unat (fi_first f) + i" unfolding seq using i len by (simp del: upt_Suc)
  finally have "fst (xs ! i) = of_nat (unat (fi_first f) + i)" by (metis of_nat_unat ucast_id)
  then show ?thesis by (simp add: revisionAt_def none)
qed

text \<open>The parts of a file's description that reading its index leaves as they are.\<close>

definition same_file :: "logFile \<Rightarrow> logFile \<Rightarrow> bool" where
  "same_file f g \<longleftrightarrow> lf_name f = lf_name g \<and> fi_first f = fi_first g \<and> fi_last f = fi_last g \<and> fi_sparse f = fi_sparse g"

lemma same_file_refl [simp]: "same_file f f"
  by (simp add: same_file_def)

lemma liveRecords_ok:
  assumes wf: "wire_format w" and f: "file_ok w d h f xs"
  obtains f' where "liveRecords w d f live keep s
      = Inr (f', keep_each w keep s (filter (live_rec live) xs), length (filter (\<lambda>x. \<not> live_rec live x) xs))"
    "file_ok w d h f' xs" "lf_indexed f'" "same_file f' f"
proof -
  obtain f' where f': "loadLocked w d f = Inr f'" "file_ok w d h f' xs" "lf_indexed f'" "lf_name f' = lf_name f"
    "fi_first f' = fi_first f" "fi_last f' = fi_last f" "fi_sparse f' = fi_sparse f" "lf_size f' = lf_size f"
    by (rule loadLocked_ok[OF wf f])
  note ff = file_ok_full[OF f'(2)]
  have sp: "lf_spans f' = spans_at w (length magic) xs" using f'(2,3) by (simp add: file_ok_def)
  have rc: "read_file d (lf_name f') = magic @ enc_records w xs" using ff(1) by (simp add: read_file_def)
  have loop: "live_loop w live f' (magic @ enc_records w xs) keep 0 (spans_at w (length magic) xs) s 0
      = Inr (keep_each w keep s (filter (live_rec live) xs), length (filter (\<lambda>x. \<not> live_rec live x) xs))"
    using live_loop_ok[OF wf ff(4), of f' 0 live magic "[]" keep s 0] revisionAt_ok[OF f'(2,3)] by simp
  show thesis
    by (rule that[OF _ f'(2,3)]) (use f' ff(2) rc loop sp in \<open>simp_all add: liveRecords_def Let_def same_file_def\<close>)
qed

lemma write_live_all:
  assumes wf: "wire_format w"
  shows "keep_each w (write_live w) (out, spans, revs) ys = (out @ enc_records w ys, spans @ spans_at w (length out) ys, revs @ map fst ys)"
proof (induction ys arbitrary: out spans revs)
  case (Cons y ys)
  have "write_live w (out, spans, revs) (enc_message w y) (fst y) =
     (out @ enc_delimited w (enc_message w y), spans @ [spans_at w (length out) [y] ! 0], revs @ [fst y])"
    by (simp add: write_live_def Let_def wire_format.WriteRecord_record[OF wf] enc_delimited_def)
  then show ?case using Cons by (simp add: keep_each_def enc_records_Cons)
qed (simp add: keep_each_def)

lemma write_group_ok:
  assumes wf: "wire_format w" and "list_all2 (file_ok w d h) grp yss"
  shows "write_group w d live grp (out, spans, revs) = Inr (out @ enc_records w (filter (live_rec live) (concat yss)),
      spans @ spans_at w (length out) (filter (live_rec live) (concat yss)), revs @ map fst (filter (live_rec live) (concat yss)))"
  using assms(2)
proof (induction grp yss arbitrary: out spans revs rule: list_all2_induct)
  case (Cons f fs xs xss)
  obtain f' where "liveRecords w d f live (write_live w) (out, spans, revs)
      = Inr (f', keep_each w (write_live w) (out, spans, revs) (filter (live_rec live) xs), length (filter (\<lambda>x. \<not> live_rec live x) xs))"
    by (rule liveRecords_ok[OF wf Cons(1)])
  then show ?case using Cons.IH by (simp add: write_live_all[OF wf] spans_at_append)
qed simp


subsection \<open>Directories\<close>

lemma tmp_not_log: "parseFilename (name @ ''.tmp'') = Inl (Errorf ''invalid filename format'')"
proof -
  have "\<not> suffix ''.log'' (name @ ''.tmp'')" by (auto simp: suffix_def dest!: arg_cong[of _ _ last])
  then show ?thesis by (simp add: parseFilename_def)
qed

lemma remove_files_dir:
  "map_of (remove_files d name grp) = (\<lambda>n. if n \<in> lf_name ` set grp \<and> n \<noteq> name then None else map_of d n)"
  "set (map fst (remove_files d name grp)) = set (map fst d) - (lf_name ` set grp - {name})"
  "distinct (map fst d) \<Longrightarrow> distinct (map fst (remove_files d name grp))"
proof -
  have "map_of (remove_files d name grp) = (\<lambda>n. if n \<in> lf_name ` set grp \<and> n \<noteq> name then None else map_of d n)
    \<and> set (map fst (remove_files d name grp)) = set (map fst d) - (lf_name ` set grp - {name})
    \<and> (distinct (map fst d) \<longrightarrow> distinct (map fst (remove_files d name grp)))"
    unfolding remove_files_def
  proof (induction grp arbitrary: d)
    case (Cons f grp)
    show ?case
    proof (cases "lf_name f = name")
      case True
      then show ?thesis using Cons[of d] by (auto simp: fun_eq_iff)
    next
      case False
      have k: "set (map fst (AList.delete (lf_name f) d)) = set (map fst d) - {lf_name f}"
        by (simp add: delete_keys)
      have "distinct (map fst d) \<longrightarrow> distinct (map fst (AList.delete (lf_name f) d))" by (simp add: distinct_delete)
      then show ?thesis using Cons[of "AList.delete (lf_name f) d"] False unfolding k
        by (auto simp: fun_eq_iff delete_conv' simp del: set_map)
    qed
  qed simp
  then show "map_of (remove_files d name grp) = (\<lambda>n. if n \<in> lf_name ` set grp \<and> n \<noteq> name then None else map_of d n)"
    "set (map fst (remove_files d name grp)) = set (map fst d) - (lf_name ` set grp - {name})"
    "distinct (map fst d) \<Longrightarrow> distinct (map fst (remove_files d name grp))" by blast+
qed

lemma index_of_here: "\<forall>f \<in> set as. lf_name f \<noteq> lf_name g \<Longrightarrow> index_of (as @ g # rest) (lf_name g) = length as"
  by (simp add: index_of_def takeWhile_tail takeWhile_eq_all_conv[THEN iffD2])

lemma chain_ends: "chain a gs b \<Longrightarrow> gs \<noteq> [] \<Longrightarrow> unat (fi_first (hd gs)) = a \<and> unat (fi_last (last gs)) = b"
proof (induction gs arbitrary: a)
  case (Cons g gs)
  then show ?case by (cases gs) auto
qed simp


subsection \<open>Rewriting a group of files\<close>

lemma list_all2_same_ends:
  assumes "list_all2 same_file grp grp'" and "grp' \<noteq> []"
  shows "grp \<noteq> []" "same_file (hd grp) (hd grp')" "same_file (last grp) (last grp')" "lf_name ` set grp = lf_name ` set grp'" "length grp = length grp'"
proof -
  show l: "length grp = length grp'" using assms(1) by (rule list_all2_lengthD)
  then show ne: "grp \<noteq> []" using assms(2) by auto
  show "same_file (hd grp) (hd grp')" using assms ne by (cases grp; cases grp') auto
  show "same_file (last grp) (last grp')" using assms ne l list_all2_nthD[OF assms(1), of "length grp - 1"] by (simp add: last_conv_nth)
  have "map lf_name grp = map lf_name grp'"
    by (rule nth_equalityI) (use l list_all2_nthD[OF assms(1)] in \<open>auto simp: same_file_def\<close>)
  then show "lf_name ` set grp = lf_name ` set grp'" by (metis list.set_map)
qed

text \<open>The description of the file that replaces a group, and that it is one of the log's.\<close>

definition compacted_file :: "Protowire \<Rightarrow> logFile list \<Rightarrow> stamped list \<Rightarrow> logFile" where
  "compacted_file w grp ys =
     (let info = \<lparr> fi_first = fi_first (hd grp), fi_last = fi_last (last grp), fi_sparse = True \<rparr>
      in (new_logFile info (filename info)) \<lparr> lf_count := length ys, lf_size := length (magic @ enc_records w ys), lf_indexed := True,
           lf_spans := spans_at w (length magic) ys, lf_revisions := Some (map fst ys) \<rparr>)"

lemma compacted_file_ok:
  assumes g: "list_all2 (file_ok w d h) grp yss" and c: "chain a grp b" and ne: "grp \<noteq> []" and ab: "a \<le> b"
    and d': "map_of d' (lf_name (compacted_file w grp ys)) = Some (magic @ enc_records w ys)"
    and ys: "ys = filter P (concat yss)"
  shows "file_ok w d' h (compacted_file w grp ys) ys"
proof -
  have ends: "unat (fi_first (hd grp)) = a" "unat (fi_last (last grp)) = b" using chain_ends[OF c ne] by simp_all
  have s: "sorted_wrt (<) (map fst ys)"
    using files_sorted(1)[OF g c] unfolding ys by (simp add: sorted_wrt_map sorted_wrt_filter)
  have mem: "recordable w x \<and> hist_map h (fst x) = Some (snd x) \<and> a \<le> unat (fst x) \<and> unat (fst x) \<le> b" if x: "x \<in> set ys" for x
  proof -
    obtain xs where xs: "xs \<in> set yss" "x \<in> set xs" using x ys by auto
    obtain f where f: "f \<in> set grp" "file_ok w d h f xs" using list_all2_set2[OF g xs(1)] by blast
    have "unat (fst x) \<le> unat (fi_last f)" using f(2) xs(2) by (auto simp: file_ok_def word_le_nat_alt)
    then have "unat (fst x) \<le> b" using chain_mem[OF c f(1)] by simp
    moreover have "a \<le> unat (fst x)" using files_sorted(2)[OF g c] x ys by auto
    ultimately show ?thesis using f(2) xs(2) by (auto simp: file_ok_def)
  qed
  have nm: "named (compacted_file w grp ys)"
    using ends ab by (simp add: named_def compacted_file_def Let_def new_logFile_def fileInfo.truncate_def word_le_nat_alt)
  show ?thesis
    unfolding file_ok_def using nm d' s mem ends
    by (auto simp: compacted_file_def Let_def new_logFile_def word_le_nat_alt)
qed

lemma compactGroup_eq:
  fixes live :: liveFunc
  assumes wf: "wire_format w" and g: "list_all2 (file_ok w (fl_dir l) h) grp yss"
  defines "ys \<equiv> filter (live_rec live) (concat yss)"
  defines "c \<equiv> compacted_file w grp ys"
  shows "\<exists>arch. compactGroup w l grp live = (None, l \<lparr>
     fl_dir := remove_files (AList.update (lf_name c) (magic @ enc_records w ys) (AList.delete (lf_name c @ ''.tmp'') (fl_dir l))) (lf_name c) grp,
     fl_files := (let i = index_of (fl_files l) (lf_name (hd grp)) in take i (fl_files l) @ [c] @ drop (i + length grp) (fl_files l)),
     fl_archiver := arch \<rparr>)"
  using write_group_ok[OF wf g, of live magic "[]" "[]"]
  by (auto simp: compactGroup_def Let_def c_def ys_def compacted_file_def new_logFile_def split: if_splits intro: exI[of _ "fl_archiver l"])


lemma compactGroup_ok:
  fixes live :: liveFunc
  assumes wf: "wire_format w" and inv: "log_inv w l h xss" and fs: "fl_files l = as @ grp' @ bs"
    and xss: "xss = xas @ yss @ xbs" "length xas = length as" "length yss = length grp'" and ne: "grp' \<noteq> []" "bs \<noteq> []"
    and g: "list_all2 same_file grp grp'" "list_all2 (file_ok w (fl_dir l) h) grp yss"
  obtains l' c where "compactGroup w l grp live = (None, l')" "fl_files l' = as @ [c] @ bs"
    "log_inv w l' h (xas @ [filter (live_rec live) (concat yss)] @ xbs)" "fl_opts l' = fl_opts l"
    "\<forall>f \<in> set (as @ bs). map_of (fl_dir l') (lf_name f) = map_of (fl_dir l) (lf_name f)"
proof -
  define ys where "ys = filter (live_rec live) (concat yss)"
  define c where "c = compacted_file w grp ys"
  note ends = list_all2_same_ends[OF g(1) ne(1)]
  note L = inv[unfolded log_inv_def]
  have names: "distinct (map lf_name (as @ grp' @ bs))" "sorted_wrt (\<lambda>f g. fi_first f < fi_first g) (as @ grp' @ bs)"
    "\<forall>f \<in> set (as @ grp' @ bs). named f" using log_inv_names[OF inv] unfolding fs by simp_all
  have lens: "list_all2 (file_ok w (fl_dir l) h) as xas" "list_all2 (file_ok w (fl_dir l) h) grp' yss" "list_all2 (file_ok w (fl_dir l) h) bs xbs"
    using L unfolding fs xss(1) by (simp_all add: list_all2_append xss(2,3))
  obtain m1 m2 where ch: "chain 1 as m1" "chain (Suc m1) grp' m2" "chain (Suc m2) bs (length h)"
    using L chain_append[of 1 as "grp' @ bs" "length h"] chain_append[of _ grp' bs "length h"] unfolding fs by auto
  have chg: "chain (Suc m1) grp m2"
  proof -
    have "map fi_first grp = map fi_first grp'" "map fi_last grp = map fi_last grp'"
      by (rule nth_equalityI; use ends(5) list_all2_nthD[OF g(1)] in \<open>auto simp: same_file_def\<close>)+
    then show ?thesis using ch(2) chain_cong by blast
  qed
  have hd_in: "hd grp' \<in> set (butlast (as @ grp' @ bs))" using ne by (simp add: butlast_append)
  have ce: "unat (fi_first (hd grp')) = Suc m1" "unat (fi_last (last grp')) = m2" using chain_ends[OF ch(2) ne(1)] by simp_all
  have "fi_first (hd grp') \<le> fi_last (hd grp')" using L hd_in unfolding fs by blast
  moreover have "unat (fi_last (hd grp')) \<le> m2" using chain_mem[OF ch(2)] ne(1) by simp
  ultimately have ab: "Suc m1 \<le> m2" using ce by (simp add: word_le_nat_alt)
  have cf: "fi_first c = fi_first (hd grp')" "fi_last c = fi_last (last grp')" "fi_sparse c" "named c"
    using ends(2,3) ce ab by (simp_all add: c_def compacted_file_def Let_def new_logFile_def same_file_def named_def fileInfo.truncate_def word_le_nat_alt)
  define d1 where "d1 = AList.update (lf_name c) (magic @ enc_records w ys) (AList.delete (lf_name c @ ''.tmp'') (fl_dir l))"
  define d' where "d' = remove_files d1 (lf_name c) grp"
  obtain g0 gs where g0: "grp' = g0 # gs" using ne(1) by (cases grp') auto
  have other: "lf_name f \<noteq> lf_name c" "lf_name f \<notin> lf_name ` set grp" if f: "f \<in> set (as @ bs)" for f
  proof -
    have "\<forall>f \<in> set as. fi_first f < fi_first g0" "\<forall>f \<in> set bs. fi_first g0 < fi_first f"
      using names(2) unfolding g0 by (simp_all add: sorted_wrt_append)
    then have nf: "fi_first f \<noteq> fi_first c" using f unfolding cf(1) g0 by auto
    have "named f" using names(3) f by auto
    then show "lf_name f \<noteq> lf_name c" using parse_named[OF cf(4)] parse_named[of f] nf by (metis Inr_inject fileInfo.select_convs(1))
    show "lf_name f \<notin> lf_name ` set grp" using names(1) f unfolding ends(4) by auto
  qed
  have tmp: "lf_name f \<noteq> lf_name c @ ''.tmp''" if "named f" for f using parse_named[OF that] tmp_not_log[of "lf_name c"] by auto
  have dir: "map_of d' n = (if n = lf_name c then Some (magic @ enc_records w ys)
      else if n \<in> lf_name ` set grp \<or> n = lf_name c @ ''.tmp'' then None else map_of (fl_dir l) n)" for n
    by (simp add: d'_def remove_files_dir(1) d1_def update_conv' delete_conv')
  have keep: "map_of d' (lf_name f) = map_of (fl_dir l) (lf_name f)" if "f \<in> set (as @ bs)" for f
    using other[OF that] tmp[of f] names(3) that by (auto simp: dir)
  have okc: "file_ok w d' h c ys"
    unfolding c_def by (rule compacted_file_ok[OF g(2) chg ends(1) ab _ ys_def]) (simp add: dir c_def[symmetric])
  have dom1: "set (map fst d1) = insert (lf_name c) (set (map fst (fl_dir l)) - {lf_name c @ ''.tmp''})"
    by (simp add: d1_def dom_update[unfolded dom_map_of_conv_image_fst] delete_keys update_keys del: set_map) auto
  have dd: "distinct (map fst d')" unfolding d'_def using L by (intro remove_files_dir(3)) (simp add: d1_def distinct_update distinct_delete)
  have parse: "{n \<in> set (map fst d'). \<exists>fi. parseFilename n = Inr fi} = set (map lf_name (as @ [c] @ bs))"
  proof -
    have "set (map lf_name (as @ grp' @ bs)) = {n \<in> set (map fst (fl_dir l)). \<exists>fi. parseFilename n = Inr fi}" using L unfolding fs by blast
    then have p: "n \<in> set (map fst (fl_dir l)) \<and> (\<exists>fi. parseFilename n = Inr fi) \<longleftrightarrow> n \<in> lf_name ` set as \<union> lf_name ` set grp \<union> lf_name ` set bs" for n
      unfolding ends(4) by auto
    have o1: "n \<noteq> lf_name c" "n \<notin> lf_name ` set grp" if nn: "n \<in> lf_name ` set as \<union> lf_name ` set bs" for n
    proof -
      obtain f where "f \<in> set (as @ bs)" "n = lf_name f" using nn by auto
      then show "n \<noteq> lf_name c" "n \<notin> lf_name ` set grp" using other by metis+
    qed
    have pc: "\<exists>fi. parseFilename (lf_name c) = Inr fi" using parse_named[OF cf(4)] by blast
    have pt: "\<not> (\<exists>fi. parseFilename (lf_name c @ ''.tmp'') = Inr fi)" using tmp_not_log by simp
    have "n \<in> set (map fst d') \<and> (\<exists>fi. parseFilename n = Inr fi) \<longleftrightarrow> n \<in> insert (lf_name c) (lf_name ` set as \<union> lf_name ` set bs)" for n
      unfolding d'_def remove_files_dir(2) dom1 using p[of n] o1[of n] pc pt by blast
    then show ?thesis by auto
  qed
  obtain arch where cg: "compactGroup w l grp live = (None, l \<lparr> fl_dir := d',
     fl_files := (let i = index_of (fl_files l) (lf_name (hd grp)) in take i (fl_files l) @ [c] @ drop (i + length grp) (fl_files l)), fl_archiver := arch \<rparr>)"
    using compactGroup_eq[OF wf g(2), of live] unfolding ys_def[symmetric] c_def[symmetric] d1_def[symmetric] d'_def[symmetric] by blast
  have "lf_name g0 \<notin> lf_name ` set as" using names(1) unfolding g0 by auto
  then have "\<forall>f \<in> set as. lf_name f \<noteq> lf_name g0" by (metis image_eqI)
  moreover have "lf_name (hd grp) = lf_name g0" using ends(2) unfolding g0 by (simp add: same_file_def)
  ultimately have "index_of (fl_files l) (lf_name (hd grp)) = length as"
    using index_of_here[of as g0 "gs @ bs"] unfolding fs g0 by simp
  then have files: "(let i = index_of (fl_files l) (lf_name (hd grp)) in take i (fl_files l) @ [c] @ drop (i + length grp) (fl_files l)) = as @ [c] @ bs"
    by (simp add: fs ends(5))
  define l' where "l' = l \<lparr> fl_dir := d', fl_files := as @ [c] @ bs, fl_archiver := arch \<rparr>"
  have "chain 1 (as @ [c] @ bs) (length h)"
    using ch(1,3) ce ab cf(1,2) by (simp add: chain_append)
  moreover have "list_all2 (file_ok w d' h) (as @ [c] @ bs) (xas @ [ys] @ xbs)"
    using list_all2_file_ok_dir[OF lens(1), of d'] list_all2_file_ok_dir[OF lens(3), of d'] keep okc xss(2)
    by (simp add: list_all2_append)
  moreover have "\<forall>f \<in> set (butlast (as @ [c] @ bs)). fi_first f \<le> fi_last f"
    using L ne ce ab cf(1,2) unfolding fs by (auto simp: butlast_append word_le_nat_alt)
  moreover have "\<not> fi_sparse (last (as @ [c] @ bs))" "lf_indexed (last (as @ [c] @ bs))" using L ne(2) unfolding fs by simp_all
  ultimately have "log_inv w l' h (xas @ [ys] @ xbs)"
    using L dd parse unfolding log_inv_def by (simp add: l'_def del: set_map)
  then show thesis using that[of l' c] cg keep unfolding files by (simp add: l'_def ys_def)
qed


subsection \<open>Measuring, and the walk over the files\<close>

definition measures :: "Protowire \<Rightarrow> liveFunc \<Rightarrow> measured \<Rightarrow> stamped list \<Rightarrow> bool" where
  "measures w live m xs \<longleftrightarrow> ms_liveBytes m = sum_list (map (\<lambda>x. length (enc_message w x) + 4) (filter (live_rec live) xs))
     \<and> ms_dead m = length (filter (\<lambda>x. \<not> live_rec live x) xs)"

lemma keep_each_bytes: "keep_each w (\<lambda>n m rv. n + length m + 4) n xs = n + sum_list (map (\<lambda>x. length (enc_message w x) + 4) xs)"
  by (induction xs arbitrary: n) (simp_all add: keep_each_def)

lemma measure_files_ok:
  assumes wf: "wire_format w"
  shows "log_inv w l h xss \<Longrightarrow> fl_files l = as @ fs' @ bs \<Longrightarrow> xss = xas @ yss @ xbs \<Longrightarrow> length xas = length as
    \<Longrightarrow> list_all2 same_file fs fs' \<Longrightarrow> list_all2 (file_ok w (fl_dir l) h) fs yss
    \<Longrightarrow> \<exists>ms' l' gs. measure_files w l live fs ms = (Inr (ms @ ms'), l') \<and> log_inv w l' h xss \<and> fl_files l' = as @ gs @ bs
      \<and> fl_dir l' = fl_dir l \<and> fl_opts l' = fl_opts l
      \<and> list_all2 same_file (map ms_f ms') gs \<and> list_all2 (file_ok w (fl_dir l) h) (map ms_f ms') yss \<and> list_all2 (measures w live) ms' yss"
proof (induction fs arbitrary: l as fs' xas yss ms)
  case Nil
  then show ?case by (intro exI[of _ "[]"] exI[of _ l]) auto
next
  case (Cons f fs)
  obtain f0 fs0 where fs': "fs' = f0 # fs0" "same_file f f0" "list_all2 same_file fs fs0" using Cons.prems(5) by (auto simp: list_all2_Cons1)
  obtain xs yss0 where yss: "yss = xs # yss0" "file_ok w (fl_dir l) h f xs" "list_all2 (file_ok w (fl_dir l) h) fs yss0"
    using Cons.prems(6) by (auto simp: list_all2_Cons1)
  obtain f' where f': "liveRecords w (fl_dir l) f live (\<lambda>n m rv. n + length m + 4) (0 :: nat)
      = Inr (f', keep_each w (\<lambda>n m rv. n + length m + 4) 0 (filter (live_rec live) xs), length (filter (\<lambda>x. \<not> live_rec live x) xs))"
    "file_ok w (fl_dir l) h f' xs" "lf_indexed f'" "same_file f' f"
    by (rule liveRecords_ok[OF wf yss(2)])
  let ?i = "length as"
  have at: "?i < length (fl_files l)" "fl_files l ! ?i = f0" "xss ! ?i = xs"
    using Cons.prems(2-4) fs'(1) yss(1) by (simp_all add: nth_append)
  have ff: "lf_name f' = lf_name f0" "fi_first f' = fi_first f0" "fi_last f' = fi_last f0" "fi_sparse f' = fi_sparse f0"
    using f'(4) fs'(2) by (simp_all add: same_file_def)
  define l1 where "l1 = l \<lparr> fl_files := update_file (fl_files l) f' \<rparr>"
  have inv1: "log_inv w l1 h xss"
    unfolding l1_def by (rule log_inv_reindex[OF Cons.prems(1) at(1)]) (use at f' ff in simp_all)
  have "update_file (fl_files l) f' = (fl_files l)[?i := f']"
    by (rule update_file_nth[OF log_inv_names(2)[OF Cons.prems(1)] at(1)]) (simp add: at(2) ff)
  then have fl1: "fl_files l1 = (as @ [f']) @ fs0 @ bs" using Cons.prems(2) fs'(1) by (simp add: l1_def)
  have x1: "xss = (xas @ [xs]) @ yss0 @ xbs" "length (xas @ [xs]) = length (as @ [f'])" using Cons.prems(3,4) yss(1) by simp_all
  have y1: "list_all2 (file_ok w (fl_dir l1) h) fs yss0" using yss(3) by (simp add: l1_def)
  obtain m where m: "measure_files w l live (f # fs) ms = measure_files w l1 live fs (ms @ [m])" "ms_f m = f'" "measures w live m xs"
    using f'(1) by (simp add: l1_def measures_def keep_each_bytes)
  obtain ms' l' gs where r: "measure_files w l1 live fs (ms @ [m]) = (Inr ((ms @ [m]) @ ms'), l')" "log_inv w l' h xss" "fl_files l' = (as @ [f']) @ gs @ bs"
    "fl_dir l' = fl_dir l1" "fl_opts l' = fl_opts l1" "list_all2 same_file (map ms_f ms') gs" "list_all2 (file_ok w (fl_dir l1) h) (map ms_f ms') yss0"
    "list_all2 (measures w live) ms' yss0"
    using Cons.IH[OF inv1 fl1 x1 fs'(3) y1] by blast
  show ?case
    by (intro exI[of _ "m # ms'"] exI[of _ l'] exI[of _ "f' # gs"]) (use r m yss(1) f'(2) in \<open>simp_all add: l1_def del: measure_files.simps\<close>)
qed

text \<open>\<^verbatim>\<open>thinned live xs ys\<close>: of the records \<^verbatim>\<open>xs\<close> only \<^verbatim>\<open>ys\<close> are left, with every live one among them.\<close>

definition thinned :: "liveFunc \<Rightarrow> stamped list list \<Rightarrow> stamped list list \<Rightarrow> bool" where
  "thinned live xss yss \<longleftrightarrow> set (concat yss) \<subseteq> set (concat xss) \<and> (\<forall>x \<in> set (concat xss). live_rec live x \<longrightarrow> x \<in> set (concat yss))"

lemma flush_group_ok:
  assumes wf: "wire_format w" and inv: "log_inv w l h xss" and fs: "fl_files l = as @ grp' @ bs" and xss: "xss = xas @ yss @ xbs" "length xas = length as"
    and ne: "bs \<noteq> []" and g: "list_all2 same_file grp grp'" "list_all2 (file_ok w (fl_dir l) h) grp yss"
  obtains l' cs ycs where "flush_group w l live grp dead = (None, l')" "fl_files l' = as @ cs @ bs" "length ycs = length cs"
    "log_inv w l' h (xas @ ycs @ xbs)" "thinned live yss ycs" "fl_opts l' = fl_opts l"
    "\<forall>f \<in> set (as @ bs). map_of (fl_dir l') (lf_name f) = map_of (fl_dir l) (lf_name f)"
proof (cases "grp = [] \<or> length grp = 1 \<and> (dead = 0 \<or> dead * 10 < lf_count (hd grp))")
  case True
  have "length yss = length grp'" using g by (metis list_all2_lengthD)
  then show thesis using True by (intro that[of l grp' yss]) (auto simp: flush_group_def fs inv[unfolded xss(1)] thinned_def)
next
  case False
  have len: "length yss = length grp'" using g by (metis list_all2_lengthD)
  have ne': "grp' \<noteq> []" using g(1) False by auto
  obtain l' c where l': "compactGroup w l grp live = (None, l')" "fl_files l' = as @ [c] @ bs"
    "log_inv w l' h (xas @ [filter (live_rec live) (concat yss)] @ xbs)" "fl_opts l' = fl_opts l"
    "\<forall>f \<in> set (as @ bs). map_of (fl_dir l') (lf_name f) = map_of (fl_dir l) (lf_name f)"
    by (rule compactGroup_ok[OF wf inv fs xss len ne' ne g])
  show thesis
    by (rule that[OF _ l'(2) _ l'(3) _ l'(4,5)]) (use False l'(1) in \<open>auto simp: flush_group_def thinned_def\<close>)
qed

lemma same_file_dir:
  assumes "list_all2 same_file fs gs" and "list_all2 (file_ok w d h) fs yss" and "\<forall>f \<in> set gs. map_of d' (lf_name f) = map_of d (lf_name f)"
  shows "list_all2 (file_ok w d' h) fs yss"
proof (rule list_all2_file_ok_dir[OF assms(2)], rule ballI)
  fix f assume "f \<in> set fs"
  then obtain g where "g \<in> set gs" "same_file f g" using list_all2_set1[OF assms(1)] by blast
  then show "map_of d' (lf_name f) = map_of d (lf_name f)" using assms(3) by (simp add: same_file_def)
qed

lemma thinned_append: "thinned live xss xss' \<Longrightarrow> thinned live yss yss' \<Longrightarrow> thinned live (xss @ yss) (xss' @ yss')"
  by (auto simp: thinned_def)

lemma compact_walk_ok:
  assumes wf: "wire_format w"
  shows "log_inv w l h (xas @ yss @ zss @ xbs) \<Longrightarrow> fl_files l = as @ grp' @ rest' @ bs \<Longrightarrow> length xas = length as \<Longrightarrow> bs \<noteq> []
    \<Longrightarrow> list_all2 same_file grp grp' \<Longrightarrow> list_all2 (file_ok w (fl_dir l) h) grp yss
    \<Longrightarrow> list_all2 same_file (map ms_f ms) rest' \<Longrightarrow> list_all2 (file_ok w (fl_dir l) h) (map ms_f ms) zss
    \<Longrightarrow> \<exists>l' ycs. compact_walk w live ms l grp bytes dead = (None, l') \<and> log_inv w l' h (xas @ ycs @ xbs)
      \<and> thinned live (yss @ zss) ycs"
proof (induction ms arbitrary: l as xas grp grp' yss zss rest' bytes dead)
  case Nil
  then have e: "rest' = []" "zss = []" by simp_all
  have inv: "log_inv w l h (xas @ yss @ xbs)" and fs: "fl_files l = as @ grp' @ bs" using Nil.prems(1,2) e by simp_all
  obtain l' cs ycs where "flush_group w l live grp dead = (None, l')" "log_inv w l' h (xas @ ycs @ xbs)" "thinned live yss ycs"
    by (rule flush_group_ok[OF wf inv fs refl Nil.prems(3,4,5,6)])
  then show ?case using e by (intro exI[of _ l'] exI[of _ ycs]) simp
next
  case (Cons m ms)
  obtain r rs where rest: "rest' = r # rs" "same_file (ms_f m) r" "list_all2 same_file (map ms_f ms) rs" using Cons.prems(7) by (auto simp: list_all2_Cons1)
  obtain zs zss0 where z: "zss = zs # zss0" "file_ok w (fl_dir l) h (ms_f m) zs" "list_all2 (file_ok w (fl_dir l) h) (map ms_f ms) zss0"
    using Cons.prems(8) by (auto simp: list_all2_Cons1)
  show ?case
  proof (cases "0 < bytes \<and> op_rotateBytes (fl_opts l) < bytes + ms_liveBytes m")
    case True
    have fs: "fl_files l = as @ grp' @ (rest' @ bs)" using Cons.prems(2) by simp
    have ne: "rest' @ bs \<noteq> []" using Cons.prems(4) by simp
    obtain l' cs ycs where l': "flush_group w l live grp dead = (None, l')" "fl_files l' = as @ cs @ (rest' @ bs)" "length ycs = length cs"
      "log_inv w l' h (xas @ ycs @ (zss @ xbs))" "thinned live yss ycs"
      "\<forall>f \<in> set (as @ rest' @ bs). map_of (fl_dir l') (lf_name f) = map_of (fl_dir l) (lf_name f)"
      by (rule flush_group_ok[OF wf Cons.prems(1) fs refl Cons.prems(3) ne Cons.prems(5,6)])
    have inv': "log_inv w l' h ((xas @ ycs) @ [zs] @ zss0 @ xbs)" using l'(4) z(1) by simp
    have fs': "fl_files l' = (as @ cs) @ [r] @ rs @ bs" using l'(2) rest(1) by simp
    have len: "length (xas @ ycs) = length (as @ cs)" using Cons.prems(3) l'(3) by simp
    have "list_all2 (file_ok w (fl_dir l') h) (map ms_f (m # ms)) zss"
      by (rule same_file_dir[OF Cons.prems(7,8)]) (use l'(6) in auto)
    then have ok: "list_all2 (file_ok w (fl_dir l') h) [ms_f m] [zs]" "list_all2 (file_ok w (fl_dir l') h) (map ms_f ms) zss0" by (simp_all add: z(1))
    have sm: "list_all2 same_file [ms_f m] [r]" using rest(2) by simp
    obtain l'' ycs' where "compact_walk w live ms l' [ms_f m] (ms_liveBytes m) (ms_dead m) = (None, l'')"
      "log_inv w l'' h ((xas @ ycs) @ ycs' @ xbs)" "thinned live ([zs] @ zss0) ycs'"
      using Cons.IH[OF inv' fs' len Cons.prems(4) sm ok(1) rest(3) ok(2)] by blast
    then show ?thesis using True l'(1) thinned_append[OF l'(5)] z(1)
      by (intro exI[of _ l''] exI[of _ "ycs @ ycs'"]) simp
  next
    case False
    have inv': "log_inv w l h (xas @ (yss @ [zs]) @ zss0 @ xbs)" using Cons.prems(1) z(1) by simp
    have fs': "fl_files l = as @ (grp' @ [r]) @ rs @ bs" using Cons.prems(2) rest(1) by simp
    have sm: "list_all2 same_file (grp @ [ms_f m]) (grp' @ [r])" "list_all2 (file_ok w (fl_dir l) h) (grp @ [ms_f m]) (yss @ [zs])"
      using Cons.prems(5,6) rest(2) z(2) by (auto intro!: list_all2_appendI)
    obtain l'' ycs' where "compact_walk w live ms l (grp @ [ms_f m]) (bytes + ms_liveBytes m) (dead + ms_dead m) = (None, l'')"
      "log_inv w l'' h (xas @ ycs' @ xbs)" "thinned live ((yss @ [zs]) @ zss0) ycs'"
      using Cons.IH[OF inv' fs' Cons.prems(3,4) sm rest(3) z(3)] by blast
    then show ?thesis using False z(1) by (intro exI[of _ l''] exI[of _ ycs']) auto
  qed
qed


lemma filter_prefix: "sorted_wrt (\<lambda>x y. P y \<longrightarrow> P x) xs \<Longrightarrow> xs = filter P xs @ dropWhile P xs"
proof (induction xs)
  case (Cons x xs)
  then show ?case by (cases "P x") (auto simp: filter_empty_conv)
qed simp

lemma kept_in_files:
  assumes "list_all2 (file_ok w d h) fs yss" and "x \<in> set (concat yss)"
  obtains f where "f \<in> set fs" "fst x \<le> fi_last f" "hist_map h (fst x) = Some (snd x)"
proof -
  obtain xs where xs: "xs \<in> set yss" "x \<in> set xs" using assms(2) by auto
  obtain f where "f \<in> set fs" "file_ok w d h f xs" using list_all2_set2[OF assms(1) xs(1)] by blast
  then show thesis using xs(2) by (intro that[of f]) (auto simp: file_ok_def)
qed

lemma log_Compact_ok:
  assumes pc: "proto_codec w" and inv: "log_inv w l h xss"
  obtains l' xss' where "log_Compact w l through live = (None, l')" "log_inv w l' h xss'" "set (concat xss') \<subseteq> set (concat xss)"
    "\<forall>x \<in> set (concat xss). through < fst x \<or> live_rec live x \<longrightarrow> x \<in> set (concat xss')"
proof -
  have wf: "wire_format w" using pc by (simp add: proto_codec_def)
  obtain fs a yss xs where sp: "fl_files l = fs @ [a]" "xss = yss @ [xs]" "list_all2 (file_ok w (fl_dir l) h) fs yss"
    "\<forall>f \<in> set fs. fi_first f \<le> fi_last f" "chain 1 fs (unat (fi_first a) - 1)"
    using log_inv_split[OF inv] by metis
  define el where "el = filter (\<lambda>f. fi_last f \<le> through) fs"
  define rest where "rest = dropWhile (\<lambda>f. fi_last f \<le> through) fs"
  have "sorted_wrt (\<lambda>f g. fi_last g \<le> through \<longrightarrow> fi_last f \<le> through) fs"
  proof (rule sorted_wrt_mono_rel[OF _ chain_disjoint[OF sp(5)]])
    fix f g assume "f \<in> set fs" "g \<in> set fs" "unat (fi_last f) < unat (fi_first g)"
    then show "fi_last g \<le> through \<longrightarrow> fi_last f \<le> through" using sp(4) by (fastforce simp: word_le_nat_alt)
  qed
  then have fs: "fs = el @ rest" unfolding el_def rest_def by (rule filter_prefix)
  obtain yel yrest where y: "yss = yel @ yrest" "list_all2 (file_ok w (fl_dir l) h) el yel" using sp(3) unfolding fs list_all2_append1 by blast
  have E: "filter (\<lambda>f. fi_last f \<le> through) (butlast (fl_files l)) = el" by (simp add: sp(1) el_def)
  have above: "fst x \<le> through" if x: "x \<in> set (concat yel)" for x
  proof -
    obtain f where "f \<in> set el" "fst x \<le> fi_last f" by (rule kept_in_files[OF y(2) x])
    then show ?thesis by (auto simp: el_def)
  qed
  show thesis
  proof (cases "el = []")
    case True
    then show thesis using inv by (intro that[of l xss]) (simp_all add: log_Compact_def E Let_def)
  next
    case False
    have f0: "fl_files l = [] @ el @ (rest @ [a])" "xss = [] @ yel @ (yrest @ [xs])" "length ([] :: stamped list list) = length ([] :: logFile list)"
      using sp(1,2) fs y(1) by simp_all
    have refl: "list_all2 same_file el el" by (simp add: list_all2_refl)
    obtain ms l1 gs where m: "measure_files w l live el [] = (Inr ms, l1)" "log_inv w l1 h xss" "fl_files l1 = gs @ (rest @ [a])"
      "fl_dir l1 = fl_dir l" "list_all2 same_file (map ms_f ms) gs" "list_all2 (file_ok w (fl_dir l) h) (map ms_f ms) yel"
      using measure_files_ok[OF wf inv f0 refl y(2), of live "[]"] by auto
    have inv1: "log_inv w l1 h ([] @ [] @ yel @ (yrest @ [xs]))" using m(2) f0(2) by simp
    have fl1: "fl_files l1 = [] @ [] @ gs @ (rest @ [a])" using m(3) by simp
    have ne: "rest @ [a] \<noteq> []" by simp
    obtain l' ycs where l': "compact_walk w live ms l1 [] 0 0 = (None, l')" "log_inv w l' h ([] @ ycs @ (yrest @ [xs]))" "thinned live ([] @ yel) ycs"
      using compact_walk_ok[OF wf inv1 fl1 f0(3) ne list_all2_Nil[THEN iffD2, OF HOL.refl] list_all2_Nil[THEN iffD2, OF HOL.refl] m(5) m(6)[folded m(4)], of live 0 0] by blast
    have "x \<in> set (concat (ycs @ yrest @ [xs]))" if x: "x \<in> set (concat xss)" "through < fst x \<or> live_rec live x" for x
    proof (cases "x \<in> set (concat yel)")
      case True
      then have "live_rec live x" using above[OF True] x(2) by auto
      then show ?thesis using True l'(3) by (fastforce simp: thinned_def)
    qed (use x(1) f0(2) in simp)
    moreover have "set (concat (ycs @ yrest @ [xs])) \<subseteq> set (concat xss)" using l'(3) f0(2) by (auto simp: thinned_def)
    ultimately show thesis
      using l'(1,2) m(1) False by (intro that[of l' "ycs @ yrest @ [xs]"]) (simp_all add: log_Compact_def E Let_def)
  qed
qed

lemma kept_live:
  assumes inv: "log_inv w l h xss" and k: "\<forall>x \<in> set (concat xss). through < fst x \<or> live_rec live x \<longrightarrow> x \<in> set (concat xss')"
    and r: "r \<in> kept_revs xss" "through < r \<or> (\<exists>ev \<in> set (lr_events (h ! (unat r - 1))). live (kv_key (ev_kv ev)) r)"
  shows "r \<in> kept_revs xss'"
proof -
  obtain x where x: "x \<in> set (concat xss)" "r = fst x" using r(1) by (auto simp: kept_revs_def)
  have "hist_map h (fst x) = Some (snd x)" by (rule kept_in_files[OF log_inv_files[OF inv] x(1)])
  then have "snd x = h ! (unat r - 1)" using x(2) by (simp add: hist_map_def split: if_splits)
  then have "through < fst x \<or> live_rec live x" using x(2) r(2) by (simp add: live_rec_def list_ex_iff)
  then have "x \<in> set (concat xss')" using k x(1) by blast
  then show ?thesis using x(2) unfolding kept_revs_def by blast
qed

text \<open>C10: Compacting the log loses nothing that is live.  On a log that holds the history \<^verbatim>\<open>h\<close>, \<^verbatim>\<open>Compact\<close> reports no error and leaves a
  log that holds the same history: the files, rewritten and merged or left alone, still cover every revision without a gap and
  their bytes are what the indexes say.  Every record above \<^verbatim>\<open>through\<close> that could be read still can, and so can every
  record of which \<^verbatim>\<open>live\<close> says that it is some key's current one; nothing becomes readable that was not.\<close>

theorem log_Compact_keeps:
  assumes "proto_codec w" and "log_inv w l h xss"
  shows "\<exists>l' xss'. log_Compact w l through live = (None, l') \<and> log_inv w l' h xss' \<and> kept_revs xss' \<subseteq> kept_revs xss
    \<and> (\<forall>r \<in> kept_revs xss. through < r \<or> (\<exists>ev \<in> set (lr_events (h ! (unat r - 1))). live (kv_key (ev_kv ev)) r) \<longrightarrow> r \<in> kept_revs xss')"
proof -
  obtain l' xss' where l': "log_Compact w l through live = (None, l')" "log_inv w l' h xss'" "set (concat xss') \<subseteq> set (concat xss)"
    "\<forall>x \<in> set (concat xss). through < fst x \<or> live_rec live x \<longrightarrow> x \<in> set (concat xss')"
    by (rule log_Compact_ok[OF assms])
  note kept_live[OF assms(2) l'(4)]
  moreover have "kept_revs xss' \<subseteq> kept_revs xss" using l'(3) unfolding kept_revs_def by blast
  ultimately show ?thesis using l'(1,2) by blast
qed

theorem log_Compact_keeps_witness:
  "\<exists>l' xss'. log_Compact std_wire sample_log 1 (\<lambda>k r. k = [5] \<and> r = 1) = (None, l') \<and> log_inv std_wire l' [sample_record 5] xss' \<and> kept_revs xss' = {1}"
proof -
  obtain xss where x: "log_inv std_wire sample_log [sample_record 5] xss" "kept_revs xss = {1}" using sample_log_inv by blast
  show ?thesis using log_Compact_keeps[OF std.proto_codec_axioms x(1), of 1 "\<lambda>k r. k = [5] \<and> r = 1"] x(2)
    by (auto simp: sample_record_def)
qed

end
