(* ===== verification/Restart.thy ===== *)
theory Restart
  imports File_Storage Log_Compaction
begin

text \<open>
  The log's compaction as the storage starts it, and what a storage knows after a restart: the index is rebuilt from
  the records the log still has.
\<close>

subsection \<open>Compaction of the log under the storage\<close>

locale compacting_log = storage_log lg holds storable
  for lg :: "'l Log" and holds :: "'l \<Rightarrow> history \<Rightarrow> revision set \<Rightarrow> bool" and storable :: "LogRecord \<Rightarrow> bool" +
  assumes compact: "holds l h K \<Longrightarrow> \<exists>l' K'. lg_Compact lg l through live = (None, l') \<and> holds l' h K' \<and> K' \<subseteq> K
    \<and> (\<forall>r \<in> K. through < r \<or> (\<exists>k. touches k (h ! (unat r - 1)) \<and> live k r) \<longrightarrow> r \<in> K')"
begin

lemma needed_live:
  assumes inv: "storage_inv holds m h K" and th: "through \<le> ms_compacted m"
    and n: "needed (ms_revisions m) (ms_compacted m) r"
  shows "through < r \<or> (\<exists>k. touches k (h ! (unat r - 1)) \<and> live_record m through k r)"
proof (cases "through < r")
  case False
  have ok: "index_ok (ms_revisions m) h (unat (ms_applied m)) (unat (ms_compacted m))" using inv by (simp add: storage_inv_def)
  have bt: "bt_inv (ms_revisions m)" using ok by (simp add: index_ok_def)
  have "\<not> ms_compacted m < r" using False th by simp
  then obtain k where k: "GetLatestRevisionByKey (ms_revisions m) k (ms_compacted m) = Some r" using n by (auto simp: needed_def)
  define p where "p = min (unat (ms_compacted m)) (unat (ms_applied m))"
  define n where "n = last_write (take p h) k"
  have "lookup_ok h (unat (ms_compacted m)) k n (Some r)" using ok k unfolding index_ok_def n_def p_def by (metis order_refl)
  then have n0: "0 < n" "r = of_nat n" by (auto simp: lookup_ok_def split: if_splits)
  have np: "n \<le> p" using last_write_le[of "take p h" k] by (simp add: n_def)
  then have "n \<le> unat (ms_compacted m)" by (simp add: p_def)
  then have "unat r = n" unfolding n0(2) by (rule le_unat_uoi)
  moreover have "touches k (take p h ! (n - 1))" by (rule last_write_touches[OF n_def[symmetric] n0(1)])
  ultimately have "touches k (h ! (unat r - 1))" using np n0(1) by simp
  moreover have "GetLatestRevisionByKey (ms_revisions m) k through = Some r"
    using k False th unfolding bpt.latest_iff[OF bt] by (meson le_less_linear order_trans)
  ultimately show ?thesis by (auto simp: live_record_def)
qed simp

lemma compact_log_ok:
  assumes inv: "storage_inv holds m h K" and th: "through \<le> ms_compacted m"
  shows "\<exists>m' K'. compact_log lg m through = (None, m') \<and> storage_inv holds m' h K' \<and> K' \<subseteq> K
    \<and> m' = m \<lparr> ms_log := ms_log m' \<rparr>"
proof -
  have hl: "holds (ms_log m) h K" using inv by (simp add: storage_inv_def)
  obtain l' K' where l': "lg_Compact lg (ms_log m) through (live_record m through) = (None, l')" "holds l' h K'" "K' \<subseteq> K"
    "\<forall>r \<in> K. through < r \<or> (\<exists>k. touches k (h ! (unat r - 1)) \<and> live_record m through k r) \<longrightarrow> r \<in> K'"
    using compact[OF hl] by blast
  have "r \<in> K'" if "needed (ms_revisions m) (ms_compacted m) r" "unat r \<le> length h" for r
    using needed_live[OF inv th that(1)] l'(4) inv that by (auto simp: storage_inv_def)
  then have "storage_inv holds (m \<lparr> ms_log := l' \<rparr>) h K'" using inv l'(2) by (simp add: storage_inv_def)
  then show ?thesis using l'(1,3) by (intro exI[of _ "m \<lparr> ms_log := l' \<rparr>"] exI[of _ K']) (simp add: compact_log_def)
qed

end

lemma fs_compacting_log:
  assumes pc: "proto_codec w"
  shows "compacting_log (fs_log w) (fs_holds w base) (storable w)"
proof (rule compacting_log.intro[OF fs_storage_log[OF pc]], rule compacting_log_axioms.intro)
  fix s h K through live
  assume hl: "fs_holds w base s h K"
  obtain l b where s: "s = (l, b)" by (cases s)
  obtain xss where inv: "log_inv w l h xss" "kept_revs xss = K" "batching_idle base h b" using hl by (auto simp: fs_holds_def s)
  obtain l' xss' where l': "log_Compact w l through live = (None, l')" "log_inv w l' h xss'" "set (concat xss') \<subseteq> set (concat xss)"
    "\<forall>x \<in> set (concat xss). through < fst x \<or> live_rec live x \<longrightarrow> x \<in> set (concat xss')"
    by (rule log_Compact_ok[OF pc inv(1)])
  have "r \<in> kept_revs xss'" if r: "r \<in> K" "through < r \<or> (\<exists>k. touches k (h ! (unat r - 1)) \<and> live k r)" for r
    by (rule kept_live[OF inv(1) l'(4)]) (use r inv(2) in \<open>auto simp: touches_def list_ex_iff\<close>)
  moreover have "kept_revs xss' \<subseteq> K" using l'(3) inv(2) unfolding kept_revs_def by blast
  moreover have "fs_holds w base (l', b) h (kept_revs xss')" using l'(2) inv(3) by (auto simp: fs_holds_def)
  ultimately show "\<exists>s' K'. lg_Compact (fs_log w) s through live = (None, s') \<and> fs_holds w base s' h K' \<and> K' \<subseteq> K
    \<and> (\<forall>r \<in> K. through < r \<or> (\<exists>k. touches k (h ! (unat r - 1)) \<and> live k r) \<longrightarrow> r \<in> K')"
    using l'(1) by (intro exI[of _ "(l', b)"] exI[of _ "kept_revs xss'"]) (auto simp: fs_log_def s)
qed

interpretation fsc: compacting_log "fs_log std_wire" "fs_holds std_wire base" "storable std_wire" for base
  by (rule fs_compacting_log[OF std.proto_codec_axioms])


subsection \<open>Replaying the log\<close>

text \<open>The index made of the revisions \<^verbatim>\<open>rs\<close> of the history: each key has those of them that touch it.\<close>

definition touching :: "history \<Rightarrow> revision list \<Rightarrow> key \<Rightarrow> revision list" where
  "touching h rs k = filter (\<lambda>r. touches k (h ! (unat r - 1))) rs"

definition replayed :: "BPTree \<Rightarrow> history \<Rightarrow> revision list \<Rightarrow> bool" where
  "replayed t h rs \<longleftrightarrow> bt_inv t \<and> (\<forall>k. bt_map t k =
     (if touching h rs k = [] then None else Some (touching h rs k, deleted_at h (unat (last (touching h rs k))) k)))"

abbreviation stamped_records :: "history \<Rightarrow> revision list \<Rightarrow> (revision \<times> LogRecord) list" where
  "stamped_records h rs \<equiv> map (\<lambda>r. (r, h ! (unat r - 1))) rs"

lemma replayed_revs: "replayed t h rs \<Longrightarrow> revs_of (bt_map t) k = touching h rs k"
  by (simp add: replayed_def revs_of_def)

lemma replayed_step:
  assumes re: "replayed t h rs" and lt: "\<forall>r' \<in> set rs. r' < r" and r: "1 \<le> unat r" "unat r \<le> length h" and ok: "record_ok (h ! (unat r - 1))"
  shows "replayed (add_events r (lr_events (h ! (unat r - 1))) t) h (rs @ [r])"
proof -
  let ?rec = "h ! (unat r - 1)"
  have inv: "bt_inv t" using re by (simp add: replayed_def)
  have le: "\<forall>k. \<forall>r' \<in> set (revs_of (bt_map t) k). r' \<le> r" using lt replayed_revs[OF re] by (auto simp: touching_def)
  have A: "bt_inv (add_events r (lr_events ?rec) t)" "bt_map (add_events r (lr_events ?rec) t) k = (case findEvent ?rec k of
            Some ev \<Rightarrow> Some (revs_of (bt_map t) k @ [r], ev_type ev = DELETE) | None \<Rightarrow> bt_map t k)" for k
    using add_events_ok[OF inv le, of "lr_events ?rec"] ok by (simp_all add: record_ok_def touches_find)
  have "bt_map (add_events r (lr_events ?rec) t) k = (if touching h (rs @ [r]) k = [] then None
      else Some (touching h (rs @ [r]) k, deleted_at h (unat (last (touching h (rs @ [r]) k))) k))" for k
  proof (cases "findEvent ?rec k")
    case None
    then have "touching h (rs @ [r]) k = touching h rs k" by (simp add: touching_def findEvent_touches)
    then show ?thesis using re None unfolding A(2) replayed_def by simp
  next
    case (Some ev)
    then have "touches k ?rec" using findEvent_touches[of ?rec k] by auto
    then have "touching h (rs @ [r]) k = touching h rs k @ [r]" by (simp add: touching_def)
    then show ?thesis using Some r(1) replayed_revs[OF re, of k] unfolding A(2) by (simp add: deleted_at_def event_at_def)
  qed
  then show ?thesis using A(1) by (simp add: replayed_def)
qed

lemma replay_records_ok:
  assumes recs: "\<forall>r \<in> set h. record_ok r"
  shows "replayed (ms_revisions m) h ps \<Longrightarrow> sorted_wrt (<) (ps @ rs) \<Longrightarrow> \<forall>r \<in> set rs. 1 \<le> unat r \<and> unat r \<le> length h
    \<Longrightarrow> \<exists>t lm. replay_records now m (stamped_records h rs) = Inr (m \<lparr> ms_revisions := t, ms_leaseManager := lm \<rparr>) \<and> replayed t h (ps @ rs)"
proof (induction rs arbitrary: m ps)
  case Nil
  then show ?case by (intro exI[of _ "ms_revisions m"] exI[of _ "ms_leaseManager m"]) simp
next
  case (Cons r rs)
  let ?rec = "h ! (unat r - 1)"
  have r: "1 \<le> unat r" "unat r \<le> length h" "\<forall>r' \<in> set ps. r' < r" using Cons.prems(2,3) by (auto simp: sorted_wrt_append)
  have ok: "record_ok ?rec" using recs r by (simp add: Suc_le_lessD)
  obtain lm where ap: "apply_events now r m (lr_events ?rec)
      = Inr (m \<lparr> ms_revisions := add_events r (lr_events ?rec) (ms_revisions m), ms_leaseManager := lm \<rparr>)"
    using apply_events_ok[of "lr_events ?rec" now r m] ok by (auto simp: record_ok_def)
  define m1 where "m1 = m \<lparr> ms_revisions := add_events r (lr_events ?rec) (ms_revisions m), ms_leaseManager := lm \<rparr>"
  have "replayed (ms_revisions m1) h (ps @ [r])" using replayed_step[OF Cons.prems(1) r(3,1,2) ok] by (simp add: m1_def)
  moreover have "sorted_wrt (<) ((ps @ [r]) @ rs)" using Cons.prems(2) by simp
  ultimately obtain t lm' where "replay_records now m1 (stamped_records h rs) = Inr (m1 \<lparr> ms_revisions := t, ms_leaseManager := lm' \<rparr>)"
    "replayed t h ((ps @ [r]) @ rs)" using Cons.IH[of m1 "ps @ [r]"] Cons.prems(3) by auto
  then show ?case using ap by (intro exI[of _ t] exI[of _ lm']) (simp add: m1_def)
qed

lemma replayed_empty: "replayed empty_BPTree h []"
  by (simp add: replayed_def touching_def bpt.inv_empty bpt.contents_empty)

lemma replayed_lookup:
  assumes "replayed t h rs"
  shows "GetLatestRevisionByKey t k at = Some r \<longleftrightarrow> r \<in> set (touching h rs k) \<and> r \<le> at \<and> (\<forall>r' \<in> set (touching h rs k). r' \<le> at \<longrightarrow> r' \<le> r)"
  using assms bpt.latest_iff[of t k at r] replayed_revs[OF assms] by (simp add: replayed_def)

text \<open>
  Which records a log must still have for the replayed index to answer from revision \<^verbatim>\<open>c\<close> on: all above \<^verbatim>\<open>c\<close>, and
  each key's last one at \<^verbatim>\<open>c\<close>, except that a delete may be gone when no older record of the key is left either.
\<close>

definition restorable :: "history \<Rightarrow> revision set \<Rightarrow> nat \<Rightarrow> bool" where
  "restorable h K c \<longleftrightarrow> (\<forall>n. c < n \<and> n \<le> length h \<longrightarrow> of_nat n \<in> K)
     \<and> (\<forall>k. let n = last_write (take c h) k in 0 < n \<and> of_nat n \<notin> K \<longrightarrow> deleted_at h n k \<and> (\<forall>r \<in> K. touches k (h ! (unat r - 1)) \<longrightarrow> c < unat r))"


lemma last_write_ge:
  assumes "i < length h" and "touches k (h ! i)"
  shows "Suc i \<le> last_write h k"
proof (rule ccontr)
  assume "\<not> Suc i \<le> last_write h k"
  then have "\<forall>r \<in> set (drop i h). \<not> touches k r" using last_write_le_iff[of h k i] by simp
  moreover have "h ! i \<in> set (drop i h)" using assms(1) by (metis Cons_nth_drop_Suc list.set_intros(1))
  ultimately show False using assms(2) by blast
qed

lemma replayed_index_ok:
  assumes re: "replayed t h rs" and K: "set rs = K" and range: "\<forall>r \<in> K. 1 \<le> unat r \<and> unat r \<le> length h"
    and rest: "restorable h K c" and c: "c \<le> length h" and len: "length h < 2 ^ 63"
  shows "index_ok t h (length h) c"
proof -
  have revs: "\<forall>k. \<forall>r \<in> set (revs_of (bt_map t) k). 1 \<le> unat r \<and> unat r \<le> length h"
    using range K by (auto simp: replayed_revs[OF re] touching_def)
  have flags: "\<forall>k rs tb. bt_map t k = Some (rs, tb) \<longrightarrow> (tb \<longleftrightarrow> deleted_at h (unat (last rs)) k)"
    using re by (auto simp: replayed_def split: if_splits)
  have look: "lookup_ok h c k (last_write (take (min (unat at) (length h)) h) k) (GetLatestRevisionByKey t k at)" if at: "c \<le> unat at" for k at
  proof -
    define p where "p = min (unat at) (length h)"
    define n where "n = last_write (take p h) k"
    have np: "n \<le> p" using last_write_le[of "take p h" k] by (simp add: n_def)
    have nl: "n \<le> length h" "n \<le> unat at" using np by (simp_all add: p_def)
    have un: "unat (of_nat n :: revision) = n" by (rule le_unat_uoi[OF nl(2)])
    have up: "unat r \<le> n" if r: "r \<in> set (touching h rs k)" "r \<le> at" for r
    proof -
      have rr: "1 \<le> unat r" "unat r \<le> length h" "touches k (h ! (unat r - 1))" using r(1) range K by (auto simp: touching_def)
      have "unat r - 1 < p" using r(2) rr(1,2) unfolding p_def word_le_nat_alt by linarith
      then have i: "unat r - 1 < length (take p h)" "take p h ! (unat r - 1) = h ! (unat r - 1)" using rr(1,2) by simp_all
      show ?thesis using last_write_ge[OF i(1)] i(2) rr(1,3) by (simp add: n_def)
    qed
    have "lookup_ok h c k n (GetLatestRevisionByKey t k at)"
    proof (cases "0 < n \<and> of_nat n \<in> K")
      case True
      have "touches k (take p h ! (n - 1))" using True by (intro last_write_touches[OF n_def[symmetric]]) simp
      moreover have "n - 1 < p" using True np by linarith
      ultimately have "touches k (h ! (n - 1))" by simp
      then have "of_nat n \<in> set (touching h rs k)" using True K un by (simp add: touching_def)
      then have "GetLatestRevisionByKey t k at = Some (of_nat n)"
        unfolding replayed_lookup[OF re] using up un nl(2) by (simp add: word_le_nat_alt)
      then show ?thesis using True by (simp add: lookup_ok_def)
    next
      case False
      have gone: "n = 0 \<or> 0 < n \<and> n \<le> c \<and> deleted_at h n k \<and> (\<forall>r \<in> K. touches k (h ! (unat r - 1)) \<longrightarrow> c < unat r)"
      proof (cases "n = 0")
        case nz: False
        then have nK: "of_nat n \<notin> K" using False by simp
        then have nc: "n \<le> c" using rest nl(1) unfolding restorable_def by (metis not_le)
        then have "last_write (take c (take p h)) k = n" using last_write_take[of "take p h" k c] by (simp add: n_def)
        moreover have "take c (take p h) = take c h" using at c by (simp add: p_def min_def)
        ultimately have "last_write (take c h) k = n" by simp
        then show ?thesis using rest nK nc nz unfolding restorable_def Let_def by blast
      qed simp
      have "GetLatestRevisionByKey t k at \<noteq> Some r" for r
      proof
        assume "GetLatestRevisionByKey t k at = Some r"
        then have r: "r \<in> set (touching h rs k)" "r \<le> at" by (simp_all add: replayed_lookup[OF re])
        then have "1 \<le> unat r" "touches k (h ! (unat r - 1))" "r \<in> K" using range K by (auto simp: touching_def)
        then show False using up[OF r] gone by fastforce
      qed
      then have "GetLatestRevisionByKey t k at = None" by (cases "GetLatestRevisionByKey t k at") auto
      then show ?thesis using gone by (auto simp: lookup_ok_def)
    qed
    then show ?thesis by (simp add: n_def p_def)
  qed
  have "bt_inv t" using re by (simp add: replayed_def)
  then show ?thesis using revs flags look unfolding index_ok_def by blast
qed

locale replayable_log = storage_log lg holds storable
  for lg :: "'l Log" and holds :: "'l \<Rightarrow> history \<Rightarrow> revision set \<Rightarrow> bool" and storable :: "LogRecord \<Rightarrow> bool" +
  assumes range: "holds l h K \<Longrightarrow> r \<in> K \<Longrightarrow> 1 \<le> unat r \<and> unat r \<le> length h"
    and read: "holds l h K \<Longrightarrow> \<exists>rs. lg_Read lg l 1 = (None, stamped_records h rs) \<and> sorted_wrt (<) rs \<and> set rs = K"
begin

lemma NewMemoryStorage_replays:
  assumes hl: "holds l h K" and ne: "h \<noteq> []" and recs: "\<forall>r \<in> set h. record_ok r"
  obtains m rs where "NewMemoryStorage lg now l = Inr m" "replayed (ms_revisions m) h rs" "sorted_wrt (<) rs" "set rs = K"
    "ms_log m = l" "ms_applied m = of_nat (length h)" "ms_compacted m = 0" "ms_watchers m = []"
proof -
  obtain rs where rs: "lg_Read lg l 1 = (None, stamped_records h rs)" "sorted_wrt (<) rs" "set rs = K" using read[OF hl] by blast
  have "\<forall>r \<in> set rs. 1 \<le> unat r \<and> unat r \<le> length h" using range[OF hl] rs(3) by blast
  then obtain t lm where t: "replay_records now (empty_storage l) (stamped_records h rs)
      = Inr (empty_storage l \<lparr> ms_revisions := t, ms_leaseManager := lm \<rparr>)" "replayed t h rs"
    using replay_records_ok[OF recs, of "empty_storage l" "[]" rs now] rs(2) replayed_empty by (auto simp: empty_storage_def)
  have u: "unat (of_nat (length h) :: revision) = length h" using bound[OF hl] by (simp add: unat_of_nat take_bit_nat_eq_self)
  then have "(of_nat (length h) :: revision) \<noteq> 0" using ne by (metis length_0_conv unat_0)
  then have "NewMemoryStorage lg now l = Inr (empty_storage l \<lparr> ms_revisions := t, ms_leaseManager := lm, ms_applied := of_nat (length h) \<rparr>)"
    using current[OF hl] rs(1) t(1) by (simp add: NewMemoryStorage_def ReplayLog_def empty_storage_def)
  then show thesis by (rule that[of _ rs]) (use t(2) rs(2,3) in \<open>simp_all add: empty_storage_def\<close>)
qed

lemma restart_ok:
  assumes hl: "holds l h K" and ne: "h \<noteq> []" and recs: "\<forall>r \<in> set h. record_ok r"
    and rest: "restorable h K (unat c)" and c: "unat c \<le> length h"
  shows "\<exists>m. NewMemoryStorage lg now l = Inr m \<and> ms_compacted m = 0 \<and> storage_inv holds (m \<lparr> ms_compacted := c \<rparr>) h K"
proof -
  obtain m rs where m: "NewMemoryStorage lg now l = Inr m" "replayed (ms_revisions m) h rs" "sorted_wrt (<) rs" "set rs = K"
    "ms_log m = l" "ms_applied m = of_nat (length h)" "ms_compacted m = 0"
    by (rule NewMemoryStorage_replays[OF hl ne recs])
  have len: "length h < 2 ^ 63" using bound[OF hl] by simp
  then have u: "unat (of_nat (length h) :: revision) = length h" by (simp add: unat_of_nat take_bit_nat_eq_self)
  have ok: "index_ok (ms_revisions m) h (length h) (unat c)"
    using range[OF hl] by (intro replayed_index_ok[OF m(2,4) _ rest c len]) blast
  have "r \<in> K" if r: "needed (ms_revisions m) c r" "unat r \<le> length h" for r
  proof (cases "c < r")
    case True
    then have "unat c < unat r" by (simp add: word_less_nat_alt)
    then have "of_nat (unat r) \<in> K" using rest r(2) unfolding restorable_def by blast
    then show ?thesis by simp
  next
    case False
    then show ?thesis using r(1) m(4) by (auto simp: needed_def replayed_lookup[OF m(2)] touching_def)
  qed
  then have "storage_inv holds (m \<lparr> ms_compacted := c \<rparr>) h K" using ok c recs hl by (simp add: storage_inv_def m(5,6) u)
  then show ?thesis using m(1,7) by blast
qed

end


lemma deliver_list: "deliver (\<lambda>acc r record. (acc @ [(r, record)], True)) xs acc = (acc @ xs, True)"
  by (induction xs arbitrary: acc) auto

lemma fs_replayable_log:
  assumes pc: "proto_codec w"
  shows "replayable_log (fs_log w) (fs_holds w base) (storable w)"
proof (rule replayable_log.intro[OF fs_storage_log[OF pc]], rule replayable_log_axioms.intro)
  fix s h K
  assume hl: "fs_holds w base s h K"
  obtain l b where s: "s = (l, b)" by (cases s)
  obtain xss where inv: "log_inv w l h xss" "kept_revs xss = K" using hl by (auto simp: fs_holds_def s)
  have files: "list_all2 (file_ok w (fl_dir l) h) (fl_files l) xss" "chain 1 (fl_files l) (length h)" using inv(1) by (simp_all add: log_inv_def)
  have hm: "hist_map h (fst x) = Some (snd x)" if "x \<in> set (concat xss)" for x by (rule kept_in_files[OF files(1) that])
  show "1 \<le> unat r \<and> unat r \<le> length h" if r: "r \<in> K" for r
  proof -
    obtain x where "x \<in> set (concat xss)" "r = fst x" using r inv(2) unfolding kept_revs_def by blast
    then show ?thesis using hm[of x] by (simp add: hist_map_def split: if_splits)
  qed
  let ?rs = "map fst (concat xss)"
  have "\<forall>x \<in> set (concat xss). 1 \<le> fst x"
    using files_sorted(2)[OF files] by (simp add: word_le_nat_alt)
  then have f: "filter (\<lambda>x. 1 \<le> fst x) (concat xss) = concat xss" by (rule filter_True)
  have "x = (fst x, h ! (unat (fst x) - 1))" if "x \<in> set (concat xss)" for x
    using hm[OF that] by (cases x) (simp add: hist_map_def split: if_splits)
  then have e: "stamped_records h ?rs = concat xss" unfolding map_map comp_def by (intro map_idI) metis
  have "lg_Read (fs_log w) s 1 = (None, stamped_records h ?rs)"
    using read_files_ok[OF pc files(1), of 1 "\<lambda>acc r record. (acc @ [(r, record)], True)" "[]"] unfolding e
    by (simp add: fs_log_def s Read_def f deliver_list)
  moreover have "sorted_wrt (<) ?rs" by (rule files_sorted(1)[OF files])
  moreover have "set ?rs = K" using inv(2) by (simp add: kept_revs_def)
  ultimately show "\<exists>rs. lg_Read (fs_log w) s 1 = (None, stamped_records h rs) \<and> sorted_wrt (<) rs \<and> set rs = K" by blast
qed

interpretation fsr: replayable_log "fs_log std_wire" "fs_holds std_wire base" "storable std_wire" for base
  by (rule fs_replayable_log[OF std.proto_codec_axioms])

subsection \<open>A deleted key after a restart\<close>

text \<open>Compaction takes a key out of the index when its last record is a delete at or below the point.\<close>

lemma Compact_gone:
  assumes ok: "index_ok t h a c" and a: "a \<le> length h" and th: "c \<le> unat th" "unat th = a"
    and d: "deleted_at h (last_write (take a h) k) k"
  shows "GetLatestRevisionByKey (fst (Bptree.Compact t th)) k th = None"
proof -
  have bt: "bt_inv t" using ok by (simp add: index_ok_def)
  define n where "n = last_write (take a h) k"
  have look: "lookup_ok h c k n (GetLatestRevisionByKey t k th)" using ok th unfolding index_ok_def n_def by (metis min.idem)
  have g: "GetLatestRevisionByKey (fst (Bptree.Compact t th)) k th = (if removed th (bt_map t k) then None else GetLatestRevisionByKey t k th)"
    using bpt.latest_compact[OF bt, of th th k] by simp
  show ?thesis
  proof (cases "GetLatestRevisionByKey t k th")
    case (Some r)
    then have n0: "0 < n" "r = of_nat n" using look by (auto simp: lookup_ok_def split: if_splits)
    have na: "n \<le> unat th" using last_write_le[of "take a h" k] th(2) by (simp add: n_def)
    have un: "unat r = n" unfolding n0(2) by (rule le_unat_uoi[OF na])
    obtain rs tb where rs: "bt_map t k = Some (rs, tb)" "r \<in> set rs"
      using Some unfolding bpt.latest_iff[OF bt] by (cases "bt_map t k") (auto simp: revs_of_def)
    have s: "sorted rs" "rs \<noteq> []" using bpt.contents_sorted[OF bt rs(1)] by auto
    have "last rs \<in> set (revs_of (bt_map t) k)" using rs(1) s(2) by (simp add: revs_of_def)
    then have "unat (last rs) \<le> a" "last rs \<in> set (revs_of (bt_map t) k)" using ok unfolding index_ok_def by blast+
    then have "last rs \<le> r" using Some th(2) unfolding bpt.latest_iff[OF bt] by (simp add: word_le_nat_alt)
    moreover have "r \<le> last rs" using rs(2) s by (induction rs rule: rev_induct) (auto simp: sorted_append)
    ultimately have l: "last rs = r" by simp
    have "tb \<longleftrightarrow> deleted_at h (unat (last rs)) k" using ok rs(1) unfolding index_ok_def by blast
    then have "removed th (bt_map t k)" using rs(1) d l un na by (simp add: removed_def n_def word_le_nat_alt)
    then show ?thesis using g by simp
  qed (use g in simp)
qed

text \<open>A log with a file for each of three records.\<close>

definition rev_info :: "revision \<Rightarrow> revision \<Rightarrow> fileInfo" where
  "rev_info a b = \<lparr> fi_first = a, fi_last = b, fi_sparse = False \<rparr>"

definition rev_file :: "Protowire \<Rightarrow> revision \<Rightarrow> LogRecord \<Rightarrow> logFile" where
  "rev_file w n r = (new_logFile (rev_info n n) (filename (rev_info n n))) \<lparr> lf_count := 1, lf_size := length (magic @ enc_records w [(n, r)]) \<rparr>"

definition three_log :: "Protowire \<Rightarrow> LogRecord \<Rightarrow> LogRecord \<Rightarrow> LogRecord \<Rightarrow> FilesystemLog" where
  "three_log w r1 r2 r3 =
     \<lparr> fl_opts = demo_options,
       fl_dir = [(filename (rev_info 1 1), magic @ enc_records w [(1, r1)]), (filename (rev_info 2 2), magic @ enc_records w [(2, r2)]),
                 (filename (rev_info 3 3), magic @ enc_records w [(3, r3)]), (filename (rev_info 4 3), magic)],
       fl_files = [rev_file w 1 r1, rev_file w 2 r2, rev_file w 3 r3,
                   (new_logFile (rev_info 4 3) (filename (rev_info 4 3))) \<lparr> lf_size := length magic, lf_indexed := True \<rparr>],
       fl_lastRevision = 3, fl_cache = Cache_New 0, fl_archiver = [], fl_listener = False, fl_notified = [] \<rparr>"

lemma rev_filename [simp]: "filename (rev_info a b) = filename (rev_info c d) \<longleftrightarrow> a = c"
proof -
  have "hex16 a = hex16 c \<longleftrightarrow> a = c" by (metis ParseUint16_hex16 option.inject)
  then show ?thesis by (simp add: filename_def rev_info_def)
qed

lemma three_log_inv:
  assumes "storable w r1" "storable w r2" "storable w r3"
  shows "log_inv w (three_log w r1 r2 r3) [r1, r2, r3] [[(1, r1)], [(2, r2)], [(3, r3)], []]"
proof -
  let ?l = "three_log w r1 r2 r3" and ?h = "[r1, r2, r3]"
  have sel: "fi_first (rev_info a b) = a" "fi_last (rev_info a b) = b" "\<not> fi_sparse (rev_info a b)" for a b by (simp_all add: rev_info_def)
  have coh: "lru.coherent (Cache_New 0) (hist_map ?h)" using cache_inv_New by (simp add: lru.coherent_def)
  have pf: "\<exists>fi. parseFilename (filename (rev_info a b)) = Inr fi" for a b using parseFilename_filename[of "rev_info a b"] by (simp add: sel)
  have nm: "named (rev_file w n r)" for n r
    by (simp add: named_def rev_file_def new_logFile_def fileInfo.truncate_def rev_info_def)
  have hm: "hist_map ?h 1 = Some r1" "hist_map ?h 2 = Some r2" "hist_map ?h 3 = Some r3" by (simp_all add: hist_map_def)
  have f: "file_ok w (fl_dir ?l) ?h (rev_file w n r) [(n, r)]"
    if "map_of (fl_dir ?l) (filename (rev_info n n)) = Some (magic @ enc_records w [(n, r)])" "storable w r" "hist_map ?h n = Some r" "n \<noteq> 0" for n r
    using that nm[of n r] unfolding file_ok_def by (simp add: rev_file_def new_logFile_def sel storable_def)
  have files: "file_ok w (fl_dir ?l) ?h (rev_file w 1 r1) [(1, r1)]" "file_ok w (fl_dir ?l) ?h (rev_file w 2 r2) [(2, r2)]"
    "file_ok w (fl_dir ?l) ?h (rev_file w 3 r3) [(3, r3)]"
    by (rule f; use assms hm in \<open>simp add: three_log_def\<close>)+
  have act: "file_ok w (fl_dir ?l) ?h (last (fl_files ?l)) []"
  proof -
    have "named (last (fl_files ?l))" by (simp add: three_log_def new_logFile_def named_def fileInfo.truncate_def rev_info_def)
    then show ?thesis by (simp add: three_log_def file_ok_def new_logFile_def sel)
  qed
  have sz: "fi_first (rev_file w n r) = n" "fi_last (rev_file w n r) = n" "lf_name (rev_file w n r) = filename (rev_info n n)" for n r
    by (simp_all add: rev_file_def new_logFile_def sel)
  show ?thesis unfolding log_inv_def
    using files act coh pf by (simp add: three_log_def new_logFile_def sel sz) auto
qed


text \<open>
  Its compaction when only the second record is live: the first two files are merged, and the third one, of which nothing
  is live, is rewritten to an empty one.
\<close>

lemma three_log_Compact:
  fixes live :: liveFunc
  assumes pc: "proto_codec w" and st: "storable w r1" "storable w r2" "storable w r3"
    and live: "\<not> live_rec live (1, r1)" "live_rec live (2, r2)" "\<not> live_rec live (3, r3)"
  obtains l' where "log_Compact w (three_log w r1 r2 r3) 3 live = (None, l')" "log_inv w l' [r1, r2, r3] [[(2, r2)], [], []]"
proof -
  let ?l = "three_log w r1 r2 r3" and ?h = "[r1, r2, r3]" and ?xss = "[[(1 :: revision, r1)], [(2, r2)], [(3, r3)], []]"
  have wf: "wire_format w" using pc by (simp add: proto_codec_def)
  note inv = three_log_inv[OF st]
  define fs where "fs = [rev_file w 1 r1, rev_file w 2 r2, rev_file w 3 r3]"
  obtain a where a: "fl_files ?l = [] @ fs @ [a]" by (simp add: three_log_def fs_def)
  have E: "filter (\<lambda>f. fi_last f \<le> 3) (butlast (fl_files ?l)) = fs" by (simp add: three_log_def fs_def rev_file_def new_logFile_def rev_info_def)
  have x: "?xss = [] @ [[(1, r1)], [(2, r2)], [(3, r3)]] @ [[]]" "length ([] :: stamped list list) = length ([] :: logFile list)" by simp_all
  have ok: "list_all2 (file_ok w (fl_dir ?l) ?h) fs [[(1, r1)], [(2, r2)], [(3, r3)]]"
    using log_inv_files[OF inv] unfolding a by (simp add: fs_def)
  have same: "list_all2 same_file fs fs" by (simp add: list_all2_refl)
  obtain ms l1 gs where m: "measure_files w ?l live fs [] = (Inr ([] @ ms), l1)" "log_inv w l1 ?h ?xss" "fl_files l1 = [] @ gs @ [a]"
    "fl_dir l1 = fl_dir ?l" "fl_opts l1 = fl_opts ?l" "list_all2 same_file (map ms_f ms) gs"
    "list_all2 (file_ok w (fl_dir ?l) ?h) (map ms_f ms) [[(1, r1)], [(2, r2)], [(3, r3)]]" "list_all2 (measures w live) ms [[(1, r1)], [(2, r2)], [(3, r3)]]"
    using measure_files_ok[OF wf inv a x same ok, of live "[]"] by blast
  obtain m1 m2 m3 where ms: "ms = [m1, m2, m3]" using m(8) by (auto simp: list_all2_Cons2)
  obtain g1 g2 g3 where gs: "gs = [g1, g2, g3]" using m(6) by (auto simp: ms list_all2_Cons1)
  have v: "ms_liveBytes m1 = 0" "4 \<le> ms_liveBytes m2" "ms_liveBytes m3 = 0" "ms_dead m1 = 1" "ms_dead m2 = 0" "ms_dead m3 = 1"
    using m(8) live by (simp_all add: ms measures_def)
  have oks: "file_ok w (fl_dir l1) ?h (ms_f m1) [(1, r1)]" "file_ok w (fl_dir l1) ?h (ms_f m2) [(2, r2)]" "file_ok w (fl_dir l1) ?h (ms_f m3) [(3, r3)]"
    using m(7) by (simp_all add: ms m(4))
  have sm: "same_file (ms_f m1) g1" "same_file (ms_f m2) g2" "same_file (ms_f m3) g3" using m(6) by (simp_all add: ms gs)
  have fl1: "fl_files l1 = [] @ [g1, g2] @ ([g3] @ [a])" using m(3) by (simp add: gs)
  have x1: "?xss = [] @ [[(1, r1)], [(2, r2)]] @ ([[(3, r3)], []])" by simp
  obtain l2 c2 where l2: "compactGroup w l1 [ms_f m1, ms_f m2] live = (None, l2)" "fl_files l2 = [] @ [c2] @ ([g3] @ [a])"
    "log_inv w l2 ?h ([] @ [filter (live_rec live) (concat [[(1, r1)], [(2, r2)]])] @ [[(3, r3)], []])"
    "\<forall>f \<in> set ([] @ ([g3] @ [a])). map_of (fl_dir l2) (lf_name f) = map_of (fl_dir l1) (lf_name f)"
    by (rule compactGroup_ok[OF wf m(2) fl1 x1, where grp = "[ms_f m1, ms_f m2]" and live = live]) (use oks sm in simp_all)
  have fl2: "fl_files l2 = [c2] @ [g3] @ [a]" using l2(2) by simp
  have inv2: "log_inv w l2 ?h ([[(2, r2)]] @ [[(3, r3)]] @ [[]])" using l2(3) live by simp
  have ok3: "file_ok w (fl_dir l2) ?h (ms_f m3) [(3, r3)]"
    using file_ok_dir[OF oks(3), of "fl_dir l2"] l2(4) sm(3) by (simp add: same_file_def)
  obtain l3 c3 where l3: "compactGroup w l2 [ms_f m3] live = (None, l3)"
    "log_inv w l3 ?h ([[(2, r2)]] @ [filter (live_rec live) (concat [[(3, r3)]])] @ [[]])"
    by (rule compactGroup_ok[OF wf inv2 fl2 refl, where grp = "[ms_f m3]" and live = live]) (use ok3 sm in simp_all)
  have n3: "lf_count (ms_f m3) = 1" using oks(3) by (simp add: file_ok_def)
  have "compact_walk w live ms l1 [] 0 0 = (None, l3)"
    using v l2(1) l3(1) n3 by (simp add: ms flush_group_def m(5) three_log_def demo_options_def)
  then have "log_Compact w ?l 3 live = (None, l3)" using m(1) by (simp add: log_Compact_def E Let_def fs_def)
  moreover have "log_inv w l3 ?h [[(2, r2)], [], []]" using l3(2) live by simp
  ultimately show thesis by (rule that)
qed

subsection \<open>Reads after a restart\<close>

lemma Get_applied:
  assumes "lg_GetCurrentRevision lg (ms_log m) = Inr (ms_applied m)" and "rr_RangeEnd req = None"
  shows "Get lg now m req = (case txn_get lg m (new_txn (ms_applied m)) req of
     Inl e \<Rightarrow> Inl e | Inr resp \<Rightarrow> Inr (resp \<lparr> rp_Header := Some (createHeader (ms_applied m)) \<rparr>), m)"
  using assms
  by (cases "txn_get lg m (new_txn (ms_applied m)) req")
     (simp_all add: Get_def range_txn_def Txn_try tryTxn_def applyUpTo_def evaluate_def run_op_def commit_def Let_def)

text \<open>Reads that the compacted revision does not refuse do not depend on it.\<close>

lemma Get_compacted_irrelevant:
  assumes "lg_GetCurrentRevision lg (ms_log m) = Inr (ms_applied m)" and "rr_RangeEnd req = None"
    and "rr_Revision req = 0 \<or> ms_compacted m \<le> rr_Revision req" and "rr_Revision req = 0 \<or> c \<le> rr_Revision req"
  shows "fst (Get lg now (m \<lparr> ms_compacted := c \<rparr>) req) = fst (Get lg now m req)"
proof -
  have "read_revision (m \<lparr> ms_compacted := c \<rparr>) t req = read_revision m t req" for t
    using assms(3,4) by (auto simp: read_revision_def checkReadRevision_def not_less)
  then have "txn_get lg (m \<lparr> ms_compacted := c \<rparr>) t req = txn_get lg m t req" for t
    by (cases "rr_Key req"; cases "read_revision m t req") (auto simp: txn_get_def Let_def split: option.split sum.split)
  then show ?thesis using assms(1,2) Get_applied[of lg m req now] Get_applied[of lg "m \<lparr> ms_compacted := c \<rparr>" req now]
    by (simp split: sum.split)
qed

context replayable_log
begin

lemma restart_reads:
  assumes hl: "holds l h K" and ne: "h \<noteq> []" and recs: "\<forall>r \<in> set h. record_ok r" and rest: "restorable h K (unat c)" and c: "unat c \<le> length h"
  obtains m where "NewMemoryStorage lg now l = Inr m" "ms_compacted m = 0" "storage_inv holds (m \<lparr> ms_compacted := c \<rparr>) h K"
    "\<And>req k now. rr_Key req = Some k \<Longrightarrow> rr_RangeEnd req = None \<Longrightarrow> \<not> rr_CountOnly req \<Longrightarrow> rr_Revision req = 0 \<or> c \<le> rr_Revision req
      \<Longrightarrow> fst (Get lg now m req) = (case get_spec h c req k (of_nat (length h)) of
            Inl e \<Rightarrow> Inl e | Inr resp \<Rightarrow> Inr (resp \<lparr> rp_Header := Some (createHeader (of_nat (length h))) \<rparr>))"
proof -
  obtain m where m: "NewMemoryStorage lg now l = Inr m" "ms_compacted m = 0" "storage_inv holds (m \<lparr> ms_compacted := c \<rparr>) h K"
    using restart_ok[OF hl ne recs rest c] by blast
  have ap: "ms_log m = l" "ms_applied m = of_nat (length h)"
    using NewMemoryStorage_replays[OF hl ne recs, of now] m(1) by (metis sum.inject(2))+
  have cur: "lg_GetCurrentRevision lg (ms_log m) = Inr (ms_applied m)" using current[OF hl] by (simp add: ap)
  have "fst (Get lg now m req) = (case get_spec h c req k (of_nat (length h)) of
            Inl e \<Rightarrow> Inl e | Inr resp \<Rightarrow> Inr (resp \<lparr> rp_Header := Some (createHeader (of_nat (length h))) \<rparr>))"
    if q: "rr_Key req = Some k" "rr_RangeEnd req = None" "\<not> rr_CountOnly req" "rr_Revision req = 0 \<or> c \<le> rr_Revision req" for req k now
  proof -
    have "fst (Get lg now (m \<lparr> ms_compacted := c \<rparr>) req) = fst (Get lg now m req)"
      by (rule Get_compacted_irrelevant[OF cur q(2) _ q(4)]) (simp add: m(2))
    then show ?thesis using Get_ok[OF m(3) q(1-3), of now] by auto
  qed
  then show thesis by (rule that[OF m])
qed

lemma restart_resurrects_key:
  assumes hl: "holds l h K" and recs: "\<forall>r \<in> set h. record_ok r"
    and r: "r \<in> K" "findEvent (h ! (unat r - 1)) k = Some ev" "ev_type ev = PUT" "\<forall>r' \<in> K. touches k (h ! (unat r' - 1)) \<longrightarrow> r' \<le> r"
    and req: "rr_Key req = Some k" "rr_RangeEnd req = None" "\<not> rr_CountOnly req" "rr_Revision req = 0"
  shows "\<exists>m. NewMemoryStorage lg now l = Inr m \<and> fst (Get lg now m req) = Inr (get_response req (createHeader (of_nat (length h))) (Some (ev_kv ev)))"
proof -
  have rr: "1 \<le> unat r" "unat r \<le> length h" using range[OF hl r(1)] by blast+
  then have ne: "h \<noteq> []" by auto
  obtain m rs where m: "NewMemoryStorage lg now l = Inr m" "replayed (ms_revisions m) h rs" "sorted_wrt (<) rs" "set rs = K"
    "ms_log m = l" "ms_applied m = of_nat (length h)"
    by (rule NewMemoryStorage_replays[OF hl ne recs])
  let ?s = "of_nat (length h) :: revision"
  have cur: "lg_GetCurrentRevision lg (ms_log m) = Inr (ms_applied m)" using current[OF hl] by (simp add: m(5,6))
  have u: "unat ?s = length h" using bound[OF hl] by (simp add: unat_of_nat take_bit_nat_eq_self)
  have "touches k (h ! (unat r - 1))" using r(2) findEvent_touches[of "h ! (unat r - 1)" k] by auto
  then have "GetLatestRevisionByKey (ms_revisions m) k ?s = Some r"
    unfolding replayed_lookup[OF m(2)] using r(1,4) m(4) rr u by (simp add: touching_def word_le_nat_alt)
  then have "txn_get lg m (new_txn ?s) req = Inr (get_response req (createHeader ?s) (Some (ev_kv ev)))"
    using req r(2,3) entry[OF hl r(1)] by (simp add: txn_get_def read_revision_def m(5) get_response_def Let_def)
  then show ?thesis using m(1) Get_applied[OF cur req(2), of now] by (simp add: m(6) get_response_def)
qed

end

text \<open>Opening the directory of a log that nothing was being written to, or a torn record of it was.\<close>

lemma reopen_log:
  assumes pc: "proto_codec w" and hl: "fs_holds w base (l, b) h K" and t: "torn w tail" and na: "\<not> op_archive opts"
  obtains l' where "NewFilesystemLogWithOptions w arch ar (torn_dir l tail) opts = Some (Inr (l', NewBatching (fl_lastRevision l')))"
    "fs_holds w (length h) (l', NewBatching (fl_lastRevision l')) h K"
proof -
  have wf: "wire_format w" using pc by (simp add: proto_codec_def)
  obtain xss where inv: "log_inv w l h xss" "kept_revs xss = K" using hl by (auto simp: fs_holds_def)
  have "\<not> op_archive (default_options opts)" using na by (simp add: default_options_def)
  then obtain l' where l': "open_log w arch ar (unopened (default_options opts) (torn_dir l tail)) = Inr l'" "log_inv w l' h xss" "fl_archiver l' = []"
    by (rule open_log_recovers[OF wf inv(1) t])
  have "NewFilesystemLogWithOptions w arch ar (torn_dir l tail) opts = Some (Inr (l', NewBatching (fl_lastRevision l')))"
    using l'(1,3) by (simp add: NewFilesystemLogWithOptions_def Let_def unopened_def[symmetric])
  moreover have "batching_idle (length h) h (NewBatching (fl_lastRevision l'))"
    using l'(2) last_write_le[of h] by (simp add: not_less batching_idle_def log_inv_def NewBatching_def cw_inv_def all_batches_def map_get_def)
  ultimately show thesis using l'(2) inv(2) by (intro that) (auto simp: fs_holds_def)
qed


lemma demo_restorable: "restorable [a, b, c] {1, 2, 3} n"
proof -
  have "of_nat n \<in> ({1, 2, 3} :: revision set)" if "0 < n" "n \<le> 3" for n
  proof -
    have "n = 1 \<or> n = 2 \<or> n = 3" using that by linarith
    then show ?thesis by auto
  qed
  moreover have "last_write (take n [a, b, c]) k \<le> 3" for k using last_write_le[of "take n [a, b, c]" k] by (simp add: min_def split: if_splits)
  ultimately show ?thesis by (auto simp: restorable_def Let_def numeral_3_eq_3)
qed


text \<open>C13: Compacting the log in the background disturbs no reader.  The compaction that \<^verbatim>\<open>Compact\<close> starts, at the compacted revision or below it,
  ends without error; the log then has no more records than before, still all that the storage needs, and every read gives
  the answer it gave before.\<close>

theorem background_compaction:
  assumes "proto_codec w" and "storage_inv (fs_holds w base) m h K" and "through \<le> ms_compacted m"
    and "rr_Key req = Some k" and "rr_RangeEnd req = None" and "\<not> rr_CountOnly req"
  shows "\<exists>m' K'. compact_log (fs_log w) m through = (None, m') \<and> K' \<subseteq> K \<and> storage_inv (fs_holds w base) m' h K'
    \<and> fst (Get (fs_log w) now m' req) = fst (Get (fs_log w) now m req)"
proof -
  obtain m' K' where m': "compact_log (fs_log w) m through = (None, m')" "storage_inv (fs_holds w base) m' h K'" "K' \<subseteq> K" "m' = m \<lparr> ms_log := ms_log m' \<rparr>"
    using compacting_log.compact_log_ok[OF fs_compacting_log[OF assms(1)] assms(2,3)] by blast
  have "ms_compacted m' = ms_compacted m" by (subst m'(4)) simp
  then have "fst (Get (fs_log w) now m' req) = fst (Get (fs_log w) now m req)"
    using storage_log.Get_ok[OF fs_storage_log[OF assms(1)] assms(2,4-6), of now] storage_log.Get_ok[OF fs_storage_log[OF assms(1)] m'(2) assms(4-6), of now] by auto
  then show ?thesis using m'(1-3) by blast
qed

theorem background_compaction_witness:
  "\<exists>m'. compact_log (fs_log std_wire) demo_storage4 3 = (None, m')
    \<and> fst (Get (fs_log std_wire) 0 m' (demo_get 5 3)) = fst (Get (fs_log std_wire) 0 demo_storage4 (demo_get 5 3))"
proof -
  have c: "storage_inv (fs_holds std_wire 0) demo_storage4 [first_record, put_5, delete_5] {1, 2, 3}" "3 \<le> ms_compacted demo_storage4"
    using fs.Compact_ok[OF demo_inv3(1), of 3] demo_compact by simp_all
  show ?thesis using background_compaction[OF std.proto_codec_axioms c, of "demo_get 5 3" "[5]" 0] by auto
qed

text \<open>C15: A deleted key can come back.  Compaction of the index drops a deleted key, and with it the reason to keep the record of the
  delete; an older record of the key stays when it is the current one of another key, or is in a file that is not rewritten.
  When that has happened, the storage says that the key does not exist; the next restart finds the older record, indexes it,
  and the storage returns the value that was deleted, as the key's current one.\<close>

theorem restart_resurrects:
  assumes "proto_codec w" and "storage_inv (fs_holds w base) m h K" and "torn w tail" and "\<not> op_archive opts"
    and "deleted_at h (last_write h k) k" and "r \<in> K" and "findEvent (h ! (unat r - 1)) k = Some ev" and "ev_type ev = PUT"
    and "\<forall>r' \<in> K. touches k (h ! (unat r' - 1)) \<longrightarrow> r' \<le> r"
    and "rr_Key req = Some k" and "rr_RangeEnd req = None" and "\<not> rr_CountOnly req" and "rr_Revision req = 0"
  shows "fst (Get (fs_log w) now m req) = Inr (get_response req (createHeader (of_nat (length h))) None)
    \<and> (\<exists>l' m'. NewFilesystemLogWithOptions w arch ar (torn_dir (fst (ms_log m)) tail) opts = Some (Inr (l', NewBatching (fl_lastRevision l')))
         \<and> NewMemoryStorage (fs_log w) now (l', NewBatching (fl_lastRevision l')) = Inr m'
         \<and> fst (Get (fs_log w) now m' req) = Inr (get_response req (createHeader (of_nat (length h))) (Some (ev_kv ev))))"
proof -
  have i: "fs_holds w base (fst (ms_log m), snd (ms_log m)) h K" "\<forall>r \<in> set h. record_ok r" using assms(2) by (auto simp: storage_inv_def)
  obtain l' where l': "NewFilesystemLogWithOptions w arch ar (torn_dir (fst (ms_log m)) tail) opts = Some (Inr (l', NewBatching (fl_lastRevision l')))"
    "fs_holds w (length h) (l', NewBatching (fl_lastRevision l')) h K"
    by (rule reopen_log[OF assms(1) i(1) assms(3,4)])
  obtain m' where m': "NewMemoryStorage (fs_log w) now (l', NewBatching (fl_lastRevision l')) = Inr m'"
    "fst (Get (fs_log w) now m' req) = Inr (get_response req (createHeader (of_nat (length h))) (Some (ev_kv ev)))"
    using replayable_log.restart_resurrects_key[OF fs_replayable_log[OF assms(1)] l'(2) i(2) assms(6-13)] by blast
  have u: "unat (of_nat (length h) :: revision) = length h"
    using storage_log.bound[OF fs_storage_log[OF assms(1)] i(1)] by (simp add: unat_of_nat take_bit_nat_eq_self)
  have "kv_at h (length h) k = None" using assms(5) by (auto simp: kv_at_def deleted_at_def split: option.splits)
  then have "get_spec h (ms_compacted m) req k (of_nat (length h)) = Inr (get_response req (createHeader (of_nat (length h))) None)"
    using assms(13) u by (simp add: get_spec_def)
  then have "fst (Get (fs_log w) now m req) = Inr (get_response req (createHeader (of_nat (length h))) None)"
    using storage_log.Get_ok[OF fs_storage_log[OF assms(1)] assms(2,10-12), of now] by (auto simp: get_response_def)
  then show ?thesis using l'(1) m' by blast
qed

text \<open>A storage on which this happens: one transaction put two keys, one of them was deleted, and everything was compacted.\<close>

definition put_56 :: LogRecord where
  "put_56 = \<lparr> lr_events = [\<lparr> ev_type = PUT, ev_kv = demo_kv, ev_prevKv = None \<rparr>, \<lparr> ev_type = PUT, ev_kv = demo_kv \<lparr> kv_key := [6] \<rparr>, ev_prevKv = None \<rparr>] \<rparr>"

abbreviation back_log :: "FilesystemLog \<times> Batching" where
  "back_log \<equiv> (three_log std_wire first_record put_56 delete_5, NewBatching 3)"

abbreviation back_history :: history where
  "back_history \<equiv> [first_record, put_56, delete_5]"

lemma back_storable: "storable std_wire first_record" "storable std_wire put_56" "storable std_wire delete_5"
  by (rule std_storable; simp add: put_56_def delete_5_def demo_kv_def event_size_def)+

lemma back_holds: "fs_holds std_wire 3 back_log back_history {1, 2, 3}"
proof -
  have "\<not> 3 < last_write back_history k" for k using last_write_le[of back_history k] by simp
  then have "batching_idle 3 back_history (NewBatching 3)" by (simp add: batching_idle_def all_batches_def NewBatching_def cw_inv_def map_get_def)
  moreover have "kept_revs [[(1, first_record)], [(2, put_56)], [(3, delete_5)], []] = {1, 2, 3}" by (auto simp: kept_revs_def)
  ultimately show ?thesis using three_log_inv[OF back_storable] unfolding fs_holds_def fst_conv snd_conv by blast
qed

lemma back_records: "\<forall>r \<in> set back_history. record_ok r"
  by (simp add: record_ok_def put_56_def delete_5_def demo_kv_def)

lemma back_compacted:
  obtains m0 m1 m2 where "NewMemoryStorage (fs_log std_wire) 0 back_log = Inr m0" "Memory_Storage.Compact m0 3 = ((3, True), m1)"
    "compact_log (fs_log std_wire) m1 3 = (None, m2)" "storage_inv (fs_holds std_wire 3) m2 back_history {2}"
proof -
  obtain m0 where m0: "NewMemoryStorage (fs_log std_wire) 0 back_log = Inr m0" "ms_compacted m0 = 0" "storage_inv (fs_holds std_wire 3) (m0 \<lparr> ms_compacted := 0 \<rparr>) back_history {1, 2, 3}"
    using fsr.restart_ok[OF back_holds _ back_records demo_restorable, of 0 0] by auto
  have ap: "ms_applied m0 = of_nat (length back_history)" "ms_watchers m0 = []" "ms_log m0 = back_log"
    using fsr.NewMemoryStorage_replays[OF back_holds _ back_records, of 0] m0(1) by (metis sum.inject(2) list.distinct(1))+
  have i0: "storage_inv (fs_holds std_wire 3) m0 back_history {1, 2, 3}" using m0(2,3) by (metis MemoryStorage.surjective MemoryStorage.update_convs(3))
  obtain m1 where m1: "Memory_Storage.Compact m0 3 = ((3, True), m1)" "ms_revisions m1 = fst (Bptree.Compact (ms_revisions m0) 3)" "ms_log m1 = back_log"
  proof -
    obtain t a b where t: "Bptree.Compact (ms_revisions m0) 3 = (t, a, b)" by (metis prod_cases3)
    show thesis by (rule that[of "m0 \<lparr> ms_revisions := t, ms_compacted := 3 \<rparr>"])
      (use ap t in \<open>simp_all add: Memory_Storage.Compact_def watched_through_def m0(2) Let_def\<close>)
  qed
  have i1: "storage_inv (fs_holds std_wire 3) m1 back_history {1, 2, 3}" "ms_compacted m1 = 3"
    using fs.Compact_ok[OF i0, of 3] m1(1) by simp_all
  have ok: "index_ok (ms_revisions m0) back_history 3 0" using i0 ap(1) m0(2) by (simp add: storage_inv_def)
  have ok1: "index_ok (ms_revisions m1) back_history (unat (ms_applied m1)) 3" "3 \<le> unat (ms_applied m1)" "unat (ms_applied m1) \<le> 3" using i1 by (simp_all add: storage_inv_def)
  have lw: "last_write back_history [5] = 3" "last_write back_history [6] = 2"
    by (simp_all add: last_write_def touches_def put_56_def delete_5_def demo_kv_def)
  have d: "deleted_at back_history 3 [5]" "\<not> deleted_at back_history 2 [6]"
    by (simp_all add: deleted_at_def event_at_def findEvent_def put_56_def delete_5_def demo_kv_def)
  have g5: "GetLatestRevisionByKey (ms_revisions m1) [5] 3 = None"
    unfolding m1(2) by (rule Compact_gone[OF ok]) (simp_all add: lw(1) d(1))
  have g6: "GetLatestRevisionByKey (ms_revisions m1) [6] 3 = Some 2"
  proof -
    have "lookup_ok back_history 3 [6] (last_write (take (min (unat (3 :: revision)) (unat (ms_applied m1))) back_history) [6]) (GetLatestRevisionByKey (ms_revisions m1) [6] 3)"
    proof -
      have "(3 :: nat) \<le> unat (3 :: revision)" by simp
      then show ?thesis using ok1(1) unfolding index_ok_def by blast
    qed
    then show ?thesis using ok1(2,3) lw(2) d(2) by (simp add: lookup_ok_def)
  qed
  have live: "\<not> live_rec (live_record m1 3) (1, first_record)" "live_rec (live_record m1 3) (2, put_56)" "\<not> live_rec (live_record m1 3) (3, delete_5)"
    using g5 g6 by (simp_all add: live_rec_def live_record_def put_56_def delete_5_def)
  obtain l' where l': "log_Compact std_wire (fst back_log) 3 (live_record m1 3) = (None, l')" "log_inv std_wire l' back_history [[(2, put_56)], [], []]"
    by (rule three_log_Compact[OF std.proto_codec_axioms back_storable live]) simp
  have c: "compact_log (fs_log std_wire) m1 3 = (None, m1 \<lparr> ms_log := (l', NewBatching 3) \<rparr>)"
    using l'(1) by (simp add: compact_log_def fs_log_def m1(3))
  have "kept_revs [[(2, put_56)], [], []] = {2}" by (auto simp: kept_revs_def)
  moreover have "batching_idle 3 back_history (NewBatching 3)" using back_holds by (simp add: fs_holds_def)
  ultimately have h2: "fs_holds std_wire 3 (l', NewBatching 3) back_history {2}" using l'(2) unfolding fs_holds_def fst_conv snd_conv by blast
  have "r = 2" if r: "needed (ms_revisions m1) 3 r" "unat r \<le> 3" for r
  proof -
    have r3: "r \<in> {1, 2, 3}" using i1 r by (auto simp: storage_inv_def)
    then have "\<not> 3 < r" by auto
    then obtain k where "touches k (back_history ! (unat r - 1))" "live_record m1 3 k r"
      using fsc.needed_live[OF i1(1), of 3 r] r(1) i1(2) by auto
    then show ?thesis using r3 g5 by (auto simp: touches_def live_record_def delete_5_def)
  qed
  then have "storage_inv (fs_holds std_wire 3) (m1 \<lparr> ms_log := (l', NewBatching 3) \<rparr>) back_history {2}"
    using i1 h2 by (simp add: storage_inv_def)
  then show thesis by (rule that[OF m0(1) m1(1) c])
qed

theorem restart_resurrects_witness:
  "\<exists>m0 m1 m2 l' m3. NewMemoryStorage (fs_log std_wire) 0 back_log = Inr m0 \<and> Memory_Storage.Compact m0 3 = ((3, True), m1)
    \<and> compact_log (fs_log std_wire) m1 3 = (None, m2) \<and> rp_Kvs (projr (fst (Get (fs_log std_wire) 0 m2 (demo_get 5 0)))) = []
    \<and> NewFilesystemLogWithOptions std_wire undefined undefined (torn_dir (fst (ms_log m2)) []) demo_options = Some (Inr (l', NewBatching (fl_lastRevision l')))
    \<and> NewMemoryStorage (fs_log std_wire) 0 (l', NewBatching (fl_lastRevision l')) = Inr m3
    \<and> rp_Kvs (projr (fst (Get (fs_log std_wire) 0 m3 (demo_get 5 0)))) = [demo_kv]"
proof -
  obtain m0 m1 m2 where m: "NewMemoryStorage (fs_log std_wire) 0 back_log = Inr m0" "Memory_Storage.Compact m0 3 = ((3, True), m1)"
    "compact_log (fs_log std_wire) m1 3 = (None, m2)" "storage_inv (fs_holds std_wire 3) m2 back_history {2}" by (rule back_compacted)
  have na: "\<not> op_archive demo_options" by (simp add: demo_options_def)
  have d: "deleted_at back_history (last_write back_history [5]) [5]"
    by (simp add: last_write_def touches_def put_56_def delete_5_def demo_kv_def deleted_at_def event_at_def findEvent_def)
  have e: "(2 :: revision) \<in> {2}" "findEvent (back_history ! (unat (2 :: revision) - 1)) [5] = Some \<lparr> ev_type = PUT, ev_kv = demo_kv, ev_prevKv = None \<rparr>"
    "ev_type \<lparr> ev_type = PUT, ev_kv = demo_kv, ev_prevKv = None \<rparr> = PUT" "\<forall>r' \<in> {2 :: revision}. touches [5] (back_history ! (unat r' - 1)) \<longrightarrow> r' \<le> 2"
    by (simp_all add: findEvent_def put_56_def demo_kv_def)
  show ?thesis
    using restart_resurrects[OF std.proto_codec_axioms m(4) std.torn_Nil na d e, of "demo_get 5 0" 0 undefined undefined] m(1-3)
    by (auto simp: get_response_def)
qed

end
