(* ===== verification/Archive_Spec.thy ===== *)
theory Archive_Spec
  imports Gcs_Archive Restart
begin

text \<open>
  The archiver and compaction together, with the archive on Cloud Storage: two ways in which compaction leaves the archiver
  an operation that it cannot carry out.
\<close>

lemma mark_archived_dir [simp]: "fl_dir (mark_archived l name) = fl_dir l"
  by (simp add: mark_archived_def)

lemma archive_dir: "archive arch n ar l oper = Some (e, ar', l') \<Longrightarrow> fl_dir l' = fl_dir l"
  by (induction n arbitrary: ar) (auto split: prod.splits option.splits if_splits)

lemma upload_missing:
  assumes "\<not> ao_remove oper" and "map_of (fl_dir l) (ao_name oper) = None"
  shows "archive (gcs_archive bk p) n b l oper = None"
  using assms by (induction n) (simp_all add: gcs_archive_def Let_def Upload_def)

lemma archiver_run_missing:
  assumes "oper \<in> set ops" and "\<not> ao_remove oper"
  shows "map_of (fl_dir l) (ao_name oper) = None \<Longrightarrow> archiver_run (gcs_archive bk p) n b l ops \<noteq> Some (None, b', l')"
  using assms(1)
proof (induction ops arbitrary: b l)
  case (Cons first ops)
  show ?case
  proof (cases "first = oper")
    case True
    then show ?thesis using upload_missing[OF assms(2) Cons.prems(1), of bk p n b] by simp
  next
    case False
    then show ?thesis using Cons archive_dir[of "gcs_archive bk p" n b l first] by (auto split: option.splits prod.splits)
  qed
qed simp


abbreviation upload :: "string \<Rightarrow> archiveOp" where
  "upload name \<equiv> \<lparr> ao_name = name, ao_remove = False \<rparr>"

abbreviation merged_info :: "logFile list \<Rightarrow> fileInfo" where
  "merged_info grp \<equiv> \<lparr> fi_first = fi_first (hd grp), fi_last = fi_last (last grp), fi_sparse = True \<rparr>"

lemma compactGroup_state:
  assumes "compactGroup w l grp live = (None, l')"
  shows "\<exists>out. fl_dir l' = remove_files (AList.update (filename (merged_info grp)) out (AList.delete (filename (merged_info grp) @ ''.tmp'') (fl_dir l))) (filename (merged_info grp)) grp
    \<and> set (fl_archiver l) \<subseteq> set (fl_archiver l') \<and> (op_archive (fl_opts l) \<longrightarrow> upload (filename (merged_info grp)) \<in> set (fl_archiver l'))"
  using assms by (auto simp: compactGroup_def Let_def split: sum.splits prod.splits)

text \<open>C20: The archiver can wait for ever.  When compaction replaces a file whose upload is still queued, the file is removed from the directory, the upload
  can no longer read it, and the archiver, which tries an operation until it succeeds, never comes to the end of its queue,
  however often it tries and whatever the bucket answers.\<close>

theorem archiver_stuck:
  assumes "compactGroup w l grp live = (None, l')" and "f \<in> set grp" and "lf_name f \<noteq> filename (merged_info grp)"
    and "upload (lf_name f) \<in> set (fl_archiver l)"
  shows "archiver_drain (gcs_archive bk p) n b l' \<noteq> Some (None, b', l'')"
proof -
  obtain out where o: "fl_dir l' = remove_files (AList.update (filename (merged_info grp)) out (AList.delete (filename (merged_info grp) @ ''.tmp'') (fl_dir l))) (filename (merged_info grp)) grp"
    "set (fl_archiver l) \<subseteq> set (fl_archiver l')" using compactGroup_state[OF assms(1)] by blast
  have "map_of (fl_dir l') (lf_name f) = None" unfolding o(1) using assms(2,3) by (simp add: remove_files_dir(1))
  moreover have "upload (lf_name f) \<in> set (fl_archiver l')" using o(2) assms(4) by blast
  ultimately show ?thesis unfolding archiver_drain_def by (intro archiver_run_missing[where oper = "upload (lf_name f)"]) simp_all
qed

definition queued_log :: FilesystemLog where
  "queued_log = (fst back_log) \<lparr> fl_archiver := [upload (filename (rev_info 1 1))] \<rparr>"

theorem archiver_stuck_witness:
  "\<exists>l'. compactGroup std_wire queued_log [rev_file std_wire 1 first_record, rev_file std_wire 2 put_56] (\<lambda>k r. True) = (None, l')
    \<and> (\<forall>(bk :: nat Bucket) p n b b' l''. archiver_drain (gcs_archive bk p) n b l' \<noteq> Some (None, b', l''))"
proof -
  let ?grp = "[rev_file std_wire 1 first_record, rev_file std_wire 2 put_56]"
  have "fl_dir queued_log = fl_dir (fst back_log)" by (simp add: queued_log_def)
  then have g: "list_all2 (file_ok std_wire (fl_dir queued_log) back_history) ?grp [[(1, first_record)], [(2, put_56)]]"
    using log_inv_files[OF three_log_inv[OF back_storable]] by (simp add: three_log_def)
  obtain l' where l': "compactGroup std_wire queued_log ?grp (\<lambda>k r. True) = (None, l')" using compactGroup_eq[OF std.wire_format_axioms g] by blast
  have nm: "lf_name (rev_file std_wire 1 first_record) = filename (rev_info 1 1)" "fi_first (hd ?grp) = 1" by (simp_all add: rev_file_def new_logFile_def rev_info_def)
  then have ne: "lf_name (rev_file std_wire 1 first_record) \<noteq> filename (merged_info ?grp)" unfolding nm by (simp add: filename_def rev_info_def)
  have "archiver_drain (gcs_archive bk p) n b l' \<noteq> Some (None, b', l'')" for bk :: "nat Bucket" and p n b b' l''
    by (rule archiver_stuck[OF l' _ ne]) (simp_all add: queued_log_def nm(1))
  then show ?thesis using l' by blast
qed


text \<open>C18: Compacting a compacted file again ends the process.  The result has the same name as the file it replaces, which the archive still holds; the
  archive does not overwrite but compares, finds another size, reports a conflict with another writer, and that is a panic.  The bucket is assumed to do what its
  client documents: creating an object that exists fails its precondition, and the attributes of the object are those of what was uploaded.\<close>

theorem recompaction_conflict:
  assumes "proto_codec w" and "file_ok w (fl_dir l) h f xs" and "fi_sparse f" and "x \<in> set xs" and "\<not> live_rec live x"
    and "\<And>data crc. bk_create bk b (archive_prefix p @ lf_name f) data crc = (Some err, b)" and "bk_precondition bk err"
    and "bk_attrs bk b (archive_prefix p @ lf_name f) = Inr (length (read_file (fl_dir l) (lf_name f)), crc)"
  shows "\<exists>l'. compactGroup w l [f] live = (None, l') \<and> (op_archive (fl_opts l) \<longrightarrow> upload (lf_name f) \<in> set (fl_archiver l'))
    \<and> archive (gcs_archive bk p) (Suc n) b l' (upload (lf_name f)) = Some (Some (Panic ''archiving log file''), b, l')"
proof -
  have wf: "wire_format w" using assms(1) by (simp add: proto_codec_def)
  have g: "list_all2 (file_ok w (fl_dir l) h) [f] [xs]" using assms(2) by simp
  let ?ys = "filter (live_rec live) xs"
  have nm: "lf_name f = filename (merged_info [f])" using assms(2,3) by (simp add: file_ok_def named_def fileInfo.truncate_def)
  obtain l' where l': "compactGroup w l [f] live = (None, l')" "map_of (fl_dir l') (lf_name f) = Some (magic @ enc_records w ?ys)"
  proof -
    have c: "lf_name (compacted_file w [f] (filter (live_rec live) (concat [xs]))) = lf_name f" by (simp add: compacted_file_def Let_def new_logFile_def nm)
    obtain l' where l': "compactGroup w l [f] live = (None, l')"
      "fl_dir l' = remove_files (AList.update (lf_name f) (magic @ enc_records w ?ys) (AList.delete (lf_name f @ ''.tmp'') (fl_dir l))) (lf_name f) [f]"
      using compactGroup_eq[OF wf g, of live] unfolding c by fastforce
    show thesis by (rule that[OF l'(1)]) (simp add: l'(2) remove_files_dir(1) update_conv')
  qed
  have "length (enc_records w ?ys) < length (enc_records w xs)"
    using assms(4,5)
  proof (induction xs)
    case (Cons y xs)
    have pos: "0 < length (enc_delimited w (enc_message w y))" using wire_format.varint_nonempty[OF wf] by (simp add: enc_delimited_def)
    have le: "length (enc_records w (filter (live_rec live) xs)) \<le> length (enc_records w xs)" by (induction xs) (simp_all add: enc_records_def)
    have e: "length (enc_records w (z # zs)) = length (enc_delimited w (enc_message w z)) + length (enc_records w zs)" for z zs by (simp add: enc_records_def)
    show ?case
    proof (cases "live_rec live y")
      case True
      then have "x \<in> set xs" using Cons.prems by auto
      then show ?thesis using Cons.IH Cons.prems(2) True e by simp
    next
      case False
      then have "length (enc_records w (filter (live_rec live) (y # xs))) = length (enc_records w (filter (live_rec live) xs))" by simp
      then show ?thesis using le pos e[of y xs] by linarith
    qed
  qed simp
  moreover have "read_file (fl_dir l) (lf_name f) = magic @ enc_records w xs" using assms(2) by (simp add: file_ok_def read_file_def)
  ultimately have "archive (gcs_archive bk p) (Suc n) b l' (upload (lf_name f)) = Some (Some (Panic ''archiving log file''), b, l')"
    using assms(6-8) l'(2) by (simp add: gcs_archive_def Let_def Upload_def explainWriteError_def isPreconditionFailed_def)
  then show ?thesis using l'(1) compactGroup_state[OF l'(1)] nm by auto
qed


text \<open>A bucket as a map from names to contents.\<close>

definition map_bucket :: "(string \<rightharpoonup> bytes) Bucket" where
  "map_bucket =
     \<lparr> bk_list = (\<lambda>b pre. ([], None)),
       bk_create = (\<lambda>b obj data crc. case b obj of Some _ \<Rightarrow> (Some (Errorf ''precondition''), b) | None \<Rightarrow> (None, b(obj \<mapsto> data))),
       bk_attrs = (\<lambda>b obj. case b obj of None \<Rightarrow> Inl (Errorf ''not found'') | Some data \<Rightarrow> Inr (length data, crc32 data)),
       bk_delete = (\<lambda>b obj. (None, b(obj := None))), bk_read = (\<lambda>b obj. case b obj of None \<Rightarrow> Inl (Errorf ''not found'') | Some data \<Rightarrow> Inr data),
       bk_precondition = (\<lambda>e. e = Errorf ''precondition''), bk_notExist = (\<lambda>e. e = Errorf ''not found'') \<rparr>"

definition sparse_file :: logFile where
  "sparse_file = (new_logFile \<lparr> fi_first = 1, fi_last = 2, fi_sparse = True \<rparr> (filename \<lparr> fi_first = 1, fi_last = 2, fi_sparse = True \<rparr>))
     \<lparr> lf_count := 1, lf_size := length (magic @ enc_records std_wire [(2, put_56)]) \<rparr>"

definition sparse_log :: FilesystemLog where
  "sparse_log = (fst back_log) \<lparr> fl_opts := demo_options \<lparr> op_archive := True \<rparr>, fl_dir := [(lf_name sparse_file, magic @ enc_records std_wire [(2, put_56)])], fl_files := [sparse_file] \<rparr>"

theorem recompaction_conflict_witness:
  "\<exists>l'. compactGroup std_wire sparse_log [sparse_file] (\<lambda>k r. False) = (None, l') \<and> upload (lf_name sparse_file) \<in> set (fl_archiver l')
    \<and> archive (gcs_archive map_bucket []) 1 [lf_name sparse_file \<mapsto> read_file (fl_dir sparse_log) (lf_name sparse_file)] l' (upload (lf_name sparse_file))
       = Some (Some (Panic ''archiving log file''), [lf_name sparse_file \<mapsto> read_file (fl_dir sparse_log) (lf_name sparse_file)], l')"
proof -
  have "recordable std_wire (2, put_56)" using back_storable(2) by (simp add: storable_def)
  then have ok: "file_ok std_wire (fl_dir sparse_log) back_history sparse_file [(2, put_56)]"
    by (simp add: file_ok_def sparse_log_def sparse_file_def named_def new_logFile_def fileInfo.truncate_def hist_map_def)
  let ?b = "[lf_name sparse_file \<mapsto> read_file (fl_dir sparse_log) (lf_name sparse_file)]"
  have sp: "fi_sparse sparse_file" "(2, put_56) \<in> set [(2, put_56)]" "\<not> live_rec (\<lambda>k r. False) (2, put_56)" "op_archive (fl_opts sparse_log)"
    by (simp_all add: sparse_file_def new_logFile_def live_rec_def sparse_log_def list_ex_iff)
  have cr: "bk_create map_bucket ?b (archive_prefix [] @ lf_name sparse_file) data crc = (Some (Errorf ''precondition''), ?b)" for data crc
    by (simp add: map_bucket_def archive_prefix_def)
  have at: "bk_precondition map_bucket (Errorf ''precondition'')" "bk_attrs map_bucket ?b (archive_prefix [] @ lf_name sparse_file)
      = Inr (length (read_file (fl_dir sparse_log) (lf_name sparse_file)), crc32 (read_file (fl_dir sparse_log) (lf_name sparse_file)))"
    by (simp_all add: map_bucket_def archive_prefix_def)
  show ?thesis using recompaction_conflict[OF std.proto_codec_axioms ok sp(1-3) cr at, of 0] sp(4) unfolding One_nat_def by blast
qed

end
