(* ===== verification/Watch.thy ===== *)
theory Watch
  imports Memory_Storage
begin

text \<open>
  Watchers, \<^verbatim>\<open>src/pkg/storage/memorystorage/watch.go\<close>.  A watcher is an entry of \<^verbatim>\<open>ms_watchers\<close>; its goroutine
  \<^verbatim>\<open>Run\<close> is \<^verbatim>\<open>run_wait\<close> (the wait for new records), and \<^verbatim>\<open>run_rounds\<close> (the rounds that send what is ready), each
  round one response.  The callback is a function on the stream's state.
\<close>

definition range_type :: "slice \<Rightarrow> RangeType" where
  "range_type rangeEnd = (if 0 < length (the_bytes rangeEnd) then if the_bytes rangeEnd = [0] then RangeTypeRangeNoEnd else RangeTypeRangeNormal else RangeTypeKey)"

definition Watch :: "'l Log \<Rightarrow> 'l MemoryStorage \<Rightarrow> WatchCreateRequest \<Rightarrow> (error \<times> revision + memoryWatcher \<times> revision) \<times> 'l MemoryStorage" where
  "Watch lg m req =
     (let start = wc_StartRevision req
      in if 0 < start \<and> start \<le> ms_compacted m
         then (Inl (Wrap ''watch start revision is at or below the compacted revision'' ErrCompacted, ms_compacted m), m)
         else if wc_WatchId req = 0 then (Inl (Errorf ''watch ID must be non-zero'', 0), m)
         else case lg_GetCurrentRevision lg (ms_log m) of
                Inl e \<Rightarrow> (Inl (Wrap ''failed to get current revision'' e, 0), m)
              | Inr logPosition \<Rightarrow>
                  let done = (if start = 0 then logPosition else start - 1);
                      w = \<lparr> mw_id = wc_WatchId req, mw_req = req, mw_rangeType = range_type (wc_RangeEnd req), mw_watchDoneRevision = done,
                            mw_delivered = done, mw_logPosition = logPosition, mw_closed = False \<rparr>
                  in (Inr (w, logPosition), m \<lparr> ms_watchers := ms_watchers m @ [w] \<rparr>))"

subsection \<open>The events of a revision\<close>

definition getWatchEvent :: "'l Log \<Rightarrow> 'l MemoryStorage \<Rightarrow> revision \<Rightarrow> error + Event list" where
  "getWatchEvent lg m pos =
     (case lg_GetLogEntry lg (ms_log m) pos of
        Inl e \<Rightarrow> Inl e
      | Inr None \<Rightarrow> Inl (Errorf ''log entry not found for position'')
      | Inr (Some logEntry) \<Rightarrow> Inr (lr_events logEntry))"

fun passes_filters :: "FilterType list \<Rightarrow> Event \<Rightarrow> bool \<Rightarrow> error + bool" where
  "passes_filters [] ev shouldSend = Inr shouldSend"
| "passes_filters (f # fs) ev shouldSend =
     (case f of
        NOPUT \<Rightarrow> passes_filters fs ev (if ev_type ev = PUT then False else shouldSend)
      | NODELETE \<Rightarrow> passes_filters fs ev (if ev_type ev = DELETE then False else shouldSend)
      | UnknownFilter \<Rightarrow> Inl (Panic ''unknown filter''))"

definition in_range :: "memoryWatcher \<Rightarrow> key \<Rightarrow> bool" where
  "in_range w k =
     (let start = the_bytes (wc_Key (mw_req w)); stop = the_bytes (wc_RangeEnd (mw_req w))
      in case mw_rangeType w of
           RangeTypeKey \<Rightarrow> k = start
         | RangeTypeRangeNormal \<Rightarrow> \<not> (k < start \<or> stop \<le> k)
         | RangeTypeRangeNoEnd \<Rightarrow> \<not> k < start)"

fun select_events :: "memoryWatcher \<Rightarrow> Event list \<Rightarrow> error + Event list" where
  "select_events w [] = Inr []"
| "select_events w (ev # evs) =
     (if IsInternalKey (kv_key (ev_kv ev)) then select_events w evs
      else case passes_filters (wc_Filters (mw_req w)) ev True of
             Inl e \<Rightarrow> Inl e
           | Inr False \<Rightarrow> select_events w evs
           | Inr True \<Rightarrow>
               if in_range w (kv_key (ev_kv ev))
               then case select_events w evs of Inl e \<Rightarrow> Inl e | Inr sel \<Rightarrow> Inr (ev # sel)
               else select_events w evs)"

definition collect :: "'l Log \<Rightarrow> 'l MemoryStorage \<Rightarrow> memoryWatcher \<Rightarrow> revision \<Rightarrow> error + Event list" where
  "collect lg m w pos =
     (case getWatchEvent lg m pos of
        Inl e \<Rightarrow> Inl e
      | Inr events \<Rightarrow>
          (case select_events w events of
             Inl e \<Rightarrow> Inl e
           | Inr sendEvents \<Rightarrow> Inr (if wc_PrevKv (mw_req w) then sendEvents else map (\<lambda>ev. ev \<lparr> ev_prevKv := None \<rparr>) sendEvents)))"

subsection \<open>Sending\<close>

definition maxRevisionsPerResponse :: nat where "maxRevisionsPerResponse = 256"
definition maxEventsPerResponse :: nat where "maxEventsPerResponse = 512"

text \<open>The revisions of one response: \<^verbatim>\<open>n\<close> more may be added, and \<^verbatim>\<open>until\<close> is the last one in it so far.\<close>

primrec gather :: "'l Log \<Rightarrow> 'l MemoryStorage \<Rightarrow> memoryWatcher \<Rightarrow> revision \<Rightarrow> nat \<Rightarrow> revision \<Rightarrow> Event list \<Rightarrow> error + Event list \<times> revision" where
  "gather lg m w logPosition 0 until events = Inr (events, until)"
| "gather lg m w logPosition (Suc n) until events =
     (if until < logPosition \<and> length events < maxEventsPerResponse
      then case collect lg m w (until + 1) of
             Inl e \<Rightarrow> Inl e
           | Inr evs \<Rightarrow> gather lg m w logPosition n (until + 1) (events @ evs)
      else Inr (events, until))"

text \<open>One round: at most one response is sent, then the watcher's position moves.\<close>

definition run_round :: "'l Log \<Rightarrow> 'l MemoryStorage \<Rightarrow> ('s \<Rightarrow> WatchResponse \<Rightarrow> error option \<times> 's) \<Rightarrow> revision \<Rightarrow> memoryWatcher \<Rightarrow> 's
    \<Rightarrow> error option \<times> memoryWatcher \<times> 's" where
  "run_round lg m callback logPosition w s =
     (case gather lg m w logPosition maxRevisionsPerResponse (mw_watchDoneRevision w) [] of
        Inl e \<Rightarrow> (Some e, w, s)
      | Inr (events, until) \<Rightarrow>
          (case (if events = [] then (None, s)
                 else callback s \<lparr> wp_Header = createHeader until, wp_WatchId = mw_id w, wp_Created = False, wp_Canceled = False,
                                   wp_CompactRevision = 0, wp_Events = events \<rparr>) of
             (Some e, s') \<Rightarrow> (Some e, w, s')
           | (None, s') \<Rightarrow> (None, w \<lparr> mw_watchDoneRevision := until, mw_delivered := until \<rparr>, s')))"

text \<open>
  The loop over the rounds until the watcher is at \<^verbatim>\<open>logPosition\<close>, with a bound on their number: \<^verbatim>\<open>None\<close> means
  that it was not enough.
\<close>

primrec run_rounds :: "nat \<Rightarrow> 'l Log \<Rightarrow> 'l MemoryStorage \<Rightarrow> ('s \<Rightarrow> WatchResponse \<Rightarrow> error option \<times> 's) \<Rightarrow> revision \<Rightarrow> memoryWatcher \<Rightarrow> 's
    \<Rightarrow> (error option \<times> memoryWatcher \<times> 's) option" where
  "run_rounds 0 lg m callback logPosition w s = (if mw_watchDoneRevision w < logPosition then None else Some (None, w, s))"
| "run_rounds (Suc n) lg m callback logPosition w s =
     (if mw_watchDoneRevision w < logPosition
      then case run_round lg m callback logPosition w s of
             (Some e, w', s') \<Rightarrow> Some (Some e, w', s')
           | (None, w', s') \<Rightarrow> run_rounds n lg m callback logPosition w' s'
      else Some (None, w, s))"

datatype wait_result = Blocks | Returns "error option" | Proceeds revision

text \<open>The wait at the top of \<^verbatim>\<open>Run\<close>'s loop, given the context's error.\<close>

definition run_wait :: "memoryWatcher \<Rightarrow> error option \<Rightarrow> wait_result" where
  "run_wait w ctx_err =
     (if mw_logPosition w \<le> mw_watchDoneRevision w
      then case ctx_err of Some e \<Rightarrow> Returns (Some e) | None \<Rightarrow> if mw_closed w then Returns None else Blocks
      else Proceeds (mw_logPosition w))"

definition Watchers :: "'l MemoryStorage \<Rightarrow> (int64 \<times> revision \<times> revision) list" where
  "Watchers m = map (\<lambda>w. (mw_id w, mw_delivered w, mw_logPosition w)) (filter (\<lambda>w. \<not> mw_closed w) (ms_watchers m))"

subsection \<open>The events a watcher wants\<close>

definition wanted :: "memoryWatcher \<Rightarrow> Event \<Rightarrow> bool" where
  "wanted w ev \<longleftrightarrow> \<not> IsInternalKey (kv_key (ev_kv ev)) \<and> in_range w (kv_key (ev_kv ev))
     \<and> \<not> (ev_type ev = PUT \<and> NOPUT \<in> set (wc_Filters (mw_req w))) \<and> \<not> (ev_type ev = DELETE \<and> NODELETE \<in> set (wc_Filters (mw_req w)))"

definition visible :: "memoryWatcher \<Rightarrow> LogRecord \<Rightarrow> Event list" where
  "visible w r = map (\<lambda>ev. if wc_PrevKv (mw_req w) then ev else ev \<lparr> ev_prevKv := None \<rparr>) (filter (wanted w) (lr_events r))"

lemma passes_filters_iff:
  "UnknownFilter \<notin> set fs \<Longrightarrow> passes_filters fs ev b =
     Inr (b \<and> \<not> (ev_type ev = PUT \<and> NOPUT \<in> set fs) \<and> \<not> (ev_type ev = DELETE \<and> NODELETE \<in> set fs))"
  by (induction fs ev b rule: passes_filters.induct) (auto split: FilterType.splits)

lemma select_events_filter:
  "UnknownFilter \<notin> set (wc_Filters (mw_req w)) \<Longrightarrow> select_events w evs = Inr (filter (wanted w) evs)"
  by (induction w evs rule: select_events.induct) (auto simp: passes_filters_iff wanted_def split: sum.splits bool.splits)

lemma collect_visible:
  assumes "UnknownFilter \<notin> set (wc_Filters (mw_req w))" and "lg_GetLogEntry lg (ms_log m) pos = Inr (Some r)"
  shows "collect lg m w pos = Inr (visible w r)"
  using assms by (simp add: collect_def getWatchEvent_def select_events_filter visible_def)

subsection \<open>The rounds end\<close>

lemma word_Suc_le: "(a :: 64 word) < b \<Longrightarrow> unat (a + 1) = Suc (unat a) \<and> a + 1 \<le> b"
proof -
  assume lt: "a < b"
  have "unat b < 2 ^ 64" using unsigned_less[of b] by simp
  then have "Suc (unat a) < 2 ^ 64" using lt by (simp add: word_less_nat_alt)
  then have "unat (a + 1) = Suc (unat a)" by (simp add: unat_word_ariths)
  then show ?thesis using lt by (simp add: word_less_nat_alt word_le_nat_alt)
qed

lemma gather_advances:
  "gather lg m w logPosition n until events = Inr (events', until') \<Longrightarrow> until \<le> logPosition \<Longrightarrow>
   until \<le> until' \<and> until' \<le> logPosition \<and> (0 < n \<and> until < logPosition \<and> length events < maxEventsPerResponse \<longrightarrow> until < until')"
proof (induction n arbitrary: until events)
  case (Suc n)
  show ?case
  proof (cases "until < logPosition \<and> length events < maxEventsPerResponse")
    case True
    then obtain evs where "gather lg m w logPosition n (until + 1) (events @ evs) = Inr (events', until')"
      using Suc.prems(1) by (auto split: sum.splits)
    moreover have s: "unat (until + 1) = Suc (unat until)" "until + 1 \<le> logPosition" using word_Suc_le[of until logPosition] True by auto
    ultimately have "until + 1 \<le> until' \<and> until' \<le> logPosition" using Suc.IH by blast
    then show ?thesis using s(1) by (auto simp: word_le_nat_alt word_less_nat_alt)
  next
    case False
    then show ?thesis using Suc.prems by auto
  qed
qed simp

lemma run_round_advances:
  assumes "run_round lg m callback logPosition w s = (None, w', s')" and "mw_watchDoneRevision w < logPosition"
  shows "mw_watchDoneRevision w < mw_watchDoneRevision w' \<and> mw_watchDoneRevision w' \<le> logPosition"
  using assms gather_advances[of lg m w logPosition maxRevisionsPerResponse "mw_watchDoneRevision w" "[]"]
  by (fastforce simp: run_round_def maxRevisionsPerResponse_def maxEventsPerResponse_def split: sum.splits prod.splits option.splits)

lemma run_rounds_mono:
  "run_rounds n lg m callback logPosition w s = Some res \<Longrightarrow> n \<le> n' \<Longrightarrow> run_rounds n' lg m callback logPosition w s = Some res"
proof (induction n arbitrary: n' w s)
  case 0
  then show ?case by (cases n') (auto split: if_splits)
next
  case (Suc n)
  then obtain k where "n' = Suc k" "n \<le> k" by (cases n') auto
  then show ?case using Suc by (auto split: if_splits prod.splits option.splits)
qed

text \<open>C21: Sending ends.  Whatever the log answers and whatever the callback does, the rounds that bring a watcher to a position of
  the log come to an end after at most as many of them as there are revisions to go: each one either fails or
  moves the watcher forward.\<close>

theorem run_rounds_terminate:
  "\<exists>res. run_rounds (unat logPosition - unat (mw_watchDoneRevision w)) lg m callback logPosition w s = Some res"
proof (induction "unat logPosition - unat (mw_watchDoneRevision w)" arbitrary: w s rule: less_induct)
  case less
  show ?case
  proof (cases "mw_watchDoneRevision w < logPosition")
    case True
    then obtain n where n: "unat logPosition - unat (mw_watchDoneRevision w) = Suc n" by (metis Suc_pred' word_less_nat_alt zero_less_diff)
    obtain e w' s' where r: "run_round lg m callback logPosition w s = (e, w', s')" by (metis prod_cases3)
    show ?thesis
    proof (cases e)
      case None
      have adv: "unat (mw_watchDoneRevision w) < unat (mw_watchDoneRevision w')"
        using run_round_advances[OF r[unfolded None] True] by (simp add: word_less_nat_alt)
      have "unat (mw_watchDoneRevision w) < unat logPosition" using True by (simp add: word_less_nat_alt)
      then have "unat logPosition - unat (mw_watchDoneRevision w') < unat logPosition - unat (mw_watchDoneRevision w)" using adv by linarith
      then obtain res where res: "run_rounds (unat logPosition - unat (mw_watchDoneRevision w')) lg m callback logPosition w' s' = Some res"
        using less[of w' s'] by blast
      have "run_rounds n lg m callback logPosition w' s' = Some res"
        by (rule run_rounds_mono[OF res]) (use adv n in simp)
      then have "run_rounds (Suc n) lg m callback logPosition w s = Some res" using r None True by simp
      then show ?thesis unfolding n by blast
    qed (use n r True in simp)
  qed (cases "unat logPosition - unat (mw_watchDoneRevision w)"; simp)
qed

end
