(* ===== verification/Lease_Manager.thy ===== *)
theory Lease_Manager
  imports Memory_Storage
begin

text \<open>
  The lease operations of \<^verbatim>\<open>src/pkg/lease/lease.go\<close> that go through the storage: a lease is granted by
  putting its record and revoked, or expired, by deleting it; what the table then does is \<^verbatim>\<open>OnLogEvent\<close>.
\<close>

definition set_leases :: "'l MemoryStorage \<Rightarrow> (LeaseManager \<Rightarrow> LeaseManager) \<Rightarrow> 'l MemoryStorage" where
  "set_leases m f = m \<lparr> ms_leaseManager := f (ms_leaseManager m) \<rparr>"

definition LeaseGrant :: "'l Log \<Rightarrow> int \<Rightarrow> 'l MemoryStorage \<Rightarrow> LeaseGrantRequest \<Rightarrow> (error + LeaseGrantResponse) \<times> 'l MemoryStorage" where
  "LeaseGrant lg now m req =
     (if gr_ID req \<noteq> 0 \<and> HasLease (ms_leaseManager m) (gr_ID req) then (Inl ErrLeaseExist, m)
      else let ident = (if gr_ID req = 0 then of_int now else gr_ID req)
           in case Put lg now m \<lparr> pr_Key = Some (leaseKey ident), pr_Value = marshal_leaseValue (gr_TTL req), pr_Lease = 0, pr_PrevKv = False \<rparr> of
                (Inl e, m') \<Rightarrow> (Inl (Wrap ''recording lease grant'' e), m')
              | (Inr resp, m') \<Rightarrow> (Inr \<lparr> gp_ID = ident, gp_TTL = gr_TTL req \<rparr>, m'))"

definition LeaseRevoke :: "'l Log \<Rightarrow> int \<Rightarrow> 'l MemoryStorage \<Rightarrow> int64 \<Rightarrow> error option \<times> 'l MemoryStorage" where
  "LeaseRevoke lg now m ident =
     (if ident = 0 \<or> \<not> HasLease (ms_leaseManager m) ident then (Some ErrLeaseNotFound, m)
      else case Delete lg now m \<lparr> dr_Key = Some (leaseKey ident), dr_RangeEnd = None \<rparr> of
             (Inl e, m') \<Rightarrow> (Some (Wrap ''recording lease revoke'' e), m')
           | (Inr resp, m') \<Rightarrow> (None, m'))"

subsection \<open>Expiry\<close>

definition expired_leases :: "int \<Rightarrow> LeaseManager \<Rightarrow> int64 list" where
  "expired_leases now lm =
     map fst (filter (\<lambda>(ident, l). ls_Expiration l < now \<and> map_of (lm_expiring lm) ident \<noteq> Some True) (lm_leases lm))"

definition mark_expiring :: "int64 list \<Rightarrow> LeaseManager \<Rightarrow> LeaseManager" where
  "mark_expiring idents lm = lm \<lparr> lm_expiring := foldl (\<lambda>ex ident. AList.update ident True ex) (lm_expiring lm) idents \<rparr>"

definition expire_lease :: "'l Log \<Rightarrow> int \<Rightarrow> 'l MemoryStorage \<Rightarrow> int64 \<Rightarrow> 'l MemoryStorage" where
  "expire_lease lg now m ident =
     (case Delete lg now m \<lparr> dr_Key = Some (leaseKey ident), dr_RangeEnd = None \<rparr> of
        (Inl e, m') \<Rightarrow> set_leases m' (\<lambda>lm. lm \<lparr> lm_expiring := AList.delete ident (lm_expiring lm) \<rparr>)
      | (Inr resp, m') \<Rightarrow> if dp_Deleted resp = 0 then set_leases m' (\<lambda>lm. retire lm ident) else m')"

text \<open>
  \<^verbatim>\<open>checkExpiredOnce\<close>; the first component is the \<^verbatim>\<open>Fatal\<close> error of a deletion that ended the process, if one
  did.
\<close>

fun expire_all :: "'l Log \<Rightarrow> int \<Rightarrow> 'l MemoryStorage \<Rightarrow> int64 list \<Rightarrow> error option \<times> 'l MemoryStorage" where
  "expire_all lg now m [] = (None, m)"
| "expire_all lg now m (ident # idents) =
     (case fst (Delete lg now m \<lparr> dr_Key = Some (leaseKey ident), dr_RangeEnd = None \<rparr>) of
        Inl e \<Rightarrow> if crashes e then (Some e, m) else expire_all lg now (expire_lease lg now m ident) idents
      | Inr resp \<Rightarrow> expire_all lg now (expire_lease lg now m ident) idents)"

definition checkExpiredOnce :: "'l Log \<Rightarrow> int \<Rightarrow> 'l MemoryStorage \<Rightarrow> error option \<times> 'l MemoryStorage" where
  "checkExpiredOnce lg now m =
     (let expired = expired_leases now (ms_leaseManager m)
      in expire_all lg now (set_leases m (mark_expiring expired)) expired)"

subsection \<open>Deleting the keys of a lease\<close>

definition lease_txn :: "int64 \<Rightarrow> key \<Rightarrow> TxnRequest" where
  "lease_txn ident k =
     \<lparr> tr_Compare = [\<lparr> cc_Result = Compare_EQUAL, cc_Target = Compare_LEASE, cc_Key = Some k, cc_TargetUnion = Union_Lease ident \<rparr>],
       tr_Success = [RequestDeleteRange \<lparr> dr_Key = Some k, dr_RangeEnd = None \<rparr>], tr_Failure = [] \<rparr>"

fun delete_keys :: "'l Log \<Rightarrow> int \<Rightarrow> 'l MemoryStorage \<Rightarrow> int64 \<Rightarrow> key list \<Rightarrow> error list \<Rightarrow> error list \<times> 'l MemoryStorage" where
  "delete_keys lg now m ident [] errs = (errs, m)"
| "delete_keys lg now m ident (k # ks) errs =
     (case Txn lg now m (lease_txn ident k) of
        (Inl e, m') \<Rightarrow> delete_keys lg now m' ident ks (errs @ [Wrap ''failed to delete key for lease'' e])
      | (Inr resp, m') \<Rightarrow> delete_keys lg now m' ident ks errs)"

definition deleteKeysForLease :: "'l Log \<Rightarrow> int \<Rightarrow> 'l MemoryStorage \<Rightarrow> Lease \<Rightarrow> error list \<times> 'l MemoryStorage" where
  "deleteKeysForLease lg now m l = delete_keys lg now m (ls_ID l) (ls_keys l) []"

text \<open>
  One turn of \<^verbatim>\<open>processDeletionQueue\<close>: \<^verbatim>\<open>None\<close> when it waits; otherwise whether it goes on, and the storage.  A
  lease whose keys could not all be deleted is queued again (after a delay).
\<close>

definition deletion_turn :: "'l Log \<Rightarrow> int \<Rightarrow> 'l MemoryStorage \<Rightarrow> (bool \<times> 'l MemoryStorage) option" where
  "deletion_turn lg now m =
     (case queue_Wait (lm_deleteQueue (ms_leaseManager m)) of
        None \<Rightarrow> None
      | Some (None, q) \<Rightarrow> Some (False, m)
      | Some (Some l, q) \<Rightarrow>
          let m1 = set_leases m (\<lambda>lm. lm \<lparr> lm_deleteQueue := q \<rparr>)
          in case deleteKeysForLease lg now m1 l of
               ([], m2) \<Rightarrow> Some (True, m2)
             | (errs, m2) \<Rightarrow> Some (True, set_leases m2 (\<lambda>lm. lm \<lparr> lm_deleteQueue := queue_Push (lm_deleteQueue lm) l \<rparr>)))"

end
