(* ===== verification/Server.thy ===== *)
theory Server
  imports Watch Lease_Manager
begin

text \<open>
  The gRPC API, \<^verbatim>\<open>src/pkg/api/server.go\<close> and \<^verbatim>\<open>server_maintenance.go\<close>: the handlers over the storage and the
  streams of watches.  A stream's \<^verbatim>\<open>Send\<close> appends to \<^verbatim>\<open>wst_sent\<close>.  An active watch refers to the watcher by its
  position in \<^verbatim>\<open>ms_watchers\<close>, which only grows.  \<^verbatim>\<open>status.Error\<close> makes a new error, in which the identity of
  the one it describes is lost; an error that ended the process is passed on.
\<close>

definition status_InvalidArgument :: error where
  "status_InvalidArgument = Errorf ''InvalidArgument: key is required''"

definition status_Internal :: "error \<Rightarrow> error" where
  "status_Internal e = (if crashes e then e else Errorf ''Internal'')"

definition toGRPCError :: "error \<Rightarrow> error" where
  "toGRPCError e = (if unwrap e = ErrCompacted then ErrCompacted else if unwrap e = ErrFutureRev then ErrFutureRev else e)"

subsection \<open>Key-value handlers\<close>

definition handleSingleKey :: "'l Log \<Rightarrow> int \<Rightarrow> 'l MemoryStorage \<Rightarrow> RangeRequest \<Rightarrow> (error + RangeResponse) \<times> 'l MemoryStorage" where
  "handleSingleKey lg now m req = (case Get lg now m req of (Inl e, m') \<Rightarrow> (Inl (toGRPCError e), m') | (Inr r, m') \<Rightarrow> (Inr r, m'))"

definition handleRangeWithEnd :: "'l Log \<Rightarrow> int \<Rightarrow> 'l MemoryStorage \<Rightarrow> RangeRequest \<Rightarrow> (error + RangeResponse) \<times> 'l MemoryStorage" where
  "handleRangeWithEnd lg now m req =
     (case Memory_Storage.List lg now m req of (Inl e, m') \<Rightarrow> (Inl (toGRPCError e), m') | (Inr r, m') \<Rightarrow> (Inr r, m'))"

definition server_Range :: "'l Log \<Rightarrow> int \<Rightarrow> 'l MemoryStorage \<Rightarrow> RangeRequest \<Rightarrow> (error + RangeResponse) \<times> 'l MemoryStorage" where
  "server_Range lg now m req =
     (if rr_Key req = None then (Inl status_InvalidArgument, m)
      else if 0 < length (the_bytes (rr_RangeEnd req)) then handleRangeWithEnd lg now m req
      else handleSingleKey lg now m req)"

definition server_Put :: "'l Log \<Rightarrow> int \<Rightarrow> 'l MemoryStorage \<Rightarrow> PutRequest \<Rightarrow> (error + PutResponse) \<times> 'l MemoryStorage" where
  "server_Put lg now m req =
     (if pr_Key req = None then (Inl status_InvalidArgument, m)
      else case Put lg now m req of (Inl e, m') \<Rightarrow> (Inl (status_Internal e), m') | (Inr r, m') \<Rightarrow> (Inr r, m'))"

definition server_DeleteRange :: "'l Log \<Rightarrow> int \<Rightarrow> 'l MemoryStorage \<Rightarrow> DeleteRangeRequest \<Rightarrow> (error + DeleteRangeResponse) \<times> 'l MemoryStorage" where
  "server_DeleteRange lg now m req = Delete lg now m req"

definition server_Txn :: "'l Log \<Rightarrow> int \<Rightarrow> 'l MemoryStorage \<Rightarrow> TxnRequest \<Rightarrow> (error + TxnResponse) \<times> 'l MemoryStorage" where
  "server_Txn lg now m req = (case Txn lg now m req of (Inl e, m') \<Rightarrow> (Inl (toGRPCError e), m') | (Inr r, m') \<Rightarrow> (Inr r, m'))"

definition server_Compact :: "'l Log \<Rightarrow> 'l MemoryStorage \<Rightarrow> int64 \<Rightarrow> (error + ResponseHeader) \<times> 'l MemoryStorage" where
  "server_Compact lg m revision =
     (case lg_GetCurrentRevision lg (ms_log m) of
        Inl e \<Rightarrow> (Inl (status_Internal e), m)
      | Inr current \<Rightarrow>
          if current < revision then (Inl ErrFutureRev, m)
          else case Memory_Storage.Compact m revision of (res, m') \<Rightarrow> (Inr (createHeader current), m'))"

definition server_Status :: "'l Log \<Rightarrow> 'l MemoryStorage \<Rightarrow> error + ResponseHeader \<times> string" where
  "server_Status lg m = Status lg m"

subsection \<open>Streams of keep-alives\<close>

text \<open>The requests received until the stream ends, each with the time it is handled: the responses, and the error.\<close>

fun server_LeaseKeepAlive :: "LeaseManager \<Rightarrow> (int \<times> int64) list \<Rightarrow> LeaseKeepAliveResponse list \<times> error option \<times> LeaseManager" where
  "server_LeaseKeepAlive lm [] = ([], None, lm)"
| "server_LeaseKeepAlive lm ((now, ident) # reqs) =
     (case LeaseKeepAlive now lm ident of
        (Inl e, lm') \<Rightarrow> ([], Some e, lm')
      | (Inr resp, lm') \<Rightarrow> (case server_LeaseKeepAlive lm' reqs of (resps, e, lm'') \<Rightarrow> (resp # resps, e, lm'')))"

subsection \<open>Streams of watches\<close>

record activeWatch =
  aw_id :: int64
  aw_watcher :: nat
  aw_closed :: bool

record watchStream =
  wst_watches :: "(int64 \<times> activeWatch) list"
  wst_nextWatchID :: int64
  wst_sent :: "WatchResponse list"

record 'l Server =
  sv_storage :: "'l MemoryStorage"
  sv_watchStreams :: "(int64 \<times> watchStream) list"
  sv_nextWatchStreamID :: int64

definition NewServer :: "'l MemoryStorage \<Rightarrow> 'l Server" where
  "NewServer m = \<lparr> sv_storage = m, sv_watchStreams = [], sv_nextWatchStreamID = 1 \<rparr>"

definition send :: "watchStream \<Rightarrow> WatchResponse \<Rightarrow> watchStream" where
  "send ws resp = ws \<lparr> wst_sent := wst_sent ws @ [resp] \<rparr>"

definition activeWatch_close :: "activeWatch \<Rightarrow> 'l MemoryStorage \<Rightarrow> 'l MemoryStorage" where
  "activeWatch_close aw m =
     (if aw_closed aw then m else m \<lparr> ms_watchers := (ms_watchers m)[aw_watcher aw := close_watcher (ms_watchers m ! aw_watcher aw)] \<rparr>)"

definition watch_reply :: "revision \<Rightarrow> int64 \<Rightarrow> bool \<Rightarrow> bool \<Rightarrow> int64 \<Rightarrow> WatchResponse" where
  "watch_reply pos ident created canceled compactRevision =
     \<lparr> wp_Header = createHeader pos, wp_WatchId = ident, wp_Created = created, wp_Canceled = canceled,
       wp_CompactRevision = compactRevision, wp_Events = [] \<rparr>"

text \<open>The search for a free identifier: the identifier, and the next one to try.\<close>

primrec free_watch_id :: "nat \<Rightarrow> (int64 \<times> activeWatch) list \<Rightarrow> int64 \<Rightarrow> (int64 \<times> int64) option" where
  "free_watch_id 0 watches nxt = None"
| "free_watch_id (Suc n) watches nxt = (if map_of watches nxt = None then Some (nxt, nxt + 1) else free_watch_id n watches (nxt + 1))"

definition create_watch :: "'l Log \<Rightarrow> 'l MemoryStorage \<Rightarrow> watchStream \<Rightarrow> WatchCreateRequest \<Rightarrow> error option \<times> 'l MemoryStorage \<times> watchStream" where
  "create_watch lg m ws req =
     (let watchID = wc_WatchId req
      in case Watch lg m req of
           (Inl (e, logPosition), m') \<Rightarrow>
             if unwrap e = ErrCompacted
             then let current = (case lg_GetCurrentRevision lg (ms_log m) of Inl ce \<Rightarrow> logPosition | Inr r \<Rightarrow> r)
                  in (None, m', send (send ws (watch_reply current watchID True False 0)) (watch_reply current watchID False True logPosition))
             else (Some e, m', send ws (watch_reply logPosition 0 False True 0))
         | (Inr (w, logPosition), m') \<Rightarrow>
             (None, m', (send ws (watch_reply logPosition watchID True False 0))
                \<lparr> wst_watches := AList.update watchID \<lparr> aw_id = watchID, aw_watcher = length (ms_watchers m), aw_closed = False \<rparr> (wst_watches ws) \<rparr>))"

definition handleCreateRequest :: "'l Log \<Rightarrow> 'l MemoryStorage \<Rightarrow> watchStream \<Rightarrow> WatchCreateRequest \<Rightarrow> error option \<times> 'l MemoryStorage \<times> watchStream" where
  "handleCreateRequest lg m ws req =
     (if wc_WatchId req = 0
      then case free_watch_id (Suc (length (wst_watches ws))) (wst_watches ws) (wst_nextWatchID ws) of
             None \<Rightarrow> (Some (Errorf ''no free watch id''), m, ws)
           | Some (watchID, nxt) \<Rightarrow> create_watch lg m (ws \<lparr> wst_nextWatchID := nxt \<rparr>) (req \<lparr> wc_WatchId := watchID \<rparr>)
      else if map_of (wst_watches ws) (wc_WatchId req) \<noteq> None then (Some (Errorf ''watch ID already in use''), m, ws)
      else create_watch lg m ws req)"

definition handleCancelRequest :: "'l Log \<Rightarrow> 'l MemoryStorage \<Rightarrow> watchStream \<Rightarrow> int64 \<Rightarrow> 'l MemoryStorage \<times> watchStream" where
  "handleCancelRequest lg m ws watchID =
     (let logPosition = (case lg_GetCurrentRevision lg (ms_log m) of Inl e \<Rightarrow> 0 | Inr r \<Rightarrow> r)
      in case map_of (wst_watches ws) watchID of
           None \<Rightarrow> (m, ws)
         | Some aw \<Rightarrow> (activeWatch_close aw m,
                       send (ws \<lparr> wst_watches := AList.delete watchID (wst_watches ws) \<rparr>) (watch_reply logPosition watchID False True 0)))"

definition handleProgressRequest :: "'l Log \<Rightarrow> 'l MemoryStorage \<Rightarrow> watchStream \<Rightarrow> error option \<times> watchStream" where
  "handleProgressRequest lg m ws =
     (case lg_GetCurrentRevision lg (ms_log m) of
        Inl e \<Rightarrow> (Some (Fatal ''failed to get revision''), ws)
      | Inr logPosition \<Rightarrow> (None, send ws (watch_reply logPosition (-1) False False 0)))"

definition handle_request :: "'l Log \<Rightarrow> 'l MemoryStorage \<Rightarrow> watchStream \<Rightarrow> WatchRequest \<Rightarrow> error option \<times> 'l MemoryStorage \<times> watchStream" where
  "handle_request lg m ws req =
     (case req of
        WatchCreate r \<Rightarrow> handleCreateRequest lg m ws r
      | WatchCancel ident \<Rightarrow> (None, handleCancelRequest lg m ws ident)
      | WatchProgress \<Rightarrow> (case handleProgressRequest lg m ws of (e, ws') \<Rightarrow> (e, m, ws'))
      | WatchUnknown \<Rightarrow> (Some (Errorf ''unknown watch request type''), m, ws))"

fun handleRequests :: "'l Log \<Rightarrow> 'l MemoryStorage \<Rightarrow> watchStream \<Rightarrow> WatchRequest list \<Rightarrow> error option \<times> 'l MemoryStorage \<times> watchStream" where
  "handleRequests lg m ws [] = (None, m, ws)"
| "handleRequests lg m ws (req # reqs) =
     (case handle_request lg m ws req of
        (Some e, m', ws') \<Rightarrow> (Some e, m', ws')
      | (None, m', ws') \<Rightarrow> handleRequests lg m' ws' reqs)"

definition cleanup :: "'l MemoryStorage \<Rightarrow> watchStream \<Rightarrow> 'l MemoryStorage \<times> watchStream" where
  "cleanup m ws = (foldl (\<lambda>m (ident, aw). activeWatch_close aw m) m (wst_watches ws), ws \<lparr> wst_watches := [] \<rparr>)"

text \<open>\<^verbatim>\<open>Watch\<close>: a stream opens, its requests are handled until it ends, and it is cleaned up.\<close>

definition open_stream :: "'l Server \<Rightarrow> 'l Server \<times> int64" where
  "open_stream s =
     (let ident = sv_nextWatchStreamID s
      in (s \<lparr> sv_nextWatchStreamID := ident + 1,
              sv_watchStreams := AList.update ident \<lparr> wst_watches = [], wst_nextWatchID = 1, wst_sent = [] \<rparr> (sv_watchStreams s) \<rparr>, ident))"

definition stream_request :: "'l Log \<Rightarrow> 'l Server \<Rightarrow> int64 \<Rightarrow> WatchRequest \<Rightarrow> error option \<times> 'l Server" where
  "stream_request lg s ident req =
     (case map_of (sv_watchStreams s) ident of
        None \<Rightarrow> (None, s)
      | Some ws \<Rightarrow>
          (case handle_request lg (sv_storage s) ws req of
             (e, m, ws') \<Rightarrow> (e, s \<lparr> sv_storage := m, sv_watchStreams := AList.update ident ws' (sv_watchStreams s) \<rparr>)))"

definition close_stream :: "'l Server \<Rightarrow> int64 \<Rightarrow> 'l Server" where
  "close_stream s ident =
     (case map_of (sv_watchStreams s) ident of
        None \<Rightarrow> s
      | Some ws \<Rightarrow> s \<lparr> sv_storage := fst (cleanup (sv_storage s) ws), sv_watchStreams := AList.delete ident (sv_watchStreams s) \<rparr>)"

definition server_GracefulStop :: "'l Server \<Rightarrow> 'l Server" where
  "server_GracefulStop s =
     (let m = GracefulStop (sv_storage s)
      in s \<lparr> sv_storage := foldl (\<lambda>m (ident, ws). fst (cleanup m ws)) m (sv_watchStreams s),
             sv_watchStreams := map (\<lambda>(ident, ws). (ident, ws \<lparr> wst_watches := [] \<rparr>)) (sv_watchStreams s) \<rparr>)"

end
