(* ===== verification/Watch_Spec.thy ===== *)
theory Watch_Spec
  imports Watch File_Storage
begin

text \<open>
  What a watcher receives: the events of the log, in order and once each, a whole number of revisions in
  every response.
\<close>

text \<open>The records of the revisions after \<^verbatim>\<open>a\<close> up to \<^verbatim>\<open>b\<close>.\<close>

definition records_between :: "history \<Rightarrow> nat \<Rightarrow> nat \<Rightarrow> history" where
  "records_between h a b = take (b - a) (drop a h)"

definition events_between :: "memoryWatcher \<Rightarrow> history \<Rightarrow> nat \<Rightarrow> nat \<Rightarrow> Event list" where
  "events_between w h a b = concat (map (visible w) (records_between h a b))"

lemma records_between_Cons: "a < b \<Longrightarrow> b \<le> length h \<Longrightarrow> records_between h a b = h ! a # records_between h (Suc a) b"
  by (simp add: records_between_def Cons_nth_drop_Suc[symmetric] take_Cons' diff_Suc_1')

lemma events_between_self [simp]: "events_between w h a a = []"
  by (simp add: events_between_def records_between_def)

lemma events_between_split:
  assumes "a \<le> b" and "b \<le> c"
  shows "events_between w h a c = events_between w h a b @ events_between w h b c"
proof -
  have "take (c - a) (drop a h) = take (b - a) (drop a h) @ take (c - b) (drop (b - a) (drop a h))"
    using assms by (metis Nat.add_diff_assoc2 add.commute le_add_diff_inverse2 take_add)
  then show ?thesis using assms by (simp add: events_between_def records_between_def)
qed

text \<open>A response holds the events of whole revisions and says in its header up to which.\<close>

definition response_ok :: "memoryWatcher \<Rightarrow> history \<Rightarrow> nat \<Rightarrow> nat \<Rightarrow> WatchResponse \<Rightarrow> bool" where
  "response_ok w h a b resp \<longleftrightarrow> wp_WatchId resp = mw_id w \<and> \<not> wp_Created resp \<and> \<not> wp_Canceled resp \<and> wp_Events resp \<noteq> []
     \<and> (\<exists>i j. a \<le> i \<and> i < j \<and> j \<le> b \<and> wp_Header resp = createHeader (of_nat j) \<and> wp_Events resp = events_between w h i j)"

lemma response_ok_mono: "response_ok w h a b resp \<Longrightarrow> a' \<le> a \<Longrightarrow> response_ok w h a' b resp"
  unfolding response_ok_def by (meson order_trans)

lemma visible_cong: "mw_req w = mw_req w' \<Longrightarrow> mw_rangeType w = mw_rangeType w' \<Longrightarrow> visible w = visible w'"
proof -
  assume a: "mw_req w = mw_req w'" "mw_rangeType w = mw_rangeType w'"
  then have "wanted w = wanted w'" by (simp add: fun_eq_iff wanted_def in_range_def)
  then show ?thesis using a by (intro ext) (simp only: visible_def)
qed

definition send_all :: "WatchResponse list \<Rightarrow> WatchResponse \<Rightarrow> error option \<times> WatchResponse list" where
  "send_all s resp = (None, s @ [resp])"

context storage_log
begin

lemma gather_ok:
  assumes inv: "storage_inv holds m h K" and f: "UnknownFilter \<notin> set (wc_Filters (mw_req w))" and lp: "unat lp \<le> length h"
  shows "ms_compacted m \<le> until \<Longrightarrow> until \<le> lp \<Longrightarrow>
    \<exists>until'. gather lg m w lp n until events = Inr (events @ events_between w h (unat until) (unat until'), until') \<and> until \<le> until' \<and> until' \<le> lp"
proof (induction n arbitrary: until events)
  case (Suc n)
  show ?case
  proof (cases "until < lp \<and> length events < maxEventsPerResponse")
    case True
    have s: "unat (until + 1) = Suc (unat until)" "until + 1 \<le> lp" using word_Suc_le[of until lp] True by auto
    have hl: "holds (ms_log m) h K" using inv by (simp add: storage_inv_def)
    have "ms_compacted m < until + 1" using Suc.prems(1) s(1) by (simp add: word_le_nat_alt word_less_nat_alt)
    then have "until + 1 \<in> K" using inv s lp by (auto simp: storage_inv_def needed_def word_le_nat_alt)
    then have c: "collect lg m w (until + 1) = Inr (visible w (h ! unat until))"
      using collect_visible[OF f entry[OF hl]] s(1) by simp
    have "ms_compacted m \<le> until + 1" using Suc.prems(1) s(1) by (simp add: word_le_nat_alt)
    then obtain until' where u: "gather lg m w lp n (until + 1) (events @ visible w (h ! unat until))
        = Inr ((events @ visible w (h ! unat until)) @ events_between w h (unat (until + 1)) (unat until'), until')"
      "until + 1 \<le> until'" "until' \<le> lp"
      using Suc.IH s(2) by blast
    have lt: "unat until < unat until'" "unat until' \<le> length h" using u(2,3) s(1) lp by (simp_all add: word_le_nat_alt)
    have "events_between w h (unat until) (unat until') = visible w (h ! unat until) @ events_between w h (unat (until + 1)) (unat until')"
      using records_between_Cons[OF lt] by (simp add: events_between_def s(1))
    then show ?thesis using True c u lt by (intro exI[of _ until']) (simp add: word_le_nat_alt)
  qed (use Suc.prems in auto)
qed simp

lemma run_rounds_deliver:
  assumes inv: "storage_inv holds m h K" and lp: "unat lp \<le> length h"
  shows "UnknownFilter \<notin> set (wc_Filters (mw_req w)) \<Longrightarrow> ms_compacted m \<le> mw_watchDoneRevision w \<Longrightarrow> mw_watchDoneRevision w \<le> lp
    \<Longrightarrow> \<exists>rs n. run_rounds n lg m send_all lp w s = Some (None, w \<lparr> mw_watchDoneRevision := lp, mw_delivered := (if mw_watchDoneRevision w = lp then mw_delivered w else lp) \<rparr>, s @ rs)
      \<and> concat (map wp_Events rs) = events_between w h (unat (mw_watchDoneRevision w)) (unat lp)
      \<and> (\<forall>resp \<in> set rs. response_ok w h (unat (mw_watchDoneRevision w)) (unat lp) resp)"
proof (induction "unat lp - unat (mw_watchDoneRevision w)" arbitrary: w s rule: less_induct)
  case less
  let ?a = "mw_watchDoneRevision w"
  show ?case
  proof (cases "?a < lp")
    case False
    then have e: "?a = lp" using less.prems(3) by simp
    have "run_rounds 0 lg m send_all lp w s = Some (None, w, s @ [])" using False by simp
    moreover have "w \<lparr> mw_watchDoneRevision := lp, mw_delivered := (if ?a = lp then mw_delivered w else lp) \<rparr> = w" using e by simp
    ultimately show ?thesis using e by (intro exI[of _ "[]"] exI[of _ 0]) simp
  next
    case True
    obtain u where u: "gather lg m w lp maxRevisionsPerResponse ?a [] = Inr (events_between w h (unat ?a) (unat u), u)" "?a \<le> u" "u \<le> lp"
      using gather_ok[OF inv less.prems(1) lp less.prems(2,3), of maxRevisionsPerResponse "[]"] by auto
    have adv: "?a < u" using gather_advances[OF u(1) less.prems(3)] True by (simp add: maxRevisionsPerResponse_def maxEventsPerResponse_def)
    define evs where "evs = events_between w h (unat ?a) (unat u)"
    define resp where "resp = \<lparr> wp_Header = createHeader u, wp_WatchId = mw_id w, wp_Created = False, wp_Canceled = False, wp_CompactRevision = 0, wp_Events = evs \<rparr>"
    define rs0 where "rs0 = (if evs = [] then [] else [resp])"
    define w1 where "w1 = w \<lparr> mw_watchDoneRevision := u, mw_delivered := u \<rparr>"
    have round: "run_round lg m send_all lp w s = (None, w1, s @ rs0)"
      using u(1) by (simp add: run_round_def evs_def[symmetric] rs0_def resp_def send_all_def w1_def)
    have dec: "unat lp - unat (mw_watchDoneRevision w1) < unat lp - unat ?a" using adv u(3) by (simp add: w1_def word_less_nat_alt word_le_nat_alt)
    have v: "visible w1 = visible w" "mw_id w1 = mw_id w" using visible_cong[of w1 w] by (simp_all add: w1_def)
    have same: "events_between w1 = events_between w" "response_ok w1 = response_ok w"
      unfolding fun_eq_iff response_ok_def events_between_def v by simp_all
    have p: "UnknownFilter \<notin> set (wc_Filters (mw_req w1))" "ms_compacted m \<le> mw_watchDoneRevision w1" "mw_watchDoneRevision w1 \<le> lp"
      "mw_watchDoneRevision w1 = u" "mw_delivered w1 = u"
      using less.prems u(2,3) by (simp_all add: w1_def)
    obtain rs n where rs: "run_rounds n lg m send_all lp w1 (s @ rs0)
          = Some (None, w1 \<lparr> mw_watchDoneRevision := lp, mw_delivered := (if u = lp then u else lp) \<rparr>, (s @ rs0) @ rs)"
      "concat (map wp_Events rs) = events_between w h (unat u) (unat lp)" "\<forall>resp \<in> set rs. response_ok w h (unat u) (unat lp) resp"
      using less.hyps[OF dec p(1-3), of "s @ rs0"] unfolding same p(4,5) by auto
    have "run_rounds (Suc n) lg m send_all lp w s = Some (None, w \<lparr> mw_watchDoneRevision := lp, mw_delivered := (if ?a = lp then mw_delivered w else lp) \<rparr>, s @ (rs0 @ rs))"
      using True round rs(1) by (simp add: w1_def)
    moreover have "concat (map wp_Events (rs0 @ rs)) = events_between w h (unat ?a) (unat lp)"
      using rs(2) events_between_split[of "unat ?a" "unat u" "unat lp" w h] u(2,3) by (simp add: rs0_def resp_def evs_def word_le_nat_alt)
    moreover have "response_ok w h (unat ?a) (unat lp) resp" if "evs \<noteq> []"
    proof -
      have "unat ?a \<le> unat ?a \<and> unat ?a < unat u \<and> unat u \<le> unat lp \<and> wp_Header resp = createHeader (of_nat (unat u))
          \<and> wp_Events resp = events_between w h (unat ?a) (unat u)"
        using adv u(3) by (simp add: resp_def evs_def word_less_nat_alt word_le_nat_alt)
      then show ?thesis using that unfolding response_ok_def by (intro conjI exI) (simp_all add: resp_def)
    qed
    moreover have "\<forall>resp \<in> set rs. response_ok w h (unat ?a) (unat lp) resp" using rs(3) response_ok_mono u(2) by (fastforce simp: word_le_nat_alt)
    ultimately show ?thesis by (intro exI[of _ "rs0 @ rs"] exI[of _ "Suc n"]) (auto simp: rs0_def)
  qed
qed

end


text \<open>C6: A watch misses nothing and repeats nothing.  A watch created on a storage whose log holds \<^verbatim>\<open>h\<close>, from a start revision above the
  compacted one (or from now on), takes a finite number of rounds to reach the end of the log; the responses
  it has sent by then have, in the order of the log and once each, the events of every revision from the start on that its
  key range and filters select, and none of the internal keyspace; no response splits a revision, and its header
  says up to which revision it goes.\<close>

theorem watch_delivers:
  assumes "proto_codec w" and "storage_inv (fs_holds w base) m h K" and "Watch (fs_log w) m req = (Inr (wt, lp), m')"
    and "UnknownFilter \<notin> set (wc_Filters req)" and "unat (wc_StartRevision req) \<le> Suc (length h)"
    and "a = (if wc_StartRevision req = 0 then length h else unat (wc_StartRevision req) - 1)"
  shows "lp = of_nat (length h) \<and> (\<exists>n rs wt'. run_rounds n (fs_log w) m' send_all lp wt [] = Some (None, wt', rs)
    \<and> mw_watchDoneRevision wt' = lp \<and> concat (map wp_Events rs) = events_between wt h a (length h)
    \<and> (\<forall>resp \<in> set rs. response_ok wt h a (length h) resp))"
proof -
  have hl: "fs_holds w base (ms_log m) h K" and c: "unat (ms_compacted m) \<le> length h"
    using assms(2) by (auto simp: storage_inv_def)
  note cur = storage_log.current[OF fs_storage_log[OF assms(1)] hl]
  let ?start = "wc_StartRevision req"
  define dn where "dn = (if ?start = 0 then lp else ?start - 1)"
  have W: "lp = of_nat (length h)" "\<not> (0 < ?start \<and> ?start \<le> ms_compacted m)" "m' = m \<lparr> ms_watchers := ms_watchers m @ [wt] \<rparr>"
    "mw_req wt = req" "mw_watchDoneRevision wt = dn"
    using assms(3) cur by (auto simp: Watch_def Let_def dn_def split: if_splits)
  have len: "Suc (length h) < 2 ^ 63" by (rule storage_log.bound[OF fs_storage_log[OF assms(1)] hl])
  then have ul: "unat lp = length h" by (simp add: W(1) unat_of_nat take_bit_nat_eq_self)
  have ud: "unat dn = a" using ul assms(6) by (simp add: dn_def unat_minus_one)
  have da: "ms_compacted m \<le> dn" "dn \<le> lp"
    using W(2) c ul assms(5) ud assms(6) by (auto simp: word_le_nat_alt word_less_nat_alt unat_eq_zero split: if_splits)
  have inv': "storage_inv (fs_holds w base) m' h K" using assms(2) by (simp add: storage_inv_def W(3))
  have f: "UnknownFilter \<notin> set (wc_Filters (mw_req wt))" "ms_compacted m' \<le> mw_watchDoneRevision wt" "mw_watchDoneRevision wt \<le> lp"
    using assms(4) da by (simp_all add: W)
  obtain rs n where r: "run_rounds n (fs_log w) m' send_all lp wt [] = Some (None, wt \<lparr> mw_watchDoneRevision := lp,
        mw_delivered := (if mw_watchDoneRevision wt = lp then mw_delivered wt else lp) \<rparr>, [] @ rs)"
    and "concat (map wp_Events rs) = events_between wt h a (length h)" "\<forall>resp \<in> set rs. response_ok wt h a (length h) resp"
    using storage_log.run_rounds_deliver[OF fs_storage_log[OF assms(1)] inv' _ f, of "[]"] ul ud by (auto simp: W(5))
  moreover define wt' where "wt' = wt \<lparr> mw_watchDoneRevision := lp, mw_delivered := (if mw_watchDoneRevision wt = lp then mw_delivered wt else lp) \<rparr>"
  ultimately have "run_rounds n (fs_log w) m' send_all lp wt [] = Some (None, wt', rs) \<and> mw_watchDoneRevision wt' = lp
      \<and> concat (map wp_Events rs) = events_between wt h a (length h) \<and> (\<forall>resp \<in> set rs. response_ok wt h a (length h) resp)"
    by simp
  then show ?thesis using W(1) by blast
qed

definition demo_watch :: WatchCreateRequest where
  "demo_watch = \<lparr> wc_Key = Some [5], wc_RangeEnd = None, wc_StartRevision = 2, wc_Filters = [NODELETE], wc_PrevKv = False, wc_WatchId = 1 \<rparr>"


lemma demo_watch_created:
  "\<exists>wt m'. Watch (fs_log std_wire) demo_storage3 demo_watch = (Inr (wt, 3), m') \<and> mw_req wt = demo_watch \<and> mw_rangeType wt = RangeTypeKey"
proof -
  have "fs_holds std_wire 0 (ms_log demo_storage3) [first_record, put_5, delete_5] {1, 2, 3}" using demo_inv3(1) by (simp add: storage_inv_def)
  from fs.current[OF this] show ?thesis
    by (simp add: Watch_def demo_watch_def demo_inv3 range_type_def Let_def the_bytes_def)
qed

theorem watch_delivers_witness:
  "\<exists>wt m' n rs wt'. Watch (fs_log std_wire) demo_storage3 demo_watch = (Inr (wt, 3), m')
     \<and> run_rounds n (fs_log std_wire) m' send_all 3 wt [] = Some (None, wt', rs)
     \<and> concat (map wp_Events rs) = [\<lparr> ev_type = PUT, ev_kv = demo_kv, ev_prevKv = None \<rparr>]"
proof -
  obtain wt m' where w: "Watch (fs_log std_wire) demo_storage3 demo_watch = (Inr (wt, 3), m')" "mw_req wt = demo_watch" "mw_rangeType wt = RangeTypeKey"
    using demo_watch_created by blast
  have "wanted wt ev \<longleftrightarrow> kv_key (ev_kv ev) = [5] \<and> ev_type ev \<noteq> DELETE" for ev
    by (auto simp: wanted_def w(2,3) in_range_def demo_watch_def the_bytes_def IsInternalKey_def InternalPrefix_def)
  then have "events_between wt [first_record, put_5, delete_5] 1 3 = [\<lparr> ev_type = PUT, ev_kv = demo_kv, ev_prevKv = None \<rparr>]"
    by (simp add: events_between_def records_between_def visible_def w(2) demo_watch_def put_5_def delete_5_def demo_kv_def)
  moreover have "(1 :: nat) = (if wc_StartRevision demo_watch = 0 then length [first_record, put_5, delete_5] else unat (wc_StartRevision demo_watch) - 1)"
    by (simp add: demo_watch_def)
  moreover have "length [first_record, put_5, delete_5] = 3" "UnknownFilter \<notin> set (wc_Filters demo_watch)"
    "unat (wc_StartRevision demo_watch) \<le> Suc (length [first_record, put_5, delete_5])" by (simp_all add: demo_watch_def)
  ultimately show ?thesis
    using watch_delivers[OF std.proto_codec_axioms demo_inv3(1) w(1), of 1] w(1) by metis
qed

end
