(* ===== verification/Lease_Spec.thy ===== *)
theory Lease_Spec
  imports Lease_Manager
begin

text \<open>
  What the lease table promises: the records of leases can be read back, the table is well formed, and it accounts
  for every key that has a lease, in all orders in which events, requests, expiry and deletion can come.
\<close>

subsection \<open>The records of leases\<close>

lemma string_of_bytes_of: "string_of (bytes_of s) = s"
proof -
  have "unat (of_char c :: byte) = of_char c" for c :: char
  proof -
    have e: "of_nat (of_char c) = (of_char c :: byte)" by (cases c) simp
    have "unat (of_nat (of_char c) :: byte) = of_char c" by (simp add: unat_of_nat take_bit_eq_mod)
    then show ?thesis unfolding e .
  qed
  then show ?thesis by (simp add: string_of_def bytes_of_def comp_def)
qed

lemma parseLeaseKey_leaseKey: "parseLeaseKey (leaseKey ident) = Some ident"
  by (simp add: parseLeaseKey_def leaseKey_def string_of_bytes_of ParseUint16_hex16)

lemma digit_val_digit: "d < 10 \<Longrightarrow> digit_val (char_of (48 + d :: nat)) = Some d"
  by (simp add: digit_val_def)

lemma parse_decimal: "n < 10 ^ fuel \<Longrightarrow> foldl parse_digit (Some 0) (decimal_digits fuel n) = Some n"
proof (induction fuel arbitrary: n)
  case (Suc fuel)
  show ?case
  proof (cases "n < 10")
    case True
    then show ?thesis by (simp add: parse_digit_def digit_val_digit)
  next
    case False
    have "n div 10 < 10 ^ fuel" using Suc.prems by (simp add: less_mult_imp_div_less)
    then show ?thesis using False Suc.IH[of "n div 10"] digit_val_digit[of "n mod 10"] by (simp add: parse_digit_def)
  qed
qed simp

lemma decimal_hd: "0 < n \<Longrightarrow> n < 10 ^ fuel \<Longrightarrow> \<exists>d. 0 < d \<and> d < 10 \<and> decimal_digits fuel n \<noteq> [] \<and> hd (decimal_digits fuel n) = char_of (48 + d :: nat)"
proof (induction fuel arbitrary: n)
  case (Suc fuel)
  show ?case
  proof (cases "n < 10")
    case False
    have "n div 10 < 10 ^ fuel" "0 < n div 10" using Suc.prems False by (simp_all add: less_mult_imp_div_less div_greater_zero_iff)
    then show ?thesis using False Suc.IH[of "n div 10"] by auto
  qed (use Suc.prems in auto)
qed simp

lemma decimal_0: "decimal_digits 20 0 = ''0''"
proof -
  have "char_of (48 :: nat) = CHR ''0''" by code_simp
  then show ?thesis using decimal_digits.simps(2)[of 19 0] by simp
qed

lemma parse_nat_decimal: "n < 10 ^ 20 \<Longrightarrow> parse_nat (decimal_digits 20 n) = Some n"
proof (cases "n = 0")
  case True
  then show ?thesis by (simp add: decimal_0 parse_nat_def parse_digit_def digit_val_def)
next
  case False
  assume n: "n < 10 ^ 20"
  obtain d where d: "0 < d" "d < 10" "decimal_digits 20 n \<noteq> []" "hd (decimal_digits 20 n) = char_of (48 + d :: nat)" using decimal_hd[OF _ n] False by blast
  then have "digit_val (hd (decimal_digits 20 n)) = Some d" using digit_val_digit by simp
  then have "hd (decimal_digits 20 n) \<noteq> CHR ''0''" using d(1) by (auto simp: digit_val_def)
  then show ?thesis using d(3) parse_decimal[OF n] by (simp add: parse_nat_def)
qed

lemma parse_int_decimal: "parse_int (decimal v) = Some v"
proof (cases "sint v < 0")
  case True
  have b: "nat (- sint v) \<le> 2 ^ 63" using sint_greater_eq[of v] by simp
  then have "nat (- sint v) < 10 ^ 20" by simp
  then show ?thesis using True b by (simp add: parse_int_def decimal_def parse_nat_decimal)
next
  case False
  have b: "nat (sint v) < 2 ^ 63" using sint_less[of v] by simp
  then have n: "nat (sint v) < 10 ^ 20" by simp
  have "decimal_digits 20 (nat (sint v)) \<noteq> [] \<longrightarrow> hd (decimal_digits 20 (nat (sint v))) \<noteq> CHR ''-''"
  proof (cases "nat (sint v) = 0")
    case True
    then show ?thesis by (simp add: decimal_0)
  next
    case nz: False
    obtain d where "d < 10" "hd (decimal_digits 20 (nat (sint v))) = char_of (48 + d :: nat)" using decimal_hd[OF _ n] nz by blast
    then have "digit_val (hd (decimal_digits 20 (nat (sint v)))) = Some d" using digit_val_digit by simp
    then show ?thesis by (auto simp: digit_val_def)
  qed
  then show ?thesis using False b parse_nat_decimal[OF n] by (auto simp: parse_int_def decimal_def)
qed

lemma unmarshal_marshal: "unmarshal_leaseValue (marshal_leaseValue v) = Inr v"
  by (simp add: unmarshal_leaseValue_def marshal_leaseValue_def string_of_bytes_of parse_int_decimal butlast_append)

lemma leaseKey_internal: "IsInternalKey (leaseKey ident)"
  by (simp add: IsInternalKey_prefix leaseKey_def leaseKeyPrefix_def)

subsection \<open>Keys and their leases\<close>

text \<open>
  The lease table together with what it keeps track of: \<^verbatim>\<open>own k\<close> is the lease of the current pair of the key \<^verbatim>\<open>k\<close> (0 for
  none), and \<^verbatim>\<open>fl\<close> are the leases whose keys are being deleted.  A step is an event of the log, whose previous pair
  is the current one; a request; a tick of the expiry; or a turn of the deletion queue.  A lease is done with when none of its keys is its own
  any more, and otherwise queued again.
\<close>

type_synonym lease_state = "LeaseManager \<times> (key \<Rightarrow> int64) \<times> Lease list"

definition old_lease :: "Event \<Rightarrow> int64" where
  "old_lease ev = (case ev_prevKv ev of None \<Rightarrow> 0 | Some kv \<Rightarrow> kv_lease kv)"

definition own_event :: "(key \<Rightarrow> int64) \<Rightarrow> Event \<Rightarrow> (key \<Rightarrow> int64)" where
  "own_event own ev = (if parseLeaseKey (kv_key (ev_kv ev)) = None then own(kv_key (ev_kv ev) := kv_lease (ev_kv ev)) else own)"

inductive lease_step :: "lease_state \<Rightarrow> lease_state \<Rightarrow> bool" where
  event: "OnLogEvent now lm ev = Inr lm' \<Longrightarrow> old_lease ev = own (kv_key (ev_kv ev)) \<Longrightarrow> lease_step (lm, own, fl) (lm', own_event own ev, fl)"
| keep_alive: "lease_step (lm, own, fl) (snd (LeaseKeepAlive now lm ident), own, fl)"
| expire: "lease_step (lm, own, fl) (mark_expiring (expired_leases now lm) lm, own, fl)"
| expire_failed: "lease_step (lm, own, fl) (lm \<lparr> lm_expiring := AList.delete ident (lm_expiring lm) \<rparr>, own, fl)"
| expire_unrecorded: "lease_step (lm, own, fl) (retire lm ident, own, fl)"
| take_lease: "queue_Wait (lm_deleteQueue lm) = Some (Some l, q) \<Longrightarrow> lease_step (lm, own, fl) (lm \<lparr> lm_deleteQueue := q \<rparr>, own, l # fl)"
| deleted: "l \<in> set fl \<Longrightarrow> \<forall>k \<in> set (ls_keys l). own k \<noteq> ls_ID l \<Longrightarrow> lease_step (lm, own, fl) (lm, own, remove1 l fl)"
| again: "l \<in> set fl \<Longrightarrow> lease_step (lm, own, fl) (lm \<lparr> lm_deleteQueue := queue_Push (lm_deleteQueue lm) l \<rparr>, own, remove1 l fl)"
| stop: "lease_step (lm, own, fl) (lm \<lparr> lm_deleteQueue := queue_Close (lm_deleteQueue lm) \<rparr>, own, fl)"

inductive lease_run :: "lease_state \<Rightarrow> bool" where
  start: "lease_run (NewLeaseManager, (\<lambda>k. 0), [])"
| step: "lease_run s \<Longrightarrow> lease_step s s' \<Longrightarrow> lease_run s'"

text \<open>The table is well formed.\<close>

definition lease_inv :: "LeaseManager \<Rightarrow> bool" where
  "lease_inv lm \<longleftrightarrow> distinct (map fst (lm_leases lm)) \<and> (\<forall>ident l. map_of (lm_leases lm) ident = Some l \<longrightarrow> ls_ID l = ident)
     \<and> distinct (map fst (lm_expiring lm)) \<and> queue_inv (lm_deleteQueue lm) \<and> (\<forall>l \<in> set (queue_list (lm_deleteQueue lm)). ls_keys l \<noteq> [])"

definition lease_keys :: "LeaseManager \<Rightarrow> int64 \<Rightarrow> key list" where
  "lease_keys lm ident = (case map_of (lm_leases lm) ident of None \<Rightarrow> [] | Some l \<Rightarrow> ls_keys l)"

text \<open>The leases whose keys are queued for deletion, or being deleted.\<close>

abbreviation retired :: "LeaseManager \<Rightarrow> Lease list \<Rightarrow> Lease set" where
  "retired lm fl \<equiv> set (queue_list (lm_deleteQueue lm)) \<union> set fl"

definition accounted :: "LeaseManager \<Rightarrow> (key \<Rightarrow> int64) \<Rightarrow> Lease list \<Rightarrow> bool" where
  "accounted lm own fl \<longleftrightarrow>
     (\<forall>ident. distinct (lease_keys lm ident) \<and> (\<forall>k \<in> set (lease_keys lm ident). own k = ident \<and> ident \<noteq> 0))
   \<and> (\<forall>k. own k \<noteq> 0 \<longrightarrow> k \<in> set (lease_keys lm (own k)) \<or> (\<exists>l \<in> retired lm fl. ls_ID l = own k \<and> k \<in> set (ls_keys l)))"


lemma lease_keys_simps [simp]:
  "lease_keys (lm \<lparr> lm_leases := AList.update ident l (lm_leases lm) \<rparr>) j = (if j = ident then ls_keys l else lease_keys lm j)"
  "lease_keys (lm \<lparr> lm_leases := AList.delete ident (lm_leases lm) \<rparr>) j = (if j = ident then [] else lease_keys lm j)"
  "lease_keys (lm \<lparr> lm_expiring := ex \<rparr>) j = lease_keys lm j" "lease_keys (lm \<lparr> lm_deleteQueue := q \<rparr>) j = lease_keys lm j"
  by (simp_all add: lease_keys_def update_conv' delete_conv')

lemma lease_inv_put: "lease_inv lm \<Longrightarrow> ls_ID l = ident \<Longrightarrow> lease_inv (lm \<lparr> lm_leases := AList.update ident l (lm_leases lm) \<rparr>)"
  by (simp add: lease_inv_def update_conv' distinct_update)

lemma lease_inv_drop: "lease_inv lm \<Longrightarrow> lease_inv (lm \<lparr> lm_leases := AList.delete ident (lm_leases lm) \<rparr>)"
  by (simp add: lease_inv_def delete_conv' distinct_delete)

lemma lease_inv_push: "lease_inv lm \<Longrightarrow> ls_keys l \<noteq> [] \<Longrightarrow> lease_inv (lm \<lparr> lm_deleteQueue := queue_Push (lm_deleteQueue lm) l \<rparr>)"
  by (auto simp: lease_inv_def lq.push_inv lq.push_items)

lemma lease_inv_unmark: "lease_inv lm \<Longrightarrow> lease_inv (lm \<lparr> lm_expiring := AList.delete ident (lm_expiring lm) \<rparr>)"
  by (simp add: lease_inv_def distinct_delete)

lemma lease_inv_mark: "lease_inv lm \<Longrightarrow> lease_inv (mark_expiring idents lm)"
proof -
  have "distinct (map fst ex) \<Longrightarrow> distinct (map fst (foldl (\<lambda>ex ident. AList.update ident True ex) ex idents))" for ex :: "(int64 \<times> bool) list"
    by (induction idents arbitrary: ex) (simp_all add: distinct_update)
  then show "lease_inv lm \<Longrightarrow> ?thesis" by (simp add: lease_inv_def mark_expiring_def)
qed

lemma lease_inv_id: "lease_inv lm \<Longrightarrow> map_of (lm_leases lm) ident = Some l \<Longrightarrow> ls_ID l = ident"
  by (simp add: lease_inv_def)

lemmas lease_invs = lease_inv_put lease_inv_drop lease_inv_push lease_inv_unmark lease_inv_mark

lemma lease_inv_retire:
  assumes "lease_inv lm"
  shows "lease_inv (retire lm ident)"
proof -
  let ?lm = "lm \<lparr> lm_leases := AList.delete ident (lm_leases lm), lm_expiring := AList.delete ident (lm_expiring lm) \<rparr>"
  have "lease_inv ?lm" using lease_inv_unmark[OF lease_inv_drop[OF assms], of ident ident] by simp
  then show ?thesis using assms lease_inv_push[of ?lm] by (auto simp: retire_def split: option.split)
qed

lemma lease_inv_attach: "lease_inv lm \<Longrightarrow> lease_inv (attach_key now lm ident k)"
  using lease_inv_id by (auto simp: attach_key_def Let_def intro!: lease_inv_put split: option.split)

lemma lease_inv_detach: "lease_inv lm \<Longrightarrow> lease_inv (detach_key lm ident k)"
  using lease_inv_id lease_inv_put[of lm _ ident] lease_inv_drop[of lm ident] by (auto simp: detach_key_def Let_def split: option.split)

lemma lease_inv_event: "lease_inv lm \<Longrightarrow> OnLogEvent now lm ev = Inr lm' \<Longrightarrow> lease_inv lm'"
  using lease_inv_id
  by (auto simp: OnLogEvent_def onLeaseRecord_def Let_def lease_inv_retire lease_inv_attach lease_inv_detach
      intro!: lease_inv_put split: option.splits sum.splits EventType.splits if_splits)

lemma lease_inv_keep_alive: "lease_inv lm \<Longrightarrow> lease_inv (snd (LeaseKeepAlive now lm ident))"
  using lease_inv_id by (auto simp: LeaseKeepAlive_def intro!: lease_inv_put split: option.split)

lemma queue_list_Close [simp]: "queue_list (queue_Close q) = queue_list q" "queue_inv (queue_Close q) = queue_inv q"
  by (simp_all add: queue_list_def queue_inv_def addresses_def queue_Close_def)

lemma queue_Wait_Some:
  assumes "queue_inv q" and "queue_Wait q = Some (Some l, q')"
  shows "queue_list q = l # queue_list q'" and "queue_inv q'"
proof -
  have p: "queue_Pop q = (Some l, q')" using assms(2) by (simp add: queue_Wait_def split: if_splits)
  show "queue_inv q'" using lq.pop_inv[OF assms(1)] p by simp
  show "queue_list q = l # queue_list q'" using lq.pop_items[OF assms(1)] p by (cases "queue_list q") auto
qed


lemma accounted_cong:
  assumes "accounted lm own fl" and "\<And>j. lease_keys lm' j = lease_keys lm j" and "retired lm fl \<subseteq> retired lm' fl'"
  shows "accounted lm' own fl'"
  using assms(1,3) unfolding accounted_def assms(2) by blast

lemma accounted_retire:
  assumes inv: "lease_inv lm" and ac: "accounted lm own fl"
  shows "accounted (retire lm ident) own fl"
proof (cases "map_of (lm_leases lm) ident")
  case (Some l)
  have k: "lease_keys (retire lm ident) j = (if j = ident then [] else lease_keys lm j)" for j
    using Some by (simp add: retire_def lease_keys_def delete_conv')
  have q: "set (queue_list (lm_deleteQueue (retire lm ident))) = (if ls_keys l = [] then {} else {l}) \<union> set (queue_list (lm_deleteQueue lm))"
    using Some inv lq.push_items[of "lm_deleteQueue lm" l] by (auto simp: retire_def lease_inv_def)
  have l: "lease_keys lm ident = ls_keys l" "ls_ID l = ident" using Some lease_inv_id[OF inv Some] by (simp_all add: lease_keys_def)
  have "k' \<in> set (lease_keys (retire lm ident) (own k')) \<or> (\<exists>x \<in> retired (retire lm ident) fl. ls_ID x = own k' \<and> k' \<in> set (ls_keys x))"
    if "own k' \<noteq> 0" for k'
  proof -
    have "k' \<in> set (lease_keys lm (own k')) \<or> (\<exists>x \<in> retired lm fl. ls_ID x = own k' \<and> k' \<in> set (ls_keys x))"
      using ac that unfolding accounted_def by blast
    then show ?thesis using l by (auto simp: k q)
  qed
  then show ?thesis using ac unfolding accounted_def by (simp add: k)
qed (use ac in \<open>simp add: retire_def\<close>)

lemma lease_keys_attach: "lease_keys (attach_key now lm ident k) j = (if j = ident then lease_keys lm ident @ [k] else lease_keys lm j)"
  by (simp add: attach_key_def lease_keys_def update_conv' Let_def split: option.split)

lemma lease_keys_detach: "lease_keys (detach_key lm ident k) j = (if j = ident then remove1 k (lease_keys lm ident) else lease_keys lm j)"
  by (auto simp: detach_key_def lease_keys_def update_conv' delete_conv' Let_def split: option.split)

lemma deleteQueue_keep [simp]:
  "lm_deleteQueue (attach_key now lm ident k) = lm_deleteQueue lm" "lm_deleteQueue (detach_key lm ident k) = lm_deleteQueue lm"
  by (simp_all add: attach_key_def detach_key_def Let_def split: option.split)

lemma accounted_move:
  assumes ac: "accounted lm own fl" and ne: "new \<noteq> own k"
    and keys: "\<And>j. lease_keys lm' j = (if j = new \<and> new \<noteq> 0 then lease_keys lm j @ [k] else if j = own k \<and> own k \<noteq> 0 then remove1 k (lease_keys lm j) else lease_keys lm j)"
    and q: "lm_deleteQueue lm' = lm_deleteQueue lm"
  shows "accounted lm' (own(k := new)) fl"
proof -
  have d: "distinct (lease_keys lm j)" "k' \<in> set (lease_keys lm j) \<Longrightarrow> own k' = j \<and> j \<noteq> 0" for j k' using ac by (auto simp: accounted_def)
  have "distinct (lease_keys lm' j) \<and> (\<forall>k' \<in> set (lease_keys lm' j). (own(k := new)) k' = j \<and> j \<noteq> 0)" for j
    using d(1)[of j] d(2)[of _ j] ne by (auto simp: keys)
  moreover have "k' \<in> set (lease_keys lm' ((own(k := new)) k')) \<or> (\<exists>x \<in> retired lm' fl. ls_ID x = (own(k := new)) k' \<and> k' \<in> set (ls_keys x))"
    if nz: "(own(k := new)) k' \<noteq> 0" for k'
  proof (cases "k' = k")
    case False
    then have "k' \<in> set (lease_keys lm (own k')) \<or> (\<exists>x \<in> retired lm fl. ls_ID x = own k' \<and> k' \<in> set (ls_keys x))"
      using ac nz unfolding accounted_def by simp
    then show ?thesis using False by (auto simp: keys q)
  qed (use nz in \<open>simp add: keys\<close>)
  ultimately show ?thesis unfolding accounted_def by blast
qed

lemma accounted_event:
  assumes inv: "lease_inv lm" and ac: "accounted lm own fl" and ev: "OnLogEvent now lm ev = Inr lm'" "old_lease ev = own (kv_key (ev_kv ev))"
  shows "accounted lm' (own_event own ev) fl"
proof (cases "parseLeaseKey (kv_key (ev_kv ev))")
  case (Some ident)
  then have r: "onLeaseRecord now lm ident ev = Inr lm'" "own_event own ev = own" using ev(1) by (simp_all add: OnLogEvent_def own_event_def)
  show ?thesis
  proof (cases "ev_type ev = DELETE")
    case True
    then show ?thesis using r accounted_retire[OF inv ac] by (auto simp: onLeaseRecord_def)
  next
    case False
    then have "lease_keys lm' j = lease_keys lm j" "lm_deleteQueue lm' = lm_deleteQueue lm" for j
      using r(1) by (auto simp: onLeaseRecord_def Let_def lease_keys_def update_conv' split: EventType.splits sum.splits option.splits if_splits)
    then show ?thesis unfolding r(2) by (intro accounted_cong[OF ac]) auto
  qed
next
  case None
  let ?k = "kv_key (ev_kv ev)" and ?new = "kv_lease (ev_kv ev)"
  have own: "own_event own ev = own(?k := ?new)" using None by (simp add: own_event_def)
  show ?thesis
  proof (cases "?new = own ?k")
    case True
    then have "lm' = lm" using ev None by (auto simp: OnLogEvent_def old_lease_def Let_def split: if_splits option.splits)
    then show ?thesis using ac True by (simp add: own fun_upd_idem)
  next
    case False
    show ?thesis unfolding own
      by (rule accounted_move[OF ac False])
        (use ev None False in \<open>auto simp: OnLogEvent_def old_lease_def[symmetric] Let_def lease_keys_attach lease_keys_detach split: if_splits\<close>)
  qed
qed


lemma lease_run_inv:
  "lease_run s \<Longrightarrow> case s of (lm, own, fl) \<Rightarrow> lease_inv lm \<and> accounted lm own fl \<and> (\<forall>l \<in> set fl. ls_keys l \<noteq> [])"
proof (induction rule: lease_run.induct)
  case start
  have "lease_inv NewLeaseManager" by (simp add: lease_inv_def NewLeaseManager_def lq.empty_inv lq.empty_items)
  then show ?case by (simp add: accounted_def lease_keys_def NewLeaseManager_def)
next
  case (step s s')
  obtain lm own fl where s: "s = (lm, own, fl)" by (cases s)
  have i: "lease_inv lm" "accounted lm own fl" "\<forall>l \<in> set fl. ls_keys l \<noteq> []" and st: "lease_step (lm, own, fl) s'" using step s by auto
  have q: "queue_inv (lm_deleteQueue lm)" using i(1) by (simp add: lease_inv_def)
  have sub: "set (remove1 l fl) \<subseteq> set fl" for l by (rule set_remove1_subset)
  from st show ?case
  proof cases
    case (event now ev lm')
    then show ?thesis using lease_inv_event[OF i(1)] accounted_event[OF i(1,2)] i(3) by simp
  next
    case (keep_alive now ident)
    have "lease_keys (snd (LeaseKeepAlive now lm ident)) j = lease_keys lm j" for j
      by (auto simp: LeaseKeepAlive_def lease_keys_def update_conv' split: option.splits if_splits)
    moreover have "lm_deleteQueue (snd (LeaseKeepAlive now lm ident)) = lm_deleteQueue lm" by (simp add: LeaseKeepAlive_def split: option.split)
    ultimately show ?thesis using keep_alive i lease_inv_keep_alive[OF i(1)] accounted_cong[OF i(2), of "snd (LeaseKeepAlive now lm ident)" fl] by simp
  next
    case (expire now)
    then show ?thesis using i lease_inv_mark[OF i(1)] accounted_cong[OF i(2), of "mark_expiring (expired_leases now lm) lm" fl] by (simp add: mark_expiring_def)
  next
    case (expire_failed ident)
    then show ?thesis using i lease_inv_unmark[OF i(1)] accounted_cong[OF i(2), of "lm \<lparr> lm_expiring := AList.delete ident (lm_expiring lm) \<rparr>" fl] by simp
  next
    case (expire_unrecorded ident)
    then show ?thesis using i(3) lease_inv_retire[OF i(1)] accounted_retire[OF i(1,2)] by simp
  next
    case (take_lease l q')
    note w = queue_Wait_Some[OF q take_lease(2)]
    have "lease_inv (lm \<lparr> lm_deleteQueue := q' \<rparr>)" "ls_keys l \<noteq> []" using i(1) w by (auto simp: lease_inv_def)
    moreover have "accounted (lm \<lparr> lm_deleteQueue := q' \<rparr>) own (l # fl)" by (rule accounted_cong[OF i(2)]) (auto simp: w(1))
    ultimately show ?thesis using take_lease(1) i(3) by simp
  next
    case (deleted l)
    have "\<exists>x \<in> retired lm (remove1 l fl). ls_ID x = own k \<and> k \<in> set (ls_keys x)" if "x \<in> retired lm fl" "ls_ID x = own k" "k \<in> set (ls_keys x)" for x k
      using that deleted(3) by (metis Un_iff in_set_remove1)
    then have "accounted lm own (remove1 l fl)" using i(2) unfolding accounted_def by blast
    then show ?thesis using deleted(1) i(1,3) sub by auto
  next
    case (again l)
    have k: "ls_keys l \<noteq> []" using again(2) i(3) by blast
    have "accounted (lm \<lparr> lm_deleteQueue := queue_Push (lm_deleteQueue lm) l \<rparr>) own (remove1 l fl)"
    proof (rule accounted_cong[OF i(2)])
      show "retired lm fl \<subseteq> retired (lm \<lparr> lm_deleteQueue := queue_Push (lm_deleteQueue lm) l \<rparr>) (remove1 l fl)"
        using lq.push_items[OF q, of l] by (auto simp: in_set_remove1)
    qed simp
    then show ?thesis using again(1) i(3) sub lease_inv_push[OF i(1) k] by auto
  next
    case stop
    have "lease_inv (lm \<lparr> lm_deleteQueue := queue_Close (lm_deleteQueue lm) \<rparr>)" using i(1) by (simp add: lease_inv_def)
    moreover have "accounted (lm \<lparr> lm_deleteQueue := queue_Close (lm_deleteQueue lm) \<rparr>) own fl" by (rule accounted_cong[OF i(2)]) simp_all
    ultimately show ?thesis using stop i(3) by simp
  qed
qed


subsection \<open>Properties\<close>

text \<open>C32: The lease table stays well formed in every run: a lease's number is the one it is found under and is there once, so listing the leases
  lists the numbers of the table; the deletion queue's pointers form a list, and it holds only leases that have keys.\<close>

theorem lease_table_typed:
  assumes "lease_run (lm, own, fl)"
  shows "distinct (map fst (lm_leases lm)) \<and> (\<forall>(ident, l) \<in> set (lm_leases lm). ls_ID l = ident) \<and> ListLeases lm = map fst (lm_leases lm)
    \<and> queue_inv (lm_deleteQueue lm) \<and> (\<forall>l \<in> set (queue_list (lm_deleteQueue lm)). ls_keys l \<noteq> [])"
proof -
  have inv: "lease_inv lm" using lease_run_inv[OF assms] by simp
  then have "\<forall>(ident, l) \<in> set (lm_leases lm). ls_ID l = ident" by (auto simp: lease_inv_def)
  moreover from this have "ListLeases lm = map fst (lm_leases lm)" unfolding ListLeases_def by (intro map_cong) auto
  ultimately show ?thesis using inv by (simp add: lease_inv_def)
qed

text \<open>A run: the lease 7 is granted for a minute, the key \<^verbatim>\<open>[1]\<close> is put with it, and the lease is revoked.\<close>

definition grant_event :: "int64 \<Rightarrow> int64 \<Rightarrow> Event" where
  "grant_event ident ttl = \<lparr> ev_type = PUT, ev_kv = \<lparr> kv_key = leaseKey ident, kv_createRevision = 1, kv_modRevision = 1, kv_version = 1,
     kv_value = marshal_leaseValue ttl, kv_lease = 0 \<rparr>, ev_prevKv = None \<rparr>"

definition revoke_event :: "int64 \<Rightarrow> Event" where
  "revoke_event ident = \<lparr> ev_type = DELETE, ev_kv = \<lparr> kv_key = leaseKey ident, kv_createRevision = 0, kv_modRevision = 3, kv_version = 0,
     kv_value = [], kv_lease = 0 \<rparr>, ev_prevKv = None \<rparr>"

definition leased_put :: "key \<Rightarrow> int64 \<Rightarrow> Event" where
  "leased_put k ident = \<lparr> ev_type = PUT, ev_kv = \<lparr> kv_key = k, kv_createRevision = 2, kv_modRevision = 2, kv_version = 1, kv_value = [], kv_lease = ident \<rparr>,
     ev_prevKv = None \<rparr>"

abbreviation demo_lease :: Lease where
  "demo_lease \<equiv> \<lparr> ls_keys = [[1]], ls_ID = 7, ls_TTL = 60, ls_Expiration = 60000000000 \<rparr>"

lemma parseLeaseKey_1 [simp]: "parseLeaseKey [1] = None"
  by (simp add: parseLeaseKey_def leaseKeyPrefix_def InternalPrefix_def)

lemma OnLogEvent_grant:
  "OnLogEvent now lm (grant_event ident ttl) = Inr (lm \<lparr> lm_leases := AList.update ident
     ((case map_of (lm_leases lm) ident of Some l \<Rightarrow> l | None \<Rightarrow> \<lparr> ls_keys = [], ls_ID = ident, ls_TTL = 0, ls_Expiration = 0 \<rparr>)
        \<lparr> ls_TTL := ttl, ls_Expiration := expiration now ttl \<rparr>) (lm_leases lm) \<rparr>)"
  by (simp add: OnLogEvent_def grant_event_def parseLeaseKey_leaseKey onLeaseRecord_def unmarshal_marshal)

lemma OnLogEvent_revoke: "OnLogEvent now lm (revoke_event ident) = Inr (retire lm ident)"
  by (simp add: OnLogEvent_def revoke_event_def parseLeaseKey_leaseKey onLeaseRecord_def)

lemma demo_lease_run:
  "lease_run (NewLeaseManager \<lparr> lm_leases := [(7, demo_lease)] \<rparr>, (\<lambda>k. 0)([1] := 7), [])"
  "lease_run (NewLeaseManager \<lparr> lm_deleteQueue := queue_Push newQueue demo_lease \<rparr>, (\<lambda>k. 0)([1] := 7), [])"
proof -
  let ?l = "demo_lease \<lparr> ls_keys := [] \<rparr>"
  have 1: "lease_run (NewLeaseManager \<lparr> lm_leases := [(7, ?l)] \<rparr>, (\<lambda>k. 0), [])"
    using lease_run.step[OF lease_run.start lease_step.event[OF OnLogEvent_grant[of 0 NewLeaseManager 7 60]]]
    by (simp add: old_lease_def own_event_def grant_event_def parseLeaseKey_leaseKey expiration_def NewLeaseManager_def)
  have "OnLogEvent 0 (NewLeaseManager \<lparr> lm_leases := [(7, ?l)] \<rparr>) (leased_put [1] 7) = Inr (NewLeaseManager \<lparr> lm_leases := [(7, demo_lease)] \<rparr>)"
    by (simp add: OnLogEvent_def leased_put_def attach_key_def)
  from lease_run.step[OF 1 lease_step.event[OF this]]
  show 2: "lease_run (NewLeaseManager \<lparr> lm_leases := [(7, demo_lease)] \<rparr>, (\<lambda>k. 0)([1] := 7), [])"
    by (simp add: old_lease_def own_event_def leased_put_def)
  from lease_run.step[OF 2 lease_step.event[OF OnLogEvent_revoke[of 0 _ 7]]]
  show "lease_run (NewLeaseManager \<lparr> lm_deleteQueue := queue_Push newQueue demo_lease \<rparr>, (\<lambda>k. 0)([1] := 7), [])"
  proof -
    have "leaseKey 7 \<noteq> [1]" using parseLeaseKey_leaseKey[of 7] by auto
    then show ?thesis using lease_run.step[OF 2 lease_step.event[OF OnLogEvent_revoke[of 0 _ 7]]]
      by (simp add: old_lease_def own_event_def revoke_event_def parseLeaseKey_leaseKey retire_def NewLeaseManager_def)
  qed
qed

theorem lease_table_typed_witness:
  "queue_inv (queue_Push newQueue demo_lease) \<and> ListLeases (NewLeaseManager \<lparr> lm_leases := [(7, demo_lease)] \<rparr>) = [7]"
  using lease_table_typed[OF demo_lease_run(1)] lease_table_typed[OF demo_lease_run(2)] by (simp add: NewLeaseManager_def)



text \<open>C34: A lease's record says what was granted: the number is read back from its key, which no client can see or write, and the time to live
  from its value, for every 64-bit number.\<close>

theorem lease_record_roundtrip:
  "parseLeaseKey (leaseKey ident) = Some ident \<and> unmarshal_leaseValue (marshal_leaseValue ttl) = Inr ttl \<and> IsInternalKey (leaseKey ident)"
  by (simp add: parseLeaseKey_leaseKey unmarshal_marshal leaseKey_internal)

text \<open>C36: A lease's expiry is its time to live after now for times to live up to 9223372036 seconds; the next number wraps around, and
  the lease has expired almost three hundred years before it is granted.\<close>

theorem lease_ttl_bound:
  assumes "- 9223372036 \<le> sint ttl" and "sint ttl \<le> 9223372036"
  shows "expiration now ttl = now + sint ttl * 1000000000 \<and> expiration now 9223372037 < now - 290 * 365 * 24 * 3600 * 1000000000"
proof -
  have "sint (ttl * 1000000000) = sint ttl * 1000000000"
  proof -
    have "sint (ttl * 1000000000) = signed_take_bit 63 (sint ttl * sint (1000000000 :: int64))" by (simp add: sint_word_ariths)
    then show ?thesis using assms by (simp add: signed_take_bit_int_eq_self)
  qed
  then show ?thesis by (simp add: expiration_def)
qed


theorem lease_ttl_bound_witness: "expiration 5 60 = 60000000005"
  using lease_ttl_bound[of 60 5] by simp

text \<open>C35: A lease goes with its last key.  When the last key of a lease is deleted, the lease is dropped from the table, whatever its
  expiry: its owner's next keep-alive is answered that there is no such lease, and so is a put that uses it, although it was neither
  revoked nor has it expired.\<close>

theorem lease_lost_with_last_key:
  assumes "map_of (lm_leases lm) ident = Some l" and "ls_keys l = [k]" and "ident \<noteq> 0" and "parseLeaseKey k = None"
    and "ev_type ev = DELETE" and "kv_key (ev_kv ev) = k" and "kv_lease (ev_kv ev) = 0" and "ev_prevKv ev = Some kv" and "kv_lease kv = ident"
  shows "\<exists>lm'. OnLogEvent now lm ev = Inr lm' \<and> \<not> HasLease lm' ident \<and> fst (LeaseKeepAlive now lm' ident) = Inl ErrLeaseNotFound
    \<and> LeaseTimeToLive now lm' ident keys = \<lparr> lt_ID = ident, lt_TTL = - 1, lt_GrantedTTL = 0, lt_Keys = [] \<rparr>"
  using assms by (simp add: OnLogEvent_def detach_key_def HasLease_def LeaseKeepAlive_def LeaseTimeToLive_def delete_conv')

theorem lease_lost_with_last_key_witness:
  "\<exists>lm'. OnLogEvent 5 (NewLeaseManager \<lparr> lm_leases := [(7, demo_lease)] \<rparr>)
     \<lparr> ev_type = DELETE, ev_kv = \<lparr> kv_key = [1], kv_createRevision = 0, kv_modRevision = 3, kv_version = 0, kv_value = [], kv_lease = 0 \<rparr>,
       ev_prevKv = Some (ev_kv (leased_put [1] 7)) \<rparr> = Inr lm' \<and> \<not> HasLease lm' 7"
  using lease_lost_with_last_key[of "NewLeaseManager \<lparr> lm_leases := [(7, demo_lease)] \<rparr>" 7 demo_lease "[1]"
    "\<lparr> ev_type = DELETE, ev_kv = \<lparr> kv_key = [1], kv_createRevision = 0, kv_modRevision = 3, kv_version = 0, kv_value = [], kv_lease = 0 \<rparr>,
       ev_prevKv = Some (ev_kv (leased_put [1] 7)) \<rparr>" "ev_kv (leased_put [1] 7)" 5 False]
  by (auto simp: leased_put_def)

end
