(* ===== verification/Range_Spec.thy ===== *)
theory Range_Spec
  imports Restart
begin

text \<open>
  What \<^verbatim>\<open>List\<close> returns, for the file log: the events of the latest records of the keys in the range, which for records with one
  event each are the keys of the range, and for records with several are not.
\<close>

definition shown :: "RangeRequest \<Rightarrow> KeyValue \<Rightarrow> KeyValue" where
  "shown req kv = (if rr_KeysOnly req then copyWithoutValue kv else kv)"

text \<open>The number of pairs a response may still take when it has \<^verbatim>\<open>c\<close>.\<close>

definition room :: "RangeRequest \<Rightarrow> nat \<Rightarrow> KeyValue list \<Rightarrow> nat" where
  "room req c kvs = (if 0 < sint (rr_Limit req) then nat (sint (rr_Limit req)) - c else length kvs)"

definition list_response :: "RangeRequest \<Rightarrow> ResponseHeader \<Rightarrow> KeyValue list \<Rightarrow> RangeResponse" where
  "list_response req hdr kvs =
     (let out = take (room req 0 kvs) kvs
      in \<lparr> rp_Header = Some hdr, rp_Kvs = (if rr_CountOnly req then [] else map (shown req) out),
           rp_More = (0 < sint (rr_Limit req) \<and> sint (rr_Limit req) \<le> int (length kvs)), rp_Count = of_nat (length out) \<rparr>)"

definition put_kvs :: "Event list \<Rightarrow> KeyValue list" where
  "put_kvs evs = map ev_kv (filter (\<lambda>ev. ev_type ev = PUT) evs)"

lemma put_kvs_simps [simp]:
  "put_kvs [] = []" "put_kvs (ev # evs) = (if ev_type ev = PUT then ev_kv ev # put_kvs evs else put_kvs evs)" "put_kvs (xs @ ys) = put_kvs xs @ put_kvs ys"
  by (simp_all add: put_kvs_def)

lemma sint_of_nat_small: "c < 2 ^ 63 \<Longrightarrow> sint (of_nat c :: int64) = int c"
proof -
  assume c: "c < 2 ^ 63"
  then have "unat (of_nat c :: int64) = c" by (simp add: unat_of_nat take_bit_nat_eq_self)
  then show ?thesis using sint_small[of "of_nat c"] c by simp
qed

lemma list_events_append:
  "list_events req (xs @ ys) resp = (case list_events req xs resp of (resp', go) \<Rightarrow> if go then list_events req ys resp' else (resp', False))"
  by (induction xs arbitrary: resp) (simp_all add: Let_def)

lemma list_events_closed:
  assumes "c + length (put_kvs evs) < 2 ^ 63" and "rp_Count resp = of_nat c" and "0 < sint (rr_Limit req) \<longrightarrow> int c < sint (rr_Limit req)"
  shows "fst (list_events req evs resp) =
    (let out = take (room req c (put_kvs evs)) (put_kvs evs)
     in resp \<lparr> rp_Count := of_nat (c + length out), rp_Kvs := rp_Kvs resp @ (if rr_CountOnly req then [] else map (shown req) out),
               rp_More := (rp_More resp \<or> 0 < sint (rr_Limit req) \<and> sint (rr_Limit req) \<le> int (c + length (put_kvs evs))) \<rparr>)"
  using assms
proof (induction evs arbitrary: c resp)
  case Nil
  then show ?case by (cases resp) (auto simp: not_le)
next
  case (Cons ev evs)
  show ?case
  proof (cases "ev_type ev = PUT")
    case False
    have "\<not> (0 < sint (rr_Limit req) \<and> sint (rr_Limit req) \<le> sint (rp_Count resp))"
      using Cons.prems sint_of_nat_small[of c] by auto
    then have e: "list_events req (ev # evs) resp = list_events req evs resp" using False by (auto simp: Let_def)
    have b: "c + length (put_kvs evs) < 2 ^ 63" using Cons.prems(1) False by simp
    show ?thesis unfolding e using False Cons.IH[OF b Cons.prems(2,3)] by simp
  next
    case True
    define resp' where "resp' = (if rr_CountOnly req then resp \<lparr> rp_Count := rp_Count resp + 1 \<rparr>
                        else resp \<lparr> rp_Count := rp_Count resp + 1, rp_Kvs := rp_Kvs resp @ [shown req (ev_kv ev)] \<rparr>)"
    have cnt: "rp_Count resp' = of_nat (Suc c)" using Cons.prems(2) by (simp add: resp'_def)
    have s: "sint (rp_Count resp') = int (Suc c)" unfolding cnt using Cons.prems(1) True by (intro sint_of_nat_small) simp
    have step: "list_events req (ev # evs) resp = (if 0 < sint (rr_Limit req) \<and> sint (rr_Limit req) \<le> int (Suc c) then (resp' \<lparr> rp_More := True \<rparr>, False)
         else list_events req evs resp')"
      using True unfolding s[symmetric] by (auto simp: resp'_def shown_def Let_def)
    show ?thesis
    proof (cases "0 < sint (rr_Limit req) \<and> sint (rr_Limit req) \<le> int (Suc c)")
      case stop: True
      then have "nat (sint (rr_Limit req)) - c = 1" using Cons.prems(3) by linarith
      then show ?thesis unfolding step using True stop Cons.prems(2) by (simp add: Let_def room_def resp'_def)
    next
      case go: False
      have "room req c (ev_kv ev # put_kvs evs) = Suc (room req (Suc c) (put_kvs evs))" using go by (auto simp: room_def)
      moreover have "fst (list_events req (ev # evs) resp) = fst (list_events req evs resp')" unfolding step if_not_P[OF go] ..
      moreover note Cons.IH[of "Suc c" resp'] Cons.prems(1) cnt go
      ultimately show ?thesis using True by (auto simp: Let_def resp'_def)
    qed
  qed
qed


lemma latest_at_scan: "latest_at rs at = scan_back rs at"
  by (induction rs rule: rev_induct) (auto simp: latest_at_def scan_back_def)

definition past_end :: "RangeRequest \<Rightarrow> key \<Rightarrow> bool" where
  "past_end req k \<longleftrightarrow> rr_RangeEnd req \<noteq> Some [0] \<and> the_bytes (rr_RangeEnd req) \<le> k"

text \<open>What a listing takes from the log for a key of the index: all events of its latest record.\<close>

definition range_events :: "history \<Rightarrow> revision \<Rightarrow> key \<times> revision list \<Rightarrow> Event list" where
  "range_events h at x = (if IsInternalKey (fst x) then [] else case latest_at (snd x) at of None \<Rightarrow> [] | Some r \<Rightarrow> lr_events (h ! (unat r - 1)))"

definition in_list :: "RangeRequest \<Rightarrow> key \<Rightarrow> bool" where
  "in_list req k \<longleftrightarrow> the_bytes (rr_Key req) \<le> k \<and> \<not> past_end req k \<and> \<not> IsInternalKey k"

lemma takeWhile_past_end:
  assumes "sorted_wrt (<) (map fst xs)"
  shows "takeWhile (\<lambda>x. \<not> past_end req (fst x)) xs = filter (\<lambda>x. \<not> past_end req (fst x)) xs"
  using assms
proof (induction xs)
  case (Cons x xs)
  then have "past_end req (fst x) \<Longrightarrow> \<forall>y \<in> set xs. past_end req (fst y)" by (fastforce simp: past_end_def)
  then show ?case using Cons by (auto simp: filter_empty_conv)
qed simp

context storage_log
begin

lemma visit_list:
  assumes hl: "holds (ms_log m) h K"
  shows "\<forall>x \<in> set xs. \<forall>r. latest_at (snd x) at = Some r \<longrightarrow> r \<in> K \<Longrightarrow>
    fst (visit (list_key lg m req at) xs (Inr resp))
      = Inr (fst (list_events req (concat (map (range_events h at) (takeWhile (\<lambda>x. \<not> past_end req (fst x)) xs))) resp))"
proof (induction xs arbitrary: resp)
  case (Cons x xs)
  obtain k rs where x: "x = (k, rs)" by (cases x)
  note IH = Cons.IH[OF ballI, OF bspec[OF Cons.prems], OF list.set_intros(2)]
  show ?case
  proof (cases "past_end req k")
    case True
    then show ?thesis by (simp add: x list_key_def past_end_def)
  next
    case False
    have "list_key lg m req at k rs (Inr resp) = (case list_events req (range_events h at (k, rs)) resp of (resp', go) \<Rightarrow> (Inr resp', go))"
    proof (cases "latest_at rs at")
      case None
      then show ?thesis using False by (simp add: list_key_def past_end_def range_events_def)
    next
      case (Some r)
      then have "lg_GetLogEntry lg (ms_log m) r = Inr (Some (h ! (unat r - 1)))" using Cons.prems entry[OF hl] by (simp add: x)
      then show ?thesis using False Some by (auto simp: list_key_def past_end_def range_events_def split: prod.split)
    qed
    then show ?thesis using False IH by (simp add: x list_events_append split: prod.split)
  qed
qed simp

lemma range_latest:
  assumes inv: "storage_inv holds m h K" and x: "x \<in> set (bt_range (ms_revisions m) start)"
  shows "latest_at (snd x) at = GetLatestRevisionByKey (ms_revisions m) (fst x) at"
proof -
  have bt: "bt_inv (ms_revisions m)" using inv by (simp add: storage_inv_def index_ok_def)
  obtain tb where "bt_map (ms_revisions m) (fst x) = Some (snd x, tb)" using x unfolding bt_range_set[OF bt] by auto
  then show ?thesis using bpt.latest_scan[OF bt, of "fst x" at] by (simp add: latest_at_scan revs_of_def)
qed

lemma txn_list_events:
  assumes inv: "storage_inv holds m h K" and at: "ms_compacted m \<le> at" "at \<le> ms_applied m" and rd: "read_revision m t req = Inr at" and e: "rr_RangeEnd req \<noteq> None"
  shows "txn_list lg m t req = Inr (fst (list_events req
     (concat (map (range_events h at) (filter (\<lambda>x. \<not> past_end req (fst x)) (bt_range (ms_revisions m) (the_bytes (rr_Key req))))))
     \<lparr> rp_Header = Some (createHeader at), rp_Kvs = [], rp_More = False, rp_Count = 0 \<rparr>))"
proof -
  have hl: "holds (ms_log m) h K" using inv by (simp add: storage_inv_def)
  have bt: "bt_inv (ms_revisions m)" using inv by (simp add: storage_inv_def index_ok_def)
  let ?xs = "bt_range (ms_revisions m) (the_bytes (rr_Key req))"
  have "r \<in> K" if "x \<in> set ?xs" "latest_at (snd x) at = Some r" for x r
    using inv at by (cases rule: lookup_cases[where k = "fst x"]) (use that range_latest[OF inv that(1)] in auto)
  then have "\<forall>x \<in> set ?xs. \<forall>r. latest_at (snd x) at = Some r \<longrightarrow> r \<in> K" by blast
  from visit_list[OF hl this] show ?thesis using e rd
    by (simp add: txn_list_def List_visit[OF bt] takeWhile_past_end[OF bt_range_sorted[OF bt]])
qed

text \<open>With one event in a record, that is the key's own.\<close>

lemma single_range_events:
  assumes inv: "storage_inv holds m h K" and at: "ms_compacted m \<le> at" "at \<le> ms_applied m"
    and one: "\<forall>r \<in> set h. length (lr_events r) \<le> 1" and x: "x \<in> set (bt_range (ms_revisions m) start)"
  shows "put_kvs (range_events h at x) = (if IsInternalKey (fst x) then [] else case kv_at h (unat at) (fst x) of None \<Rightarrow> [] | Some kv \<Rightarrow> [kv])"
  using inv at
proof (cases rule: lookup_cases[where k = "fst x"])
  case gone
  then show ?thesis using range_latest[OF inv x] by (simp add: range_events_def)
next
  case (found r ev)
  have lt: "unat r - 1 < length h" if "0 < unat r"
  proof -
    have "unat r \<le> length (take (unat at) h)" unfolding found(3) by (rule last_write_le)
    then have "unat r \<le> length h" by simp
    then show ?thesis using that by linarith
  qed
  have ok: "index_ok (ms_revisions m) h (unat (ms_applied m)) (unat (ms_compacted m))" using inv by (simp add: storage_inv_def)
  then have "r \<in> set (revs_of (bt_map (ms_revisions m)) (fst x))" using found(1) bpt.latest_iff[of "ms_revisions m" "fst x" at r] by (simp add: index_ok_def)
  then have "1 \<le> unat r" using ok unfolding index_ok_def by blast
  then have "0 < unat r" by simp
  then have "h ! (unat r - 1) \<in> set h" using lt by simp
  then have "length (lr_events (h ! (unat r - 1))) \<le> 1" using one by blast
  then have "lr_events (h ! (unat r - 1)) = [ev]" using found(4) by (cases "lr_events (h ! (unat r - 1))") (auto simp: findEvent_def split: if_splits)
  then show ?thesis using found range_latest[OF inv x] by (auto simp: range_events_def)
qed

lemma single_list:
  assumes inv: "storage_inv holds m h K" and at: "ms_compacted m \<le> at" "at \<le> ms_applied m"
    and one: "\<forall>r \<in> set h. length (lr_events r) \<le> 1"
  obtains ks where "sorted_wrt (<) ks" "set ks = {k. in_list req k \<and> kv_at h (unat at) k \<noteq> None}"
    "put_kvs (concat (map (range_events h at) (filter (\<lambda>x. \<not> past_end req (fst x)) (bt_range (ms_revisions m) (the_bytes (rr_Key req))))))
       = map (\<lambda>k. the (kv_at h (unat at) k)) ks"
proof -
  have bt: "bt_inv (ms_revisions m)" using inv by (simp add: storage_inv_def index_ok_def)
  let ?xs = "bt_range (ms_revisions m) (the_bytes (rr_Key req))"
  let ?P = "\<lambda>k. \<not> past_end req k \<and> \<not> IsInternalKey k \<and> kv_at h (unat at) k \<noteq> None"
  define ks where "ks = filter ?P (map fst ?xs)"
  have "put_kvs (concat (map (range_events h at) (filter (\<lambda>x. \<not> past_end req (fst x)) xs))) = map (\<lambda>k. the (kv_at h (unat at) k)) (filter ?P (map fst xs))"
    if "set xs \<subseteq> set ?xs" for xs
    using that
  proof (induction xs)
    case (Cons x xs)
    then show ?case using single_range_events[OF inv at one, of x] by auto
  qed simp
  then have p: "put_kvs (concat (map (range_events h at) (filter (\<lambda>x. \<not> past_end req (fst x)) ?xs))) = map (\<lambda>k. the (kv_at h (unat at) k)) ks"
    unfolding ks_def by blast
  have "sorted_wrt (<) ks" unfolding ks_def using bt_range_sorted[OF bt] by (rule sorted_wrt_filter)
  moreover have "k \<in> fst ` set ?xs" if k: "the_bytes (rr_Key req) \<le> k" "kv_at h (unat at) k \<noteq> None" for k
    using inv at
  proof (cases rule: lookup_cases[where k = k])
    case (found r ev)
    obtain rs tb where "bt_map (ms_revisions m) k = Some (rs, tb)"
      using found(1) bpt.latest_scan[OF bt, of k at] by (cases "bt_map (ms_revisions m) k") (auto simp: revs_of_def scan_back_def)
    then have "(k, rs) \<in> set ?xs" using k(1) by (simp add: bt_range_set[OF bt])
    then show ?thesis by force
  qed (use k in simp)
  then have "set ks = {k. in_list req k \<and> kv_at h (unat at) k \<noteq> None}"
    using bt_range_set[OF bt, of "the_bytes (rr_Key req)"] by (auto simp: ks_def in_list_def)
  ultimately show thesis using p by (intro that)
qed

lemma keys_bound:
  assumes one: "\<forall>r \<in> set h. length (lr_events r) \<le> 1" and ks: "distinct ks" "\<forall>k \<in> set ks. kv_at h n k \<noteq> None"
  shows "length ks \<le> length h"
proof -
  let ?evs = "concat (map lr_events h)"
  have "k \<in> set (map (\<lambda>ev. kv_key (ev_kv ev)) ?evs)" if "k \<in> set ks" for k
  proof -
    let ?n = "last_write (take n h) k"
    have ne: "kv_at h n k \<noteq> None" using ks(2) that by blast
    then have "0 < ?n" and f: "findEvent (h ! (?n - 1)) k \<noteq> None" by (auto simp: kv_at_def event_at_def split: if_splits option.splits)
    moreover have "?n \<le> length h" using last_write_le[of "take n h" k] by simp
    ultimately have "?n - 1 < length h" by linarith
    then have "h ! (?n - 1) \<in> set h" by simp
    moreover obtain ev where "ev \<in> set (lr_events (h ! (?n - 1)))" "kv_key (ev_kv ev) = k" using f findEvent_SomeD by blast
    ultimately show ?thesis by force
  qed
  then have "set ks \<subseteq> set (map (\<lambda>ev. kv_key (ev_kv ev)) ?evs)" by blast
  then have "card (set ks) \<le> card (set (map (\<lambda>ev. kv_key (ev_kv ev)) ?evs))" by (intro card_mono) auto
  moreover have "card (set (map (\<lambda>ev. kv_key (ev_kv ev)) ?evs)) \<le> length ?evs" using card_length[of "map (\<lambda>ev. kv_key (ev_kv ev)) ?evs"] by simp
  moreover have "length ?evs \<le> length h" using one by (induction h) auto
  ultimately show ?thesis using distinct_card[OF ks(1)] by simp
qed

lemma List_events:
  assumes inv: "storage_inv holds m h K" and e: "rr_RangeEnd req \<noteq> None"
    and at: "at = (if 0 < sint (rr_Revision req) then rr_Revision req else of_nat (length h))" "ms_compacted m \<le> at" "unat at \<le> length h"
  obtains m1 where "storage_inv holds m1 h K" "ms_compacted m1 \<le> at" "at \<le> ms_applied m1" "ms_compacted m1 = ms_compacted m"
    "List lg now m req = (Inr (fst (list_events req
       (concat (map (range_events h at) (filter (\<lambda>x. \<not> past_end req (fst x)) (bt_range (ms_revisions m1) (the_bytes (rr_Key req))))))
       \<lparr> rp_Header = Some (createHeader at), rp_Kvs = [], rp_More = False, rp_Count = 0 \<rparr>) \<lparr> rp_Header := Some (createHeader (of_nat (length h))) \<rparr>), m1)"
proof -
  let ?s = "of_nat (length h) :: revision"
  let ?req = "\<lparr> tr_Compare = [], tr_Success = [RequestRange req], tr_Failure = [] \<rparr>"
  obtain t lm m1 where tt: "tryTxn lg now m ?req =
      (case evaluate lg m1 ?req ?s of Inl e \<Rightarrow> (Inl e, m1) | Inr (resp, t) \<Rightarrow> commit lg now m1 t resp)"
    and m1: "storage_inv holds m1 h K" "m1 = m \<lparr> ms_revisions := t, ms_leaseManager := lm, ms_applied := ?s \<rparr>" and s: "unat ?s = length h"
    "unat (ms_applied m) = length h \<longrightarrow> m1 = m"
    by (rule latest_revision[OF inv])
  have a: "ms_compacted m1 \<le> at" "at \<le> ms_applied m1" using at s(1) by (simp_all add: m1(2) word_le_nat_alt)
  have rd: "read_revision m1 (new_txn ?s) req = Inr at"
    using at(1) a by (cases "0 < sint (rr_Revision req)") (simp_all add: read_revision_def checkReadRevision_def m1(2) not_less)
  have c: "ms_compacted m1 = ms_compacted m" by (simp add: m1(2))
  show thesis
    by (rule that[OF m1(1) a c]) (use e txn_list_events[OF m1(1) a rd e] in
      \<open>cases "rr_RangeEnd req"; simp add: List_def range_txn_def Txn_try tt evaluate_def run_op_def commit_def Let_def\<close>)
qed

lemma List_ok:
  assumes inv: "storage_inv holds m h K" and one: "\<forall>r \<in> set h. length (lr_events r) \<le> 1" and e: "rr_RangeEnd req \<noteq> None"
    and at: "at = (if 0 < sint (rr_Revision req) then rr_Revision req else of_nat (length h))" "ms_compacted m \<le> at" "unat at \<le> length h"
  shows "\<exists>ks m'. sorted_wrt (<) ks \<and> set ks = {k. in_list req k \<and> kv_at h (unat at) k \<noteq> None}
    \<and> List lg now m req = (Inr (list_response req (createHeader (of_nat (length h))) (map (\<lambda>k. the (kv_at h (unat at) k)) ks)), m')
    \<and> storage_inv holds m' h K \<and> ms_compacted m' = ms_compacted m"
proof -
  have hl: "holds (ms_log m) h K" using inv by (simp add: storage_inv_def)
  define evs where "evs m1 = concat (map (range_events h at) (filter (\<lambda>x. \<not> past_end req (fst x)) (bt_range (ms_revisions m1) (the_bytes (rr_Key req)))))"
    for m1 :: "'l MemoryStorage"
  let ?resp = "\<lparr> rp_Header = Some (createHeader at), rp_Kvs = [], rp_More = False, rp_Count = 0 \<rparr>"
  obtain m1 where m1: "storage_inv holds m1 h K" "ms_compacted m1 \<le> at" "at \<le> ms_applied m1"
    and c: "ms_compacted m1 = ms_compacted m" and l: "List lg now m req = (Inr (fst (list_events req (evs m1) ?resp) \<lparr> rp_Header := Some (createHeader (of_nat (length h))) \<rparr>), m1)"
    using List_events[OF inv e at] unfolding evs_def by metis
  obtain ks where ks: "sorted_wrt (<) ks" "set ks = {k. in_list req k \<and> kv_at h (unat at) k \<noteq> None}"
    "put_kvs (evs m1) = map (\<lambda>k. the (kv_at h (unat at) k)) ks"
    unfolding evs_def by (rule single_list[OF m1(1-3) one])
  have d: "distinct ks" using ks(1) by (simp add: strict_sorted_iff)
  have "length ks \<le> length h" by (rule keys_bound[OF one d]) (use ks(2) in blast)
  then have "0 + length (put_kvs (evs m1)) < 2 ^ 63" using bound[OF hl] by (simp add: ks(3))
  from list_events_closed[OF this, of ?resp req]
  have "List lg now m req = (Inr (list_response req (createHeader (of_nat (length h))) (map (\<lambda>k. the (kv_at h (unat at) k)) ks)), m1)"
    unfolding l by (simp add: ks(3) list_response_def Let_def)
  then show ?thesis using ks(1,2) m1(1) c by blast
qed

end

text \<open>C5: Listing a range is complete, ordered and current.  On a storage whose transactions have changed one key each, \<^verbatim>\<open>List\<close> at the latest revision or at
  a given one that is neither compacted nor in the future returns exactly the keys from the start up to the end of the range that exist at that revision,
  in order, with their values then, without internal keys; a limit keeps the first of them, and the response then says that
  there are more, also when the limit is just met.\<close>

theorem List_reads:
  assumes "proto_codec w" and "storage_inv (fs_holds w base) m h K" and "\<forall>r \<in> set h. length (lr_events r) \<le> 1" and "rr_RangeEnd req \<noteq> None"
    and "at = (if 0 < sint (rr_Revision req) then rr_Revision req else of_nat (length h))" and "ms_compacted m \<le> at" and "unat at \<le> length h"
  shows "\<exists>ks m'. sorted_wrt (<) ks \<and> set ks = {k. in_list req k \<and> kv_at h (unat at) k \<noteq> None}
    \<and> List (fs_log w) now m req = (Inr (list_response req (createHeader (of_nat (length h))) (map (\<lambda>k. the (kv_at h (unat at) k)) ks)), m')
    \<and> storage_inv (fs_holds w base) m' h K"
  using storage_log.List_ok[OF fs_storage_log[OF assms(1)] assms(2-7), where now = now] by blast

definition demo_list :: "byte \<Rightarrow> byte \<Rightarrow> revision \<Rightarrow> RangeRequest" where
  "demo_list a b rv = \<lparr> rr_Key = Some [a], rr_RangeEnd = Some [b], rr_Limit = 0, rr_Revision = rv, rr_KeysOnly = False, rr_CountOnly = False \<rparr>"

lemma not_internal [simp]: "k \<noteq> [] \<Longrightarrow> hd k \<noteq> 0 \<Longrightarrow> \<not> IsInternalKey k"
  by (cases k) (simp_all add: IsInternalKey_def)

theorem List_reads_witness:
  "rp_Kvs (projr (fst (List (fs_log std_wire) 0 demo_storage3 (demo_list 1 9 2)))) = [demo_kv]"
proof -
  let ?h = "[first_record, put_5, delete_5]"
  have kv: "kv_at ?h 2 k = (if k = [5] then Some demo_kv else None)" for k
    by (simp add: kv_at_def event_at_def findEvent_def last_write_def touches_def put_5_def demo_kv_def numeral_2_eq_2)
  have "in_list (demo_list 1 9 2) [5]" by (simp add: in_list_def past_end_def demo_list_def the_bytes_def)
  then have set: "{k. in_list (demo_list 1 9 2) k \<and> kv_at ?h 2 k \<noteq> None} = {[5]}" by (auto simp: kv split: if_splits)
  have one: "\<forall>r \<in> set ?h. length (lr_events r) \<le> 1" by (simp add: put_5_def delete_5_def)
  have u: "unat (2 :: revision) = 2" by simp
  obtain ks m' where ks: "sorted_wrt (<) ks" "set ks = {[5]}"
    "List (fs_log std_wire) 0 demo_storage3 (demo_list 1 9 2) = (Inr (list_response (demo_list 1 9 2) (createHeader (of_nat (length ?h))) (map (\<lambda>k. the (kv_at ?h 2 k)) ks)), m')"
    using List_reads[OF std.proto_codec_axioms demo_inv3(1) one, of "demo_list 1 9 2" 2 0, unfolded u set]
    by (auto simp: demo_list_def demo_inv3(2))
  have "length ks = 1" using ks(1,2) distinct_card[of ks] by (simp add: strict_sorted_iff)
  then have "ks = [[5]]" using ks(2) by (cases ks) auto
  then show ?thesis unfolding ks(3) by (simp add: list_response_def room_def shown_def demo_list_def kv)
qed

lemma list_events_unlimited:
  assumes "sint (rr_Limit req) \<le> 0" and "\<not> rr_CountOnly req"
  shows "rp_Kvs (fst (list_events req evs resp)) = rp_Kvs resp @ map (shown req) (put_kvs evs)"
  using assms by (induction evs arbitrary: resp) (simp_all add: Let_def shown_def)

text \<open>C16: A listing returns keys that are not in its range.  For each key in the range, \<^verbatim>\<open>List\<close> appends every pair that the key's latest record put.
  When that record is a transaction that put other keys as well, their pairs are in the response too: keys outside the range, keys that
  have another value by now, and keys that have been deleted.\<close>

theorem List_other_keys:
  assumes "proto_codec w" and "storage_inv (fs_holds w base) m h K" and "rr_RangeEnd req \<noteq> None"
    and "at = (if 0 < sint (rr_Revision req) then rr_Revision req else of_nat (length h))" and "ms_compacted m \<le> at" and "unat at \<le> length h"
    and "sint (rr_Limit req) \<le> 0" and "\<not> rr_CountOnly req" and "in_list req k" and "kv_at h (unat at) k \<noteq> None"
    and "ev \<in> set (lr_events (h ! (last_write (take (unat at) h) k - 1)))" and "ev_type ev = PUT"
  shows "\<exists>resp m'. List (fs_log w) now m req = (Inr resp, m') \<and> shown req (ev_kv ev) \<in> set (rp_Kvs resp)"
proof -
  define evs where "evs m1 = concat (map (range_events h at) (filter (\<lambda>x. \<not> past_end req (fst x)) (bt_range (ms_revisions m1) (the_bytes (rr_Key req)))))"
    for m1 :: "(FilesystemLog \<times> Batching) MemoryStorage"
  let ?resp = "\<lparr> rp_Header = Some (createHeader at), rp_Kvs = [], rp_More = False, rp_Count = 0 \<rparr>"
  obtain m1 where m1: "storage_inv (fs_holds w base) m1 h K" "ms_compacted m1 \<le> at" "at \<le> ms_applied m1"
    "List (fs_log w) now m req = (Inr (fst (list_events req (evs m1) ?resp) \<lparr> rp_Header := Some (createHeader (of_nat (length h))) \<rparr>), m1)"
    using storage_log.List_events[OF fs_storage_log[OF assms(1)] assms(2-6)] unfolding evs_def by metis
  have bt: "bt_inv (ms_revisions m1)" using m1(1) by (simp add: storage_inv_def index_ok_def)
  have "ev_kv ev \<in> set (put_kvs (evs m1))"
    using m1(1-3)
  proof (cases rule: lookup_cases[where k = k])
    case (found r ev')
    obtain rs tb where rs: "bt_map (ms_revisions m1) k = Some (rs, tb)" "latest_at rs at = Some r"
      using found(1) bpt.latest_scan[OF bt, of k at] by (cases "bt_map (ms_revisions m1) k") (auto simp: revs_of_def scan_back_def latest_at_scan)
    have "(k, rs) \<in> set (filter (\<lambda>x. \<not> past_end req (fst x)) (bt_range (ms_revisions m1) (the_bytes (rr_Key req))))"
      using rs(1) assms(9) by (simp add: bt_range_set[OF bt] in_list_def)
    moreover have "ev \<in> set (range_events h at (k, rs))" using rs(2) found(3) assms(9,11) by (simp add: range_events_def in_list_def)
    ultimately have "ev \<in> set (evs m1)" unfolding evs_def by force
    then show ?thesis using assms(12) by (auto simp: put_kvs_def)
  qed (use assms(10) in simp)
  then have "shown req (ev_kv ev) \<in> set (rp_Kvs (fst (list_events req (evs m1) ?resp)))"
    unfolding list_events_unlimited[OF assms(7,8)] by simp
  then show ?thesis unfolding m1(4) by simp
qed

theorem List_other_keys_witness:
  "\<exists>m0 resp m'. NewMemoryStorage (fs_log std_wire) 0 back_log = Inr m0 \<and> kv_at back_history 3 [5] = None \<and> \<not> in_list (demo_list 6 7 0) [5]
    \<and> List (fs_log std_wire) 0 m0 (demo_list 6 7 0) = (Inr resp, m') \<and> demo_kv \<in> set (rp_Kvs resp)"
proof -
  obtain m0 where m0: "NewMemoryStorage (fs_log std_wire) 0 back_log = Inr m0" "ms_compacted m0 = 0" "storage_inv (fs_holds std_wire 3) (m0 \<lparr> ms_compacted := 0 \<rparr>) back_history {1, 2, 3}"
    using fsr.restart_ok[OF back_holds _ back_records demo_restorable, of 0 0] by auto
  have i: "storage_inv (fs_holds std_wire 3) m0 back_history {1, 2, 3}" using m0(2,3) by (metis MemoryStorage.surjective MemoryStorage.update_convs(3))
  have kv: "kv_at back_history 3 [5] = None" "kv_at back_history 3 [6] \<noteq> None" "last_write (take 3 back_history) [6] = 2"
    by (simp_all add: kv_at_def event_at_def findEvent_def last_write_def touches_def put_56_def delete_5_def demo_kv_def)
  have r: "in_list (demo_list 6 7 0) [6]" "\<not> in_list (demo_list 6 7 0) [5]" by (simp_all add: in_list_def past_end_def demo_list_def the_bytes_def)
  have "\<exists>resp m'. List (fs_log std_wire) 0 m0 (demo_list 6 7 0) = (Inr resp, m') \<and> shown (demo_list 6 7 0) (ev_kv \<lparr> ev_type = PUT, ev_kv = demo_kv, ev_prevKv = None \<rparr>) \<in> set (rp_Kvs resp)"
    by (rule List_other_keys[OF std.proto_codec_axioms i, where at = 3 and k = "[6]"]) (use kv r m0(2) in \<open>simp_all add: demo_list_def put_56_def\<close>)
  then show ?thesis using m0(1) kv(1) r(2) by (simp add: shown_def demo_list_def)
qed

end
