(* ===== verification/Workload.thy ===== *)
theory Workload
  imports Lease
begin

unbundle bit_operations_syntax

text \<open>
  The load generator's model of a cluster, \<^verbatim>\<open>src/pkg/workload\<close>: the names of keys and the ends of prefixes (\<^verbatim>\<open>keys.go\<close>),
  the configuration (\<^verbatim>\<open>model.go\<close>, without the rates, which are floating-point numbers and used for reports and timers only), what the
  generator remembers of the keys it wrote (\<^verbatim>\<open>state.go\<close>) and the requests it sends (\<^verbatim>\<open>executor.go\<close>).

  The etcd client is a parameter, the record \<^verbatim>\<open>Client\<close> of the calls the code makes, on a state of type \<^verbatim>\<open>'s\<close>.  Durations and
  times are nanoseconds.  Of the statistics the counters are modelled; latencies and sampled messages are not.
\<close>

subsection \<open>Configuration\<close>

record Blobs =
  bl_Node :: bytes
  bl_NodeLease :: bytes
  bl_Pod :: bytes
  bl_Event :: bytes
  bl_MasterLease :: bytes

record Config =
  cf_Nodes :: int
  cf_PodsPerNode :: int
  cf_Namespaces :: int
  cf_NodeLeaseInterval :: int
  cf_NodeStatusInterval :: int
  cf_EventsPerPodLifecycle :: int
  cf_EventTTL :: int
  cf_MasterLeaseInterval :: int
  cf_MasterLeaseTTL :: int
  cf_CountInterval :: int
  cf_HealthCheckInterval :: int
  cf_CompactInterval :: int
  cf_ListPageSize :: int64
  cf_Prefix :: string
  cf_Blobs :: "Blobs option"

abbreviation time_Second :: int where
  "time_Second \<equiv> 1000000000"

definition DefaultConfig :: "Blobs \<Rightarrow> Config" where
  "DefaultConfig synthetic =
     \<lparr> cf_Nodes = 10, cf_PodsPerNode = 10, cf_Namespaces = 10, cf_NodeLeaseInterval = 10 * time_Second, cf_NodeStatusInterval = 5 * 60 * time_Second,
       cf_EventsPerPodLifecycle = 4, cf_EventTTL = 3600 * time_Second, cf_MasterLeaseInterval = 10 * time_Second,
       cf_MasterLeaseTTL = 15 * time_Second, cf_CountInterval = 60 * time_Second, cf_HealthCheckInterval = 25 * time_Second,
       cf_CompactInterval = 5 * 60 * time_Second, cf_ListPageSize = 500, cf_Prefix = ''/registry'', cf_Blobs = Some synthetic \<rparr>"

definition Validate :: "Config \<Rightarrow> error option" where
  "Validate c =
     (if cf_Nodes c \<le> 0 then Some (Errorf ''Nodes must be positive'')
      else if cf_PodsPerNode c < 0 then Some (Errorf ''PodsPerNode must not be negative'')
      else if cf_Namespaces c \<le> 0 then Some (Errorf ''Namespaces must be positive'')
      else if cf_NodeLeaseInterval c \<le> 0 \<or> cf_NodeStatusInterval c \<le> 0 \<or> cf_MasterLeaseInterval c \<le> 0 \<or> cf_CountInterval c \<le> 0
           \<or> cf_CompactInterval c \<le> 0 \<or> cf_HealthCheckInterval c \<le> 0 then Some (Errorf ''intervals must be positive'')
      else if sint (cf_ListPageSize c) \<le> 0 then Some (Errorf ''ListPageSize must be positive'')
      else if cf_Blobs c = None then Some (Errorf ''Blobs must be set'')
      else None)"

definition Pods :: "Config \<Rightarrow> int" where
  "Pods c = cf_Nodes c * cf_PodsPerNode c"

definition Keys :: "Config \<Rightarrow> int" where
  "Keys c = 2 * cf_Nodes c + Pods c"

subsection \<open>Keys\<close>

definition resourceNodes :: string where "resourceNodes = ''minions''"
definition resourceLeases :: string where "resourceLeases = ''leases''"
definition resourceNodeLeases :: string where "resourceNodeLeases = ''leases/kube-node-lease''"
definition resourcePods :: string where "resourcePods = ''pods''"
definition resourceEvents :: string where "resourceEvents = ''events''"
definition resourceMasterLeases :: string where "resourceMasterLeases = ''masterleases''"
definition resourcePeerServerLeases :: string where "resourcePeerServerLeases = ''peerserverleases''"

definition countedResources :: "string list" where
  "countedResources = [resourceEvents]"

definition watchedResources :: "string list" where
  "watchedResources = [resourceNodes, resourceLeases, resourcePods, resourceEvents]"

definition readResources :: "string list" where
  "readResources = [resourceNodes, resourceNodeLeases, resourcePods, resourceEvents]"

definition compactRevKey :: string where "compactRevKey = ''compact_rev_key''"
definition healthKey :: string where "healthKey = ''/health''"

definition resourcePrefix :: "Config \<Rightarrow> string \<Rightarrow> string" where
  "resourcePrefix c resource = cf_Prefix c @ ''/'' @ resource @ ''/''"

text \<open>\<^verbatim>\<open>%0wd\<close> of a number that is not negative and has at most twenty digits.\<close>

definition format_d :: "nat \<Rightarrow> nat \<Rightarrow> string" where
  "format_d w n = (let s = decimal_digits 20 n in replicate (w - length s) CHR ''0'' @ s)"

definition nodeName :: "nat \<Rightarrow> string" where
  "nodeName i = ''node-'' @ format_d 6 i"

definition nodeKey :: "Config \<Rightarrow> nat \<Rightarrow> string" where
  "nodeKey c i = resourcePrefix c resourceNodes @ nodeName i"

definition nodeLeaseKey :: "Config \<Rightarrow> nat \<Rightarrow> string" where
  "nodeLeaseKey c i = resourcePrefix c resourceNodeLeases @ nodeName i"

definition podNamespace :: "Config \<Rightarrow> nat \<Rightarrow> nat \<Rightarrow> string" where
  "podNamespace c node slot = ''ns-'' @ format_d 3 ((node * nat (cf_PodsPerNode c) + slot) mod nat (cf_Namespaces c))"

definition podName :: "nat \<Rightarrow> nat \<Rightarrow> nat \<Rightarrow> string" where
  "podName node slot generation = ''pod-'' @ format_d 6 node @ ''-'' @ format_d 3 slot @ ''-'' @ format_d 0 generation"

definition podKey :: "Config \<Rightarrow> nat \<Rightarrow> nat \<Rightarrow> nat \<Rightarrow> string" where
  "podKey c node slot generation = resourcePrefix c resourcePods @ podNamespace c node slot @ ''/'' @ podName node slot generation"

definition eventKey :: "Config \<Rightarrow> nat \<Rightarrow> nat \<Rightarrow> nat \<Rightarrow> nat \<Rightarrow> string" where
  "eventKey c node slot generation n =
     resourcePrefix c resourceEvents @ podNamespace c node slot @ ''/'' @ podName node slot generation @ ''.'' @ format_d 0 n"

definition masterLeaseKey :: "Config \<Rightarrow> string" where
  "masterLeaseKey c = resourcePrefix c resourceMasterLeases @ ''10.0.0.1''"

definition peerServerLeaseKey :: "Config \<Rightarrow> string" where
  "peerServerLeaseKey c = resourcePrefix c resourcePeerServerLeases @ ''apiserver-0''"

definition apiserverLeaseKey :: "Config \<Rightarrow> string" where
  "apiserverLeaseKey c = resourcePrefix c resourceLeases @ ''kube-system/apiserver-0''"

definition resourceKey :: "Config \<Rightarrow> string \<Rightarrow> string" where
  "resourceKey c resource = cf_Prefix c @ ''/'' @ resource"

text \<open>The loop goes down from the last byte: \<^verbatim>\<open>i\<close> bytes are left to look at.\<close>

fun prefixEnd_loop :: "bytes \<Rightarrow> nat \<Rightarrow> bytes" where
  "prefixEnd_loop b 0 = [0]"
| "prefixEnd_loop b (Suc i) = (if b ! i < 0xff then take i b @ [b ! i + 1] else prefixEnd_loop b i)"

definition prefixEnd :: "bytes \<Rightarrow> bytes" where
  "prefixEnd b = prefixEnd_loop b (length b)"

subsection \<open>What is remembered of a key\<close>

record keyState =
  ks_modRev :: int64
  ks_writeStart :: "int option"
  ks_inflight :: bool

definition zero_keyState :: keyState where
  "zero_keyState = \<lparr> ks_modRev = 0, ks_writeStart = None, ks_inflight = False \<rparr>"

text \<open>The 256 shards, each a map, and \<^verbatim>\<open>hash/fnv\<close>'s 32-bit FNV-1a.\<close>

type_synonym stateMap = "(bytes \<rightharpoonup> keyState) list"

definition newStateMap :: stateMap where
  "newStateMap = replicate 256 Map.empty"

definition fnv32a :: "bytes \<Rightarrow> 32 word" where
  "fnv32a b = foldl (\<lambda>h x. (h XOR ucast x) * 16777619) 2166136261 b"

definition shard :: "stateMap \<Rightarrow> bytes \<Rightarrow> nat" where
  "shard s key = unat (fnv32a key mod of_nat (length s))"

definition state_get :: "stateMap \<Rightarrow> bytes \<Rightarrow> keyState option" where
  "state_get s key = (s ! shard s key) key"

definition state_set :: "stateMap \<Rightarrow> bytes \<Rightarrow> keyState option \<Rightarrow> stateMap" where
  "state_set s key st = s[shard s key := (s ! shard s key)(key := st)]"

definition state_read :: "stateMap \<Rightarrow> bytes \<Rightarrow> keyState" where
  "state_read s key = (case state_get s key of Some st \<Rightarrow> st | None \<Rightarrow> zero_keyState)"

definition beginWrite :: "int \<Rightarrow> stateMap \<Rightarrow> bytes \<Rightarrow> int64 \<times> stateMap" where
  "beginWrite now s key =
     (let st = (state_read s key) \<lparr> ks_writeStart := Some now, ks_inflight := True \<rparr>
      in (ks_modRev st, state_set s key (Some st)))"

definition endWrite :: "stateMap \<Rightarrow> bytes \<Rightarrow> int64 \<Rightarrow> stateMap" where
  "endWrite s key modRev = state_set s key (Some ((state_read s key) \<lparr> ks_modRev := modRev, ks_inflight := False \<rparr>))"

definition state_delete :: "stateMap \<Rightarrow> bytes \<Rightarrow> stateMap" where
  "state_delete s key = state_set s key None"

subsection \<open>The executor\<close>

record OpStats =
  os_Count :: nat
  os_Errors :: nat
  os_Conflicts :: nat

record 's Client =
  cl_Txn :: "'s \<Rightarrow> TxnRequest \<Rightarrow> (error + TxnResponse) \<times> 's"
  cl_Get :: "'s \<Rightarrow> RangeRequest \<Rightarrow> (error + RangeResponse) \<times> 's"
  cl_Grant :: "'s \<Rightarrow> int64 \<Rightarrow> (error + int64) \<times> 's"
  cl_Compact :: "'s \<Rightarrow> int64 \<Rightarrow> error option \<times> 's"

record 's executor =
  ex_server :: 's
  ex_state :: stateMap
  ex_ops :: "string \<rightharpoonup> OpStats"
  ex_compactVersion :: int64
  ex_compactRev :: int64

definition errNotFound :: error where
  "errNotFound = Errorf ''key not found''"

definition Op :: "'s executor \<Rightarrow> string \<Rightarrow> OpStats" where
  "Op e label = (case ex_ops e label of Some st \<Rightarrow> st | None \<Rightarrow> \<lparr> os_Count = 0, os_Errors = 0, os_Conflicts = 0 \<rparr>)"

definition observe :: "'s executor \<Rightarrow> string \<Rightarrow> error option \<Rightarrow> error option \<times> 's executor" where
  "observe e op err =
     (let st = Op e op
      in (err, e \<lparr> ex_ops := (ex_ops e)(op \<mapsto> st \<lparr> os_Count := os_Count st + 1, os_Errors := os_Errors st + (if err \<noteq> None then 1 else 0) \<rparr>) \<rparr>))"

definition conflict :: "'s executor \<Rightarrow> string \<Rightarrow> 's executor" where
  "conflict e op = e \<lparr> ex_ops := (ex_ops e)(op \<mapsto> (Op e op) \<lparr> os_Conflicts := os_Conflicts (Op e op) + 1 \<rparr>) \<rparr>"

definition OpGet :: "bytes \<Rightarrow> RangeRequest" where
  "OpGet key = \<lparr> rr_Key = Some key, rr_RangeEnd = None, rr_Limit = 0, rr_Revision = 0, rr_KeysOnly = False, rr_CountOnly = False \<rparr>"

definition OpPut :: "bytes \<Rightarrow> bytes \<Rightarrow> int64 \<Rightarrow> RequestOp" where
  "OpPut key value lease = RequestPut \<lparr> pr_Key = Some key, pr_Value = value, pr_Lease = lease, pr_PrevKv = False \<rparr>"

definition OpDelete :: "bytes \<Rightarrow> RequestOp" where
  "OpDelete key = RequestDeleteRange \<lparr> dr_Key = Some key, dr_RangeEnd = None \<rparr>"

definition txn_if :: "CompareTarget \<Rightarrow> TargetUnion \<Rightarrow> bytes \<Rightarrow> RequestOp \<Rightarrow> TxnRequest" where
  "txn_if target value key oper =
     \<lparr> tr_Compare = [\<lparr> cc_Result = Compare_EQUAL, cc_Target = target, cc_Key = Some key, cc_TargetUnion = value \<rparr>],
       tr_Success = [oper], tr_Failure = [RequestRange (OpGet key)] \<rparr>"

text \<open>\<^verbatim>\<open>resp.Responses[0].GetResponseRange().GetKvs()\<close>: an index out of range is a panic, a response of another kind has no pairs.\<close>

definition first_kvs :: "TxnResponse \<Rightarrow> error + KeyValue list" where
  "first_kvs resp = (case tp_Responses resp of [] \<Rightarrow> Inl (Panic ''index out of range'') | ResponseRange r # rs \<Rightarrow> Inr (rp_Kvs r) | r # rs \<Rightarrow> Inr [])"

definition create :: "'s Client \<Rightarrow> int \<Rightarrow> 's executor \<Rightarrow> string \<Rightarrow> bytes \<Rightarrow> bytes \<Rightarrow> int64 \<Rightarrow> error option \<times> 's executor" where
  "create cl now e op key value leaseID =
     (let e1 = e \<lparr> ex_state := snd (beginWrite now (ex_state e) key) \<rparr>
      in case cl_Txn cl (ex_server e1) (txn_if Compare_MOD (Union_ModRevision 0) key (OpPut key value leaseID)) of
           (Inl err, s) \<Rightarrow> observe (e1 \<lparr> ex_server := s \<rparr>) op (Some err)
         | (Inr resp, s) \<Rightarrow>
             let e2 = e1 \<lparr> ex_server := s \<rparr>
             in if \<not> tp_Succeeded resp
                then let e3 = conflict e2 op
                     in case first_kvs resp of
                          Inl err \<Rightarrow> (Some err, e3)
                        | Inr kvs \<Rightarrow>
                            observe (if kvs \<noteq> [] then e3 \<lparr> ex_state := endWrite (ex_state e3) key (kv_modRevision (hd kvs)) \<rparr> else e3) op
                              (Some (Errorf ''create: already exists''))
                else observe (e2 \<lparr> ex_state := endWrite (ex_state e2) key (hd_Revision (tp_Header resp)) \<rparr>) op None)"

text \<open>The attempts of \<^verbatim>\<open>updateOrCreate\<close>; \<^verbatim>\<open>retries\<close> is how often a conflict may still be retried.\<close>

fun update_attempts :: "'s Client \<Rightarrow> int \<Rightarrow> nat \<Rightarrow> 's executor \<Rightarrow> string \<Rightarrow> bytes \<Rightarrow> bytes \<Rightarrow> int64 \<Rightarrow> bool \<Rightarrow> int64 \<Rightarrow> error option \<times> 's executor" where
  "update_attempts cl now retries e op key value leaseID createIfMissing rv =
     (case cl_Txn cl (ex_server e) (txn_if Compare_MOD (Union_ModRevision rv) key (OpPut key value leaseID)) of
        (Inl err, s) \<Rightarrow> observe (e \<lparr> ex_server := s \<rparr>) op (Some err)
      | (Inr resp, s) \<Rightarrow>
          let e1 = e \<lparr> ex_server := s \<rparr>
          in if tp_Succeeded resp then observe (e1 \<lparr> ex_state := endWrite (ex_state e1) key (hd_Revision (tp_Header resp)) \<rparr>) op None
             else let e2 = conflict e1 op
                  in case first_kvs resp of
                       Inl err \<Rightarrow> (Some err, e2)
                     | Inr [] \<Rightarrow>
                         let e3 = e2 \<lparr> ex_state := state_delete (ex_state e2) key \<rparr>
                         in if createIfMissing then create cl now (snd (observe e3 op None)) op key value leaseID
                            else observe e3 op (Some (Wrap ''update'' errNotFound))
                     | Inr (kv # kvs) \<Rightarrow>
                         (case retries of
                            0 \<Rightarrow> observe (e2 \<lparr> ex_state := endWrite (ex_state e2) key (kv_modRevision kv) \<rparr>) op (Some (Errorf ''update: conflict after retry''))
                          | Suc n \<Rightarrow> update_attempts cl now n e2 op key value leaseID createIfMissing (kv_modRevision kv)))"

declare update_attempts.simps [simp del]

definition updateOrCreate :: "'s Client \<Rightarrow> int \<Rightarrow> 's executor \<Rightarrow> string \<Rightarrow> bytes \<Rightarrow> bytes \<Rightarrow> int64 \<Rightarrow> bool \<Rightarrow> error option \<times> 's executor" where
  "updateOrCreate cl now e op key value leaseID createIfMissing =
     (case beginWrite now (ex_state e) key of (rv, st) \<Rightarrow>
        update_attempts cl now 1 (e \<lparr> ex_state := st \<rparr>) op key value leaseID createIfMissing rv)"

definition updateWithLease :: "'s Client \<Rightarrow> int \<Rightarrow> 's executor \<Rightarrow> string \<Rightarrow> bytes \<Rightarrow> bytes \<Rightarrow> int64 \<Rightarrow> error option \<times> 's executor" where
  "updateWithLease cl now e op key value leaseID = updateOrCreate cl now e op key value leaseID False"

definition upsertWithLease :: "'s Client \<Rightarrow> int \<Rightarrow> 's executor \<Rightarrow> string \<Rightarrow> bytes \<Rightarrow> bytes \<Rightarrow> int64 \<Rightarrow> error option \<times> 's executor" where
  "upsertWithLease cl now e op key value leaseID = updateOrCreate cl now e op key value leaseID True"

definition update :: "'s Client \<Rightarrow> int \<Rightarrow> 's executor \<Rightarrow> string \<Rightarrow> bytes \<Rightarrow> bytes \<Rightarrow> error option \<times> 's executor" where
  "update cl now e op key value = updateWithLease cl now e op key value 0"

fun delete_attempts :: "'s Client \<Rightarrow> nat \<Rightarrow> 's executor \<Rightarrow> string \<Rightarrow> bytes \<Rightarrow> int64 \<Rightarrow> error option \<times> 's executor" where
  "delete_attempts cl retries e op key rv =
     (case cl_Txn cl (ex_server e) (txn_if Compare_MOD (Union_ModRevision rv) key (OpDelete key)) of
        (Inl err, s) \<Rightarrow> observe (e \<lparr> ex_server := s \<rparr>) op (Some err)
      | (Inr resp, s) \<Rightarrow>
          let e1 = e \<lparr> ex_server := s \<rparr>
          in if tp_Succeeded resp then observe (e1 \<lparr> ex_state := state_delete (ex_state e1) key \<rparr>) op None
             else let e2 = conflict e1 op
                  in case first_kvs resp of
                       Inl err \<Rightarrow> (Some err, e2)
                     | Inr [] \<Rightarrow> observe (e2 \<lparr> ex_state := state_delete (ex_state e2) key \<rparr>) op None
                     | Inr (kv # kvs) \<Rightarrow>
                         (case retries of
                            0 \<Rightarrow> observe e2 op (Some (Errorf ''delete: conflict after retry''))
                          | Suc n \<Rightarrow> delete_attempts cl n e2 op key (kv_modRevision kv)))"

declare delete_attempts.simps [simp del]

definition executor_delete :: "'s Client \<Rightarrow> int \<Rightarrow> 's executor \<Rightarrow> string \<Rightarrow> bytes \<Rightarrow> error option \<times> 's executor" where
  "executor_delete cl now e op key =
     (case cl_Get cl (ex_server e) (OpGet key) of
        (Inl err, s) \<Rightarrow> observe (e \<lparr> ex_server := s \<rparr>) op (Some err)
      | (Inr resp, s) \<Rightarrow>
          let e1 = e \<lparr> ex_server := s \<rparr>
          in case rp_Kvs resp of
               [] \<Rightarrow> observe (e1 \<lparr> ex_state := state_delete (ex_state e1) key \<rparr>) op (Some (Wrap ''delete'' errNotFound))
             | kv # kvs \<Rightarrow> delete_attempts cl 1 (e1 \<lparr> ex_state := snd (beginWrite now (ex_state e1) key) \<rparr>) op key (kv_modRevision kv))"

subsection \<open>Reads\<close>

definition executor_read :: "'s Client \<Rightarrow> 's executor \<Rightarrow> string \<Rightarrow> RangeRequest \<Rightarrow> error option \<times> 's executor" where
  "executor_read cl e op req =
     (case cl_Get cl (ex_server e) req of
        (Inl err, s) \<Rightarrow> observe (e \<lparr> ex_server := s \<rparr>) op (Some err)
      | (Inr resp, s) \<Rightarrow> observe (e \<lparr> ex_server := s \<rparr>) op None)"

definition executor_get :: "'s Client \<Rightarrow> 's executor \<Rightarrow> string \<Rightarrow> bytes \<Rightarrow> error option \<times> 's executor" where
  "executor_get cl e op key = executor_read cl e op (OpGet key)"

definition listAll :: "'s Client \<Rightarrow> 's executor \<Rightarrow> string \<Rightarrow> bytes \<Rightarrow> error option \<times> 's executor" where
  "listAll cl e op pre = executor_read cl e op ((OpGet pre) \<lparr> rr_RangeEnd := Some (prefixEnd pre) \<rparr>)"

definition count :: "'s Client \<Rightarrow> 's executor \<Rightarrow> string \<Rightarrow> bytes \<Rightarrow> error option \<times> 's executor" where
  "count cl e op pre = executor_read cl e op ((OpGet pre) \<lparr> rr_RangeEnd := Some (prefixEnd pre), rr_CountOnly := True \<rparr>)"

text \<open>The pages of \<^verbatim>\<open>list\<close>: \<^verbatim>\<open>None\<close> when \<^verbatim>\<open>fuel\<close> pages were not enough, otherwise the number of keys seen, the error and the client's state.\<close>

definition page_request :: "bytes \<Rightarrow> bytes \<Rightarrow> int64 \<Rightarrow> int64 \<Rightarrow> RangeRequest" where
  "page_request key rangeEnd pageSize rv = (OpGet key) \<lparr> rr_RangeEnd := Some rangeEnd, rr_Limit := pageSize, rr_Revision := rv \<rparr>"

fun list_pages :: "'s Client \<Rightarrow> nat \<Rightarrow> 's \<Rightarrow> bytes \<Rightarrow> bytes \<Rightarrow> int64 \<Rightarrow> int64 \<Rightarrow> nat \<Rightarrow> (nat \<times> error option \<times> 's) option" where
  "list_pages cl 0 s key rangeEnd pageSize rv n = None"
| "list_pages cl (Suc fuel) s key rangeEnd pageSize rv n =
     (case cl_Get cl s (page_request key rangeEnd pageSize rv) of
        (Inl err, s') \<Rightarrow> Some (n, Some err, s')
      | (Inr resp, s') \<Rightarrow>
          case (if rv = 0 then map_option hd_Revision (rp_Header resp) else Some rv) of
            None \<Rightarrow> Some (n, Some (Panic ''nil pointer dereference''), s')
          | Some rv' \<Rightarrow>
              let n' = n + length (rp_Kvs resp)
              in if \<not> rp_More resp \<or> rp_Kvs resp = [] then Some (n', None, s')
                 else list_pages cl fuel s' (kv_key (last (rp_Kvs resp)) @ [0]) rangeEnd pageSize rv' n')"

definition executor_list :: "'s Client \<Rightarrow> nat \<Rightarrow> 's executor \<Rightarrow> string \<Rightarrow> bytes \<Rightarrow> int64 \<Rightarrow> ((nat \<times> error option) \<times> 's executor) option" where
  "executor_list cl fuel e op pre pageSize =
     (case list_pages cl fuel (ex_server e) pre (prefixEnd pre) pageSize 0 0 of
        None \<Rightarrow> None
      | Some (n, Some (Panic msg), s) \<Rightarrow> Some ((n, Some (Panic msg)), e \<lparr> ex_server := s \<rparr>)
      | Some (n, err, s) \<Rightarrow> (case observe (e \<lparr> ex_server := s \<rparr>) op err of (err', e') \<Rightarrow> Some ((n, err'), e')))"

subsection \<open>Leases and compaction\<close>

text \<open>\<^verbatim>\<open>int64(ttl.Seconds())\<close> of a duration that is not negative.\<close>

definition leaseGrant :: "'s Client \<Rightarrow> 's executor \<Rightarrow> string \<Rightarrow> int \<Rightarrow> (error + int64) \<times> 's executor" where
  "leaseGrant cl e op ttl =
     (case cl_Grant cl (ex_server e) (of_int (ttl div time_Second)) of
        (Inl err, s) \<Rightarrow> (Inl err, snd (observe (e \<lparr> ex_server := s \<rparr>) op (Some err)))
      | (Inr ident, s) \<Rightarrow> (Inr ident, snd (observe (e \<lparr> ex_server := s \<rparr>) op None)))"

text \<open>\<^verbatim>\<open>strconv.ParseInt(s, 10, 64)\<close> with the error ignored: 0 for what is no number, the nearest number for one out of range.\<close>

definition ParseInt_value :: "string \<Rightarrow> int64" where
  "ParseInt_value s =
     (let neg = (s \<noteq> [] \<and> hd s = CHR ''-''); digits = (if s \<noteq> [] \<and> (hd s = CHR ''-'' \<or> hd s = CHR ''+'') then tl s else s)
      in if digits = [] then 0
         else case foldl parse_digit (Some 0) digits of
                None \<Rightarrow> 0
              | Some n \<Rightarrow> of_int (if neg then - min (int n) (2 ^ 63) else min (int n) (2 ^ 63 - 1)))"

definition executor_compact :: "'s Client \<Rightarrow> 's executor \<Rightarrow> string \<Rightarrow> error option \<times> 's executor" where
  "executor_compact cl e op =
     (let key = bytes_of compactRevKey
      in case cl_Txn cl (ex_server e) (txn_if Compare_VERSION (Union_Version (ex_compactVersion e)) key (OpPut key (bytes_of (decimal (ex_compactRev e))) 0)) of
           (Inl err, s) \<Rightarrow> observe (e \<lparr> ex_server := s \<rparr>) op (Some err)
         | (Inr resp, s) \<Rightarrow>
             let e1 = e \<lparr> ex_server := s \<rparr>
             in if \<not> tp_Succeeded resp
                then let e2 = conflict e1 op
                     in case first_kvs resp of
                          Inl err \<Rightarrow> (Some err, e2)
                        | Inr [] \<Rightarrow> observe e2 op None
                        | Inr (kv # kvs) \<Rightarrow>
                            observe (e2 \<lparr> ex_compactVersion := kv_version kv, ex_compactRev := ParseInt_value (string_of (kv_value kv)) \<rparr>) op None
                else let prev = ex_compactRev e1;
                         e2 = e1 \<lparr> ex_compactVersion := ex_compactVersion e1 + 1, ex_compactRev := hd_Revision (tp_Header resp) \<rparr>
                     in if prev = 0 then observe e2 op None
                        else case cl_Compact cl (ex_server e2) prev of (err, s') \<Rightarrow> observe (e2 \<lparr> ex_server := s' \<rparr>) op err)"

record leaseCache =
  lc_ttl :: int
  lc_reuseDuration :: int
  lc_maxObjects :: int
  lc_id :: int64
  lc_reuseEnd :: int
  lc_attached :: int

definition newLeaseCache :: "int \<Rightarrow> leaseCache" where
  "newLeaseCache ttl = \<lparr> lc_ttl = ttl, lc_reuseDuration = 60 * time_Second, lc_maxObjects = 1000, lc_id = 0, lc_reuseEnd = 0, lc_attached = 0 \<rparr>"

definition leaseCache_get :: "'s Client \<Rightarrow> int \<Rightarrow> leaseCache \<Rightarrow> 's executor \<Rightarrow> (error + int64) \<times> leaseCache \<times> 's executor" where
  "leaseCache_get cl now l e =
     (if lc_id l \<noteq> 0 \<and> now < lc_reuseEnd l \<and> lc_attached l < lc_maxObjects l
      then (Inr (lc_id l), l \<lparr> lc_attached := lc_attached l + 1 \<rparr>, e)
      else case leaseGrant cl e ''lease-grant'' (lc_ttl l + lc_reuseDuration l) of
             (Inl err, e') \<Rightarrow> (Inl err, l, e')
           | (Inr ident, e') \<Rightarrow> (Inr ident, l \<lparr> lc_id := ident, lc_reuseEnd := now + lc_reuseDuration l, lc_attached := 1 \<rparr>, e'))"

end
