(* ===== verification/Workload_Spec.thy ===== *)
theory Workload_Spec
  imports Range_Spec Server Workload
begin

text \<open>
  The load generator against the server: the end of a prefix selects exactly the keys with the prefix, and a list in pages sees
  every key once, at one revision, while other clients write.
\<close>

subsection \<open>The sharded map\<close>

lemma shard_less: "length s = 256 \<Longrightarrow> shard s k < length s"
  by (simp add: shard_def unat_mod)

lemma state_get_set: "length s = 256 \<Longrightarrow> state_get (state_set s k v) j = (if j = k then v else state_get s j)"
  using shard_less[of s k] by (auto simp: state_get_def state_set_def shard_def nth_list_update)

lemma state_get_writes:
  assumes "length s = 256"
  shows "state_get (snd (beginWrite now s k)) j = (if j = k then Some ((state_read s k) \<lparr> ks_writeStart := Some now, ks_inflight := True \<rparr>) else state_get s j)"
    and "state_get (endWrite s k rv) j = (if j = k then Some ((state_read s k) \<lparr> ks_modRev := rv, ks_inflight := False \<rparr>) else state_get s j)"
    and "state_get (state_delete s k) j = (if j = k then None else state_get s j)"
  using assms by (simp_all add: beginWrite_def endWrite_def state_delete_def Let_def state_get_set)

lemma state_get_new: "state_get newStateMap k = None"
  using shard_less[of newStateMap k] by (simp add: state_get_def newStateMap_def)

subsection \<open>Prefixes\<close>

lemma prefixEnd_loop_append: "i \<le> length p \<Longrightarrow> prefixEnd_loop (p @ xs) i = prefixEnd_loop p i"
  by (induction i) (auto simp: nth_append)

lemma prefixEnd_snoc: "prefixEnd (p @ [x]) = (if x < 0xff then p @ [x + 1] else prefixEnd p)"
  by (simp add: prefixEnd_def prefixEnd_loop_append)

lemma byte_less_Suc: "x < 0xff \<Longrightarrow> y < x + 1 \<longleftrightarrow> y \<le> (x :: byte)"
proof -
  assume x: "x < 0xff"
  then have "unat (x + 1) = unat x + 1" by (simp add: word_less_nat_alt unat_word_ariths)
  then show ?thesis by (auto simp: word_less_nat_alt word_le_nat_alt)
qed

lemma byte_max: "\<not> x < 0xff \<longleftrightarrow> x = (0xff :: byte)"
proof -
  have "unat x < 2 ^ 8" using unsigned_less[of x] by simp
  then show ?thesis by (auto simp: word_less_nat_alt word_unat_eq_iff)
qed

lemma prefix_range_last: "(x :: byte) < 0xff \<Longrightarrow> p @ [x] \<le> k \<and> k < p @ [x + 1] \<longleftrightarrow> prefix (p @ [x]) k"
proof (induction p arbitrary: k)
  case Nil
  show ?case
  proof (cases k)
    case (Cons z zs)
    have a: "([x] \<le> z # zs) = (x \<le> z)" "(z # zs < [x + 1]) = (z < x + 1)" by (simp_all only: Cons_le_Cons Cons_less_Cons Nil_le_Cons not_less_Nil simp_thms order.order_iff_strict[of x z])
    have b: "x \<le> z \<and> z < x + 1 \<longleftrightarrow> x = z" using byte_less_Suc[OF Nil, of z] by (metis order.antisym order.refl)
    show ?thesis unfolding Cons append_Nil a b Cons_prefix_Cons by (simp only: Nil_prefix simp_thms)
  next
    case Nil
    show ?thesis unfolding Nil append_Nil le_Nil by simp
  qed
next
  case IH: (Cons y p)
  show ?case
  proof (cases k)
    case (Cons z zs)
    show ?thesis unfolding Cons append_Cons Cons_le_Cons Cons_less_Cons Cons_prefix_Cons
      using IH(1)[OF IH(2), of zs] by (metis order.asym order.irrefl)
  next
    case Nil
    show ?thesis unfolding Nil append_Cons le_Nil by simp
  qed
qed

lemma append_le_prefix: "p @ q \<le> k \<Longrightarrow> p \<le> (k :: bytes)"
  by (induction p arbitrary: k) (case_tac k; auto)+

lemma prefix_le: "prefix p k \<Longrightarrow> p \<le> (k :: bytes)"
  by (auto simp: prefix_def append_le_append[of p "[]", simplified])

lemma prefixEnd_exact: "p \<le> k \<and> (prefixEnd p = [0] \<or> k < prefixEnd p) \<longleftrightarrow> prefix p k"
proof (induction p rule: rev_induct)
  case Nil
  then show ?case by (simp add: prefixEnd_def)
next
  case (snoc x p)
  show ?case
  proof (cases "x < 0xff")
    case True
    then have "p @ [x + 1] \<noteq> [0]" using byte_less_Suc[of x 0] by auto
    then show ?thesis unfolding prefixEnd_snoc if_P[OF True] using prefix_range_last[OF True, of p k] by blast
  next
    case False
    then have x: "x = 0xff" by (simp only: byte_max)
    have "p @ [x] \<le> k \<and> prefix p k \<longleftrightarrow> prefix (p @ [x]) k"
    proof
      assume a: "p @ [x] \<le> k \<and> prefix p k"
      then obtain ks where k: "k = p @ ks" by (auto simp: prefix_def)
      then have "[x] \<le> ks" using a append_le_append by blast
      then obtain z zs where "ks = z # zs" "x < z \<or> x = z" by (cases ks) auto
      moreover have "\<not> x < z" using byte_max[of z] by (auto simp: x)
      ultimately show "prefix (p @ [x]) k" by (simp add: k)
    next
      assume "prefix (p @ [x]) k"
      then show "p @ [x] \<le> k \<and> prefix p k" using prefix_le append_prefixD by blast
    qed
    then show ?thesis using False snoc append_le_prefix[of p "[x]" k] by (auto simp: prefixEnd_snoc)
  qed
qed

lemma in_list_prefix: "in_list (page_request p (prefixEnd p) pageSize rv) k \<longleftrightarrow> prefix p k \<and> \<not> IsInternalKey k"
  using prefixEnd_exact[of p k] by (auto simp: in_list_def past_end_def page_request_def OpGet_def the_bytes_def not_le)

lemma prefixEnd_nonempty: "prefixEnd p \<noteq> []"
  by (induction p rule: rev_induct) (simp_all add: prefixEnd_snoc, simp add: prefixEnd_def)

lemma key_after: "y @ [0] \<le> k \<longleftrightarrow> y < (k :: bytes)"
proof (induction y arbitrary: k)
  case Nil
  then show ?case by (cases k) (auto simp: word_gt_0)
next
  case (Cons a y)
  then show ?case by (cases k) auto
qed

subsection \<open>Pages\<close>

definition read_at :: "history \<Rightarrow> RangeRequest \<Rightarrow> nat" where
  "read_at h req = (if 0 < sint (rr_Revision req) then unat (rr_Revision req) else length h)"

lemma kv_at_key: "kv_at h n k = Some kv \<Longrightarrow> kv_key kv = k"
  by (auto simp: kv_at_def event_at_def split: option.splits if_splits dest: findEvent_SomeD)

lemma drop_sorted:
  fixes ks :: "bytes list"
  assumes "sorted_wrt (<) ks" and "set ks = {x. k \<le> x \<and> Q x}" and "0 < n" and "n \<le> length ks"
  shows "set (drop n ks) = {x. ks ! (n - 1) @ [0] \<le> x \<and> Q x}"
proof -
  let ?y = "ks ! (n - 1)" and ?pre = "take n ks"
  have y: "?y \<in> set ks" using assms(3,4) by simp
  have app: "ks = take (n - 1) ks @ ?y # drop n ks"
    using assms(3,4) id_take_nth_drop[of "n - 1" ks] by simp
  have s: "sorted_wrt (<) (take (n - 1) ks @ ?y # drop n ks)" using assms(1) app by simp
  have "x \<in> set (drop n ks) \<longleftrightarrow> x \<in> set ks \<and> ?y < x" for x
  proof -
    have "x \<in> set ks \<longleftrightarrow> x \<in> set (take (n - 1) ks) \<or> x = ?y \<or> x \<in> set (drop n ks)" by (subst app) (auto simp del: append_take_drop_id)
    moreover have "x \<in> set (take (n - 1) ks) \<longrightarrow> x < ?y" "x \<in> set (drop n ks) \<longrightarrow> ?y < x" using s by (auto simp: sorted_wrt_append)
    ultimately show ?thesis by (metis order.asym order.irrefl)
  qed
  moreover have "k \<le> ?y" using y assms(2) by blast
  then have "?y < x \<Longrightarrow> k \<le> x" for x by (meson order.strict_implies_order order.trans)
  ultimately show ?thesis unfolding key_after set_eq_iff mem_Collect_eq using assms(2) by blast
qed

text \<open>
  What a client relies on when it reads ranges: a state \<^verbatim>\<open>s\<close> stands for a history \<^verbatim>\<open>h\<close>; other clients may extend it to
  \<^verbatim>\<open>seen s h\<close> before a request is answered, and the answer is what the extended history has at the revision asked for.
\<close>

locale range_server =
  fixes get :: "'s \<Rightarrow> RangeRequest \<Rightarrow> (error + RangeResponse) \<times> 's" and serves :: "'s \<Rightarrow> history \<Rightarrow> bool"
    and seen :: "'s \<Rightarrow> history \<Rightarrow> history" and low :: revision
  assumes grows: "serves s h \<Longrightarrow> prefix h (seen s h)"
    and bounds: "serves s h \<Longrightarrow> 0 < length h \<and> length h < 2 ^ 63 \<and> unat low \<le> length h"
    and answers: "serves s h \<Longrightarrow> rr_Key req \<noteq> None \<Longrightarrow> the_bytes (rr_RangeEnd req) \<noteq> []
      \<Longrightarrow> 0 < sint (rr_Revision req) \<longrightarrow> low \<le> rr_Revision req \<and> unat (rr_Revision req) \<le> length h
      \<Longrightarrow> \<exists>ks s'. sorted_wrt (<) ks \<and> set ks = {k. in_list req k \<and> kv_at (seen s h) (read_at (seen s h) req) k \<noteq> None}
          \<and> get s req = (Inr (list_response req (createHeader (of_nat (length (seen s h)))) (map (\<lambda>k. the (kv_at (seen s h) (read_at (seen s h) req) k)) ks)), s')
          \<and> serves s' (seen s h)"
begin

lemma page:
  assumes cl: "cl_Get cl = get" and h: "serves s h" and e: "e \<noteq> []" and sz: "0 < sint pageSize"
    and rv: "rv \<noteq> 0 \<longrightarrow> low \<le> rv \<and> unat rv \<le> length h" and at: "at = (if rv = 0 then length (seen s h) else unat rv)"
  obtains ks s' where "sorted_wrt (<) ks" "set ks = {x. in_list (page_request k e pageSize rv) x \<and> kv_at (seen s h) at x \<noteq> None}" "serves s' (seen s h)"
    "\<forall>fuel n. list_pages cl (Suc fuel) s k e pageSize rv n = (if length ks < nat (sint pageSize) then Some (n + length ks, None, s')
       else list_pages cl fuel s' (ks ! (nat (sint pageSize) - 1) @ [0]) e pageSize (of_nat at) (n + nat (sint pageSize)))"
proof -
  let ?req = "page_request k e pageSize rv" and ?h = "seen s h" and ?L = "nat (sint pageSize)"
  have len: "length h < 2 ^ 63" using bounds[OF h] by simp
  have pos: "0 < sint rv \<longleftrightarrow> rv \<noteq> 0"
  proof (cases "rv = 0")
    case False
    then have "unat rv < 2 ^ 63" "0 < unat rv" using rv len by (auto simp: unat_gt_0)
    then show ?thesis using sint_small[of rv] False by linarith
  qed simp
  have r: "read_at ?h ?req = at" by (simp add: read_at_def page_request_def pos at)
  obtain ks s' where ks: "sorted_wrt (<) ks" "set ks = {x. in_list ?req x \<and> kv_at ?h at x \<noteq> None}" "serves s' ?h"
    "get s ?req = (Inr (list_response ?req (createHeader (of_nat (length ?h))) (map (\<lambda>x. the (kv_at ?h at x)) ks)), s')"
    using answers[OF h, of ?req] e rv by (auto simp: r pos) (auto simp: page_request_def OpGet_def the_bytes_def)
  have at': "(if rv = 0 then map_option hd_Revision (Some (createHeader (of_nat (length ?h)))) else Some rv) = Some (of_nat at)"
    by (simp add: at createHeader_def)
  have last: "kv_key (last (map (\<lambda>x. the (kv_at ?h at x)) (take ?L ks))) = ks ! (?L - 1)" if "\<not> length ks < ?L"
  proof -
    have L: "0 < ?L" "?L \<le> length ks" using sz that by auto
    then have "take ?L ks \<noteq> []" by auto
    then have "last (map (\<lambda>x. the (kv_at ?h at x)) (take ?L ks)) = the (kv_at ?h at (ks ! (?L - 1)))" using L by (simp add: last_map last_conv_nth)
    moreover have "kv_at ?h at (ks ! (?L - 1)) \<noteq> None" using ks(2) nth_mem[of "?L - 1" ks] L by auto
    ultimately show ?thesis by (auto dest: kv_at_key)
  qed
  have lim: "rr_Limit ?req = pageSize" "\<not> rr_CountOnly ?req" "\<not> rr_KeysOnly ?req" by (simp_all add: page_request_def OpGet_def)
  define R where "R = list_response ?req (createHeader (of_nat (length ?h))) (map (\<lambda>x. the (kv_at ?h at x)) ks)"
  have R: "rp_Header R = Some (createHeader (of_nat (length ?h)))" "rp_Kvs R = map (\<lambda>x. the (kv_at ?h at x)) (take ?L ks)" "rp_More R \<longleftrightarrow> \<not> length ks < ?L"
    using sz by (auto simp: R_def list_response_def room_def shown_def lim Let_def take_map)
  have "list_pages cl (Suc fuel) s k e pageSize rv n = (if length ks < ?L then Some (n + length ks, None, s')
       else list_pages cl fuel s' (ks ! (?L - 1) @ [0]) e pageSize (of_nat at) (n + ?L))" for fuel n
  proof (cases "length ks < ?L")
    case True
    then show ?thesis using at' by (simp add: cl ks(4)[folded R_def] R)
  next
    case False
    moreover have "take ?L ks \<noteq> []" using sz False by auto
    ultimately show ?thesis
      unfolding list_pages.simps cl ks(4)[folded R_def] prod.case sum.case R at' option.case using last[OF False] by (simp add: min_absorb2)
  qed
  then show thesis using that ks(1-3) by blast
qed

lemma pages:
  assumes cl: "cl_Get cl = get" and e: "e \<noteq> []" and sz: "0 < sint pageSize"
  shows "serves s h \<Longrightarrow> low \<le> rv \<Longrightarrow> rv \<noteq> 0 \<Longrightarrow> unat rv \<le> length h
    \<Longrightarrow> card {x. in_list (page_request k e pageSize rv) x \<and> kv_at h (unat rv) x \<noteq> None} < fuel
    \<Longrightarrow> \<exists>s'. list_pages cl fuel s k e pageSize rv n = Some (n + card {x. in_list (page_request k e pageSize rv) x \<and> kv_at h (unat rv) x \<noteq> None}, None, s')"
proof (induction fuel arbitrary: s h k n)
  case (Suc fuel)
  let ?h = "seen s h" and ?L = "nat (sint pageSize)" and ?Q = "\<lambda>x. \<not> past_end (page_request [] e pageSize rv) x \<and> \<not> IsInternalKey x \<and> kv_at h (unat rv) x \<noteq> None"
  have S: "{x. in_list (page_request k e pageSize rv) x \<and> kv_at h (unat rv) x \<noteq> None} = {x. k \<le> x \<and> ?Q x}" for k
    by (auto simp: in_list_def past_end_def page_request_def OpGet_def the_bytes_def)
  have kv: "kv_at ?h (unat rv) x = kv_at h (unat rv) x" for x using grows[OF Suc.prems(1)] Suc.prems(4) by (auto simp: prefix_def kv_at_append)
  have rv: "rv \<noteq> 0 \<longrightarrow> low \<le> rv \<and> unat rv \<le> length h" "unat rv = (if rv = 0 then length ?h else unat rv)" using Suc.prems(2-4) by simp_all
  obtain ks s' where ks0: "sorted_wrt (<) ks" "set ks = {x. in_list (page_request k e pageSize rv) x \<and> kv_at ?h (unat rv) x \<noteq> None}" "serves s' ?h"
    "\<forall>fuel n. list_pages cl (Suc fuel) s k e pageSize rv n = (if length ks < ?L then Some (n + length ks, None, s')
       else list_pages cl fuel s' (ks ! (?L - 1) @ [0]) e pageSize (of_nat (unat rv)) (n + ?L))"
    by (rule page[OF cl Suc.prems(1) e sz rv, where k = k])
  note ks = ks0(1) ks0(2)[unfolded kv] ks0(3) ks0(4)[rule_format]
  have d: "distinct ks" using ks(1) by (simp add: strict_sorted_iff)
  have c: "card {x. k \<le> x \<and> ?Q x} = length ks" using distinct_card[OF d] ks(2) unfolding S by simp
  show ?case
  proof (cases "length ks < ?L")
    case True
    then show ?thesis unfolding S c ks(4) by simp
  next
    case False
    then have L: "0 < ?L" "?L \<le> length ks" using sz by auto
    let ?k = "ks ! (?L - 1) @ [0]"
    have "set (drop ?L ks) = {x. ?k \<le> x \<and> ?Q x}" using drop_sorted[OF ks(1) ks(2)[unfolded S] L] .
    then have c': "card {x. ?k \<le> x \<and> ?Q x} = length ks - ?L" using distinct_card[of "drop ?L ks"] d by simp
    have le: "unat rv \<le> length ?h" using grows[OF Suc.prems(1)] Suc.prems(4) prefix_length_le order.trans by blast
    have "card {x. ?k \<le> x \<and> ?Q x} < fuel" using Suc.prems(5) L c c' unfolding S by linarith
    then have "\<exists>s''. list_pages cl fuel s' ?k e pageSize rv (n + ?L) = Some (n + ?L + card {x. ?k \<le> x \<and> ?Q x}, None, s'')"
      using Suc.IH[OF ks(3) Suc.prems(2,3) le, of ?k "n + ?L"] unfolding kv S by blast
    then show ?thesis unfolding S c ks(4) if_not_P[OF False] using L c' by auto
  qed
qed simp

lemma list_ok:
  assumes cl: "cl_Get cl = get" and h: "serves (ex_server e) h" and sz: "0 < sint pageSize"
    and fuel: "card {k. prefix p k \<and> \<not> IsInternalKey k \<and> kv_at (seen (ex_server e) h) (length (seen (ex_server e) h)) k \<noteq> None} + 1 < fuel"
  shows "\<exists>e'. executor_list cl fuel e op p pageSize =
     Some ((card {k. prefix p k \<and> \<not> IsInternalKey k \<and> kv_at (seen (ex_server e) h) (length (seen (ex_server e) h)) k \<noteq> None}, None), e')"
proof -
  let ?s = "ex_server e" and ?h = "seen (ex_server e) h" and ?e = "prefixEnd p" and ?L = "nat (sint pageSize)"
  let ?n = "length ?h" and ?r = "of_nat (length ?h) :: revision"
  let ?Q = "\<lambda>x. \<not> past_end (page_request [] ?e pageSize 0) x \<and> \<not> IsInternalKey x \<and> kv_at ?h ?n x \<noteq> None"
  have S: "{x. in_list (page_request k ?e pageSize rv) x \<and> kv_at ?h ?n x \<noteq> None} = {x. k \<le> x \<and> ?Q x}" for k rv
    by (auto simp: in_list_def past_end_def page_request_def OpGet_def the_bytes_def)
  have P: "{k. prefix p k \<and> \<not> IsInternalKey k \<and> kv_at ?h ?n k \<noteq> None} = {x. p \<le> x \<and> ?Q x}"
    using S[of p 0] by (simp add: in_list_prefix conj_assoc)
  obtain ks s' where ks: "sorted_wrt (<) ks" "set ks = {x. p \<le> x \<and> ?Q x}" "serves s' ?h"
    "\<forall>fuel n. list_pages cl (Suc fuel) ?s p ?e pageSize 0 n = (if length ks < ?L then Some (n + length ks, None, s')
       else list_pages cl fuel s' (ks ! (?L - 1) @ [0]) ?e pageSize ?r (n + ?L))"
    by (rule page[OF cl h prefixEnd_nonempty[of p] sz, of 0 ?n p, unfolded S]) simp_all
  have d: "distinct ks" using ks(1) by (simp add: strict_sorted_iff)
  have c: "card {x. p \<le> x \<and> ?Q x} = length ks" using distinct_card[OF d] ks(2) by simp
  obtain f where f: "fuel = Suc f" using fuel by (cases fuel) auto
  have r: "unat ?r = ?n" "?r \<noteq> 0" "low \<le> ?r" using bounds[OF ks(3)] by (auto simp: unat_of_nat take_bit_nat_eq_self word_le_nat_alt word_unat_eq_iff)
  have "\<exists>s''. list_pages cl fuel ?s p ?e pageSize 0 0 = Some (length ks, None, s'')"
  proof (cases "length ks < ?L")
    case False
    then have L: "0 < ?L" "?L \<le> length ks" using sz by auto
    let ?k = "ks ! (?L - 1) @ [0]"
    have "set (drop ?L ks) = {x. ?k \<le> x \<and> ?Q x}" using drop_sorted[OF ks(1,2) L] .
    then have c': "card {x. ?k \<le> x \<and> ?Q x} = length ks - ?L" using distinct_card[of "drop ?L ks"] d by simp
    have "card {x. ?k \<le> x \<and> ?Q x} < f" using fuel L c c' f unfolding P by linarith
    then have "\<exists>s''. list_pages cl f s' ?k ?e pageSize ?r ?L = Some (?L + card {x. ?k \<le> x \<and> ?Q x}, None, s'')"
      using pages[OF cl prefixEnd_nonempty[of p] sz ks(3) r(3,2), where k = ?k and fuel = f and n = ?L, unfolded r(1) S] by blast
    then show ?thesis using False L c' by (auto simp: f ks(4) simp del: list_pages.simps)
  qed (simp add: f ks(4) del: list_pages.simps)
  then show ?thesis unfolding P c by (auto simp: executor_list_def observe_def Let_def)
qed

end

text \<open>The server under the load of other clients, which put \<^verbatim>\<open>ps\<close> between two requests.\<close>

type_synonym shared = "(FilesystemLog \<times> Batching) MemoryStorage \<times> PutRequest list list"

definition next_puts :: "PutRequest list list \<Rightarrow> PutRequest list" where
  "next_puts pss = (case pss of [] \<Rightarrow> [] | ps # _ \<Rightarrow> ps)"

definition server_puts :: "Protowire \<Rightarrow> int \<Rightarrow> (FilesystemLog \<times> Batching) MemoryStorage \<Rightarrow> PutRequest list \<Rightarrow> (FilesystemLog \<times> Batching) MemoryStorage" where
  "server_puts w now = foldl (\<lambda>m p. snd (server_Put (fs_log w) now m p))"

definition shared_Get :: "Protowire \<Rightarrow> int \<Rightarrow> shared \<Rightarrow> RangeRequest \<Rightarrow> (error + RangeResponse) \<times> shared" where
  "shared_Get w now s req = (case server_Range (fs_log w) now (server_puts w now (fst s) (next_puts (snd s))) req of (r, m) \<Rightarrow> (r, (m, tl (snd s))))"

definition after_puts :: "history \<Rightarrow> PutRequest list \<Rightarrow> history" where
  "after_puts = foldl (\<lambda>h p. h @ [put_record h p])"

fun puts_ok :: "Protowire \<Rightarrow> history \<Rightarrow> PutRequest list \<Rightarrow> bool" where
  "puts_ok w h [] \<longleftrightarrow> True"
| "puts_ok w h (p # ps) \<longleftrightarrow> pr_Key p \<noteq> None \<and> pr_Lease p = 0 \<and> (\<forall>q. storable w (restamp q (put_record h p))) \<and> puts_ok w (h @ [put_record h p]) ps"

definition shared_serves :: "Protowire \<Rightarrow> nat \<Rightarrow> revision \<Rightarrow> shared \<Rightarrow> history \<Rightarrow> bool" where
  "shared_serves w base c s h \<longleftrightarrow> (\<exists>K. storage_inv (fs_holds w base) (fst s) h K) \<and> ms_compacted (fst s) = c \<and> (\<forall>r \<in> set h. length (lr_events r) \<le> 1)
     \<and> h \<noteq> [] \<and> puts_ok w h (concat (snd s)) \<and> length h + length (concat (snd s)) + 2 < 2 ^ 63"

definition shared_seen :: "shared \<Rightarrow> history \<Rightarrow> history" where
  "shared_seen s h = after_puts h (next_puts (snd s))"

lemma after_puts_simps [simp]: "after_puts h [] = h" "after_puts h (p # ps) = after_puts (h @ [put_record h p]) ps"
  by (simp_all add: after_puts_def)

lemma length_after_puts [simp]: "length (after_puts h ps) = length h + length ps"
  by (induction ps arbitrary: h) simp_all

lemma prefix_after_puts: "prefix h (after_puts h ps)"
  by (induction ps arbitrary: h) (simp, metis after_puts_simps(2) append_prefixD)

lemma puts_ok_append: "puts_ok w h (ps @ qs) \<longleftrightarrow> puts_ok w h ps \<and> puts_ok w (after_puts h ps) qs"
  by (induction ps arbitrary: h) auto

lemma concat_next: "concat pss = next_puts pss @ concat (tl pss)"
  by (cases pss) (simp_all add: next_puts_def)

lemma one_after_puts: "\<forall>r \<in> set h. length (lr_events r) \<le> 1 \<Longrightarrow> \<forall>r \<in> set (after_puts h ps). length (lr_events r) \<le> 1"
proof (induction ps arbitrary: h)
  case (Cons p ps)
  have "length (lr_events (put_record h p)) \<le> 1" by (simp add: put_record_def Let_def)
  then show ?case using Cons.IH[of "h @ [put_record h p]"] Cons.prems by simp
qed simp

lemma server_puts_ok:
  assumes w: "proto_codec w"
  shows "storage_inv (fs_holds w base) m h K \<Longrightarrow> puts_ok w h ps \<Longrightarrow> length h + length ps + 2 < 2 ^ 63
    \<Longrightarrow> \<exists>K'. storage_inv (fs_holds w base) (server_puts w now m ps) (after_puts h ps) K' \<and> ms_compacted (server_puts w now m ps) = ms_compacted m"
proof (induction ps arbitrary: m h K)
  case (Cons p ps)
  obtain m' where m': "Put (fs_log w) now m p = (Inr \<lparr> pp_Header = Some (createHeader (of_nat (Suc (length h)))),
        pp_PrevKv = (if pr_PrevKv p then kv_at h (length h) (the_bytes (pr_Key p)) else None) \<rparr>, m')"
     "storage_inv (fs_holds w base) m' (h @ [put_record h p]) (insert (of_nat (Suc (length h))) K)" "ms_compacted m' = ms_compacted m"
    using storage_log.Put_ok[OF fs_storage_log[OF w] Cons.prems(1), of p now] Cons.prems(2,3) by auto
  have "snd (server_Put (fs_log w) now m p) = m'" using Cons.prems(2) m'(1) by (auto simp: server_Put_def)
  then have "server_puts w now m (p # ps) = server_puts w now m' ps" by (simp add: server_puts_def)
  then show ?case using Cons.IH[OF m'(2)] Cons.prems(2,3) m'(3) by simp
qed (auto simp: server_puts_def)

lemma shared_range_server:
  assumes w: "proto_codec w"
  shows "range_server (shared_Get w now) (shared_serves w base c) shared_seen c"
proof
  fix s :: shared and h
  assume s: "shared_serves w base c s h"
  show "prefix h (shared_seen s h)" by (simp add: shared_seen_def prefix_after_puts)
  obtain K where K: "storage_inv (fs_holds w base) (fst s) h K" "ms_compacted (fst s) = c" using s by (auto simp: shared_serves_def)
  then show "0 < length h \<and> length h < 2 ^ 63 \<and> unat c \<le> length h" using s by (auto simp: shared_serves_def storage_inv_def)
  fix req :: RangeRequest
  assume req: "rr_Key req \<noteq> None" "the_bytes (rr_RangeEnd req) \<noteq> []" "0 < sint (rr_Revision req) \<longrightarrow> c \<le> rr_Revision req \<and> unat (rr_Revision req) \<le> length h"
  let ?ps = "next_puts (snd s)" and ?h = "shared_seen s h" and ?at = "if 0 < sint (rr_Revision req) then rr_Revision req else of_nat (length (shared_seen s h))"
  let ?m = "server_puts w now (fst s) ?ps"
  have ok: "puts_ok w h ?ps" "puts_ok w ?h (concat (tl (snd s)))" and len: "length ?h + length (concat (tl (snd s))) + 2 < 2 ^ 63"
    using s concat_next[of "snd s"] by (auto simp: shared_serves_def puts_ok_append shared_seen_def)
  then obtain K' where K': "storage_inv (fs_holds w base) ?m ?h K'" "ms_compacted ?m = c"
    using server_puts_ok[OF w K(1) ok(1), of now] K(2) by (auto simp: shared_seen_def)
  have one: "\<forall>r \<in> set ?h. length (lr_events r) \<le> 1" using s one_after_puts by (auto simp: shared_serves_def shared_seen_def)
  have u: "unat (of_nat (length ?h) :: revision) = length ?h" using len by (simp add: unat_of_nat take_bit_nat_eq_self)
  have "length h \<le> length ?h" by (simp add: shared_seen_def)
  moreover have "unat c \<le> length ?h" using K' by (simp add: storage_inv_def)
  ultimately have at: "ms_compacted ?m \<le> ?at" "unat ?at \<le> length ?h" using req(3) K'(2) u by (auto simp: word_le_nat_alt)
  have r: "read_at ?h req = unat ?at" using u by (simp add: read_at_def)
  have e: "rr_RangeEnd req \<noteq> None" using req(2) by (auto simp: the_bytes_def split: option.splits)
  obtain ks m' where ks: "sorted_wrt (<) ks" "set ks = {k. in_list req k \<and> kv_at ?h (unat ?at) k \<noteq> None}"
     "Memory_Storage.List (fs_log w) now ?m req = (Inr (list_response req (createHeader (of_nat (length ?h))) (map (\<lambda>k. the (kv_at ?h (unat ?at) k)) ks)), m')"
     "storage_inv (fs_holds w base) m' ?h K'" "ms_compacted m' = ms_compacted ?m"
    using storage_log.List_ok[OF fs_storage_log[OF w] K'(1) one e refl at, where now = now] by blast
  have g: "shared_Get w now s req = (Inr (list_response req (createHeader (of_nat (length ?h))) (map (\<lambda>k. the (kv_at ?h (read_at ?h req) k)) ks)), (m', tl (snd s)))"
    using req(1,2) ks(3) by (simp add: shared_Get_def server_Range_def handleRangeWithEnd_def r)
  have "shared_serves w base c (m', tl (snd s)) ?h"
    using ks(4,5) K'(2) one ok(2) len s by (auto simp: shared_serves_def shared_seen_def dest: arg_cong[of _ _ length])
  then show "\<exists>ks s'. sorted_wrt (<) ks \<and> set ks = {k. in_list req k \<and> kv_at ?h (read_at ?h req) k \<noteq> None}
          \<and> shared_Get w now s req = (Inr (list_response req (createHeader (of_nat (length ?h))) (map (\<lambda>k. the (kv_at ?h (read_at ?h req) k)) ks)), s')
          \<and> shared_serves w base c s' ?h"
    using ks(1,2)[folded r] g by blast
qed

interpretation shr: range_server "shared_Get std_wire now" "shared_serves std_wire base c" shared_seen c for now base c
  by (rule shared_range_server[OF std.proto_codec_axioms])

lemma keys_card:
  assumes "proto_codec w" and one: "\<forall>r \<in> set h. length (lr_events r) \<le> 1"
  shows "card {k. P k \<and> kv_at h n k \<noteq> None} \<le> length h"
proof -
  define S where "S = {k. P k \<and> kv_at h n k \<noteq> None}"
  have "card S \<le> length h"
  proof (cases "finite S")
    case True
    obtain ks where ks: "set ks = S" "distinct ks" using finite_distinct_list[OF True] by blast
    have a: "\<forall>k \<in> set ks. kv_at h n k \<noteq> None" unfolding ks(1) S_def by blast
    have "length ks \<le> length h" by (rule storage_log.keys_bound[OF fs_storage_log[OF assms(1)] one ks(2) a])
    then show ?thesis using distinct_card[OF ks(2)] ks(1) by simp
  qed simp
  then show ?thesis unfolding S_def .
qed


definition demo_client :: "shared Client" where
  "demo_client = \<lparr> cl_Txn = (\<lambda>s req. case server_Txn (fs_log std_wire) 0 (fst s) req of (r, m) \<Rightarrow> (r, (m, snd s))), cl_Get = shared_Get std_wire 0,
     cl_Grant = (\<lambda>s ttl. (Inl (Errorf ''unavailable''), s)), cl_Compact = (\<lambda>s rv. case server_Compact (fs_log std_wire) (fst s) rv of
       (Inl err, m) \<Rightarrow> (Some err, (m, snd s)) | (Inr hdr, m) \<Rightarrow> (None, (m, snd s))) \<rparr>"

definition demo_executor :: "shared executor" where
  "demo_executor = \<lparr> ex_server = (demo_storage, [[demo_put 5 7]]), ex_state = newStateMap, ex_ops = Map.empty, ex_compactVersion = 0, ex_compactRev = 0 \<rparr>"


end
