(* ===== verification/Workload_Analyze.thy ===== *)
theory Workload_Analyze
  imports Workload
begin

text \<open>
  The analysis of recordings, \<^verbatim>\<open>src/pkg/workload/analyze.go\<close>: requests are classified by shape and key pattern and counted.  The
  decoder of recorded messages (\<^verbatim>\<open>protojson\<close>) is a parameter, the record \<^verbatim>\<open>Decoder\<close>.  Latencies, and the text and the example
  values made of an analysis, are not modelled; a recorded time is after Go's zero time.
\<close>

subsection \<open>Patterns\<close>

fun split_on :: "char \<Rightarrow> string \<Rightarrow> string list" where
  "split_on c [] = [[]]"
| "split_on c (x # xs) = (if x = c then [] # split_on c xs else (x # hd (split_on c xs)) # tl (split_on c xs))"

fun join :: "string \<Rightarrow> string list \<Rightarrow> string" where
  "join sep [] = []"
| "join sep [s] = s"
| "join sep (s # t # ss) = s @ sep @ join sep (t # ss)"

definition isSystemNamespace :: "string \<Rightarrow> bool" where
  "isSystemNamespace ns \<longleftrightarrow> ns \<in> {''kube-system'', ''kube-node-lease'', ''kube-public'', ''default''}"

definition pattern_rest :: "string list \<Rightarrow> string list" where
  "pattern_rest rest =
     (case rest of
        [] \<Rightarrow> []
      | p # ps \<Rightarrow> (if ps \<noteq> [] \<and> isSystemNamespace p then p else ''*'') # map (\<lambda>_. ''*'') ps)"

definition keyPattern :: "string \<Rightarrow> string" where
  "keyPattern key =
     (if \<not> prefix ''/registry/'' key then key
      else let parts = split_on CHR ''/'' (drop 10 key); rest = tl parts
           in if rest \<noteq> [] \<and> CHR ''.'' \<in> set (hd parts)
              then ''/registry/'' @ join ''/'' ([hd parts, hd rest] @ pattern_rest (tl rest))
              else ''/registry/'' @ join ''/'' (hd parts # pattern_rest rest))"

subsection \<open>Shapes\<close>

definition rangeShape :: "RangeRequest \<Rightarrow> bool \<Rightarrow> string" where
  "rangeShape req serializable =
     (let flags = (if the_bytes (rr_RangeEnd req) = [] then [''get'']
                   else if rr_CountOnly req then [''count'']
                   else ''list'' # (if 0 < sint (rr_Limit req) then [''limit='' @ decimal (rr_Limit req)] else []))
                  @ (if 0 < sint (rr_Revision req) then [''rev''] else [])
                  @ (if rr_KeysOnly req then [''keys-only''] else [])
                  @ (if serializable then [''serializable''] else [])
      in ''range '' @ join '','' flags @ '' '' @ keyPattern (string_of (the_bytes (rr_Key req))))"

definition target_name :: "CompareTarget \<Rightarrow> string" where
  "target_name t = (case t of Compare_VERSION \<Rightarrow> ''version'' | Compare_CREATE \<Rightarrow> ''create'' | Compare_MOD \<Rightarrow> ''mod'' | Compare_VALUE \<Rightarrow> ''value'' | Compare_LEASE \<Rightarrow> ''lease'')"

definition compare_name :: "CompareCond \<Rightarrow> string" where
  "compare_name c =
     target_name (cc_Target c) @
       (case cc_TargetUnion c of Union_ModRevision r \<Rightarrow> if r = 0 then ''=0'' else [] | Union_Version v \<Rightarrow> if v = 0 then ''=0'' else [] | _ \<Rightarrow> [])"

text \<open>\<^verbatim>\<open>if key == "" { key = k }\<close>.\<close>

definition or_key :: "string \<Rightarrow> slice \<Rightarrow> string" where
  "or_key key k = (if key = [] then string_of (the_bytes k) else key)"

text \<open>The success operations: their names, the values they put, and the key; a nested transaction is \<^verbatim>\<open>RequestOther\<close>.\<close>

fun success_ops :: "RequestOp list \<Rightarrow> string \<Rightarrow> string list \<times> bytes list \<times> string" where
  "success_ops [] key = ([], [], key)"
| "success_ops (oper # opers) key =
     (case oper of
        RequestPut r \<Rightarrow> (case success_ops opers (or_key key (pr_Key r)) of (ops, values, key') \<Rightarrow>
          ((if pr_Lease r \<noteq> 0 then ''put+lease'' else ''put'') # ops, pr_Value r # values, key'))
      | RequestDeleteRange r \<Rightarrow> (case success_ops opers (or_key key (dr_Key r)) of (ops, values, key') \<Rightarrow> (''delete'' # ops, values, key'))
      | RequestRange r \<Rightarrow> (case success_ops opers (or_key key (rr_Key r)) of (ops, values, key') \<Rightarrow> (''range'' # ops, values, key'))
      | RequestOther \<Rightarrow> (case success_ops opers key of (ops, values, key') \<Rightarrow> (''txn'' # ops, values, key')))"

definition failure_ops :: "RequestOp list \<Rightarrow> string list" where
  "failure_ops opers = concat (map (\<lambda>oper. case oper of RequestRange r \<Rightarrow> [''range''] | RequestPut r \<Rightarrow> [''put''] | RequestDeleteRange r \<Rightarrow> [''delete''] | RequestOther \<Rightarrow> []) opers)"

definition txnShape :: "TxnRequest \<Rightarrow> string \<times> string \<times> bytes list" where
  "txnShape req =
     (let cmp = map compare_name (tr_Compare req);
          key0 = foldl (\<lambda>key c. or_key key (cc_Key c)) [] (tr_Compare req);
          (ops, values, key) = success_ops (tr_Success req) key0;
          name = (if cmp = [''mod=0''] \<and> length ops = 1 \<and> prefix ''put'' (hd ops) then ''txn create''
                  else if cmp = [''mod''] \<and> length ops = 1 \<and> prefix ''put'' (hd ops) then ''txn update''
                  else if cmp = [''mod''] \<and> ops = [''delete''] then ''txn delete''
                  else ''txn if('' @ join '','' cmp @ '') then('' @ join '','' ops @ '') else('' @ join '','' (failure_ops (tr_Failure req)) @ '')'');
          name' = (if list_ex (suffix ''+lease'') ops then name @ '' lease'' else name)
      in (name' @ '' '' @ keyPattern key, key, values))"

subsection \<open>Analyses\<close>

datatype Kind = KindUnary | KindStreamOpen | KindStreamRecv | KindStreamSend | KindStreamClose

record Entry =
  en_Time :: int
  en_Kind :: Kind
  en_Method :: string
  en_Stream :: int64
  en_Request :: bytes
  en_Response :: bytes
  en_Error :: string

text \<open>What is decoded, with the fields the analysis reads; the second component of a range is its \<^verbatim>\<open>Serializable\<close> flag.\<close>

record WatchCreate =
  wk_Key :: slice
  wk_PrevKv :: bool
  wk_ProgressNotify :: bool

datatype WatchMessage = MessageCreate WatchCreate | MessageProgress | MessageOther

record WatchReply =
  wr_Created :: bool
  wr_WatchId :: int64
  wr_Events :: nat

record Decoder =
  dc_Range :: "bytes \<Rightarrow> error + RangeRequest \<times> bool"
  dc_Put :: "bytes \<Rightarrow> error + PutRequest"
  dc_DeleteRange :: "bytes \<Rightarrow> error + DeleteRangeRequest"
  dc_Txn :: "bytes \<Rightarrow> error + TxnRequest"
  dc_LeaseGrant :: "bytes \<Rightarrow> error + LeaseGrantRequest"
  dc_WatchRequest :: "bytes \<Rightarrow> error + WatchMessage"
  dc_WatchResponse :: "bytes \<Rightarrow> error + WatchReply"

record ShapeStats =
  sh_Count :: nat
  sh_Errors :: nat
  sh_Keys :: "string list"
  sh_ValueBytes :: nat
  sh_ValueSamples :: nat
  sh_MinValue :: nat
  sh_MaxValue :: nat
  sh_values :: "bytes list"

record WatchShape =
  wh_Created :: nat
  wh_Events :: nat
  wh_Responses :: nat
  wh_PrevKV :: nat
  wh_Progress :: nat

record Analysis =
  an_Start :: "int option"
  an_End :: "int option"
  an_Entries :: nat
  an_Shapes :: "(string \<times> ShapeStats) list"
  an_Watches :: "(string \<times> WatchShape) list"
  an_Streams :: "(string \<times> nat) list"
  an_KeepAlives :: nat
  an_ProgressRequests :: nat
  an_nodes :: "string list"
  an_pending :: "int64 \<Rightarrow> string list"
  an_watchByID :: "int64 \<times> int64 \<rightharpoonup> string"

definition new_Analysis :: Analysis where
  "new_Analysis = \<lparr> an_Start = None, an_End = None, an_Entries = 0, an_Shapes = [], an_Watches = [], an_Streams = [], an_KeepAlives = 0,
     an_ProgressRequests = 0, an_nodes = [], an_pending = (\<lambda>_. []), an_watchByID = Map.empty \<rparr>"

definition maxValueSamples :: nat where
  "maxValueSamples = 64"

definition shape :: "Analysis \<Rightarrow> string \<Rightarrow> ShapeStats" where
  "shape a name = (case map_of (an_Shapes a) name of
     Some s \<Rightarrow> s
   | None \<Rightarrow> \<lparr> sh_Count = 0, sh_Errors = 0, sh_Keys = [], sh_ValueBytes = 0, sh_ValueSamples = 0, sh_MinValue = 0, sh_MaxValue = 0, sh_values = [] \<rparr>)"

definition addValue :: "ShapeStats \<Rightarrow> bytes \<Rightarrow> ShapeStats" where
  "addValue s v =
     (let n = length v; samples = sh_ValueSamples s + 1
      in s \<lparr> sh_ValueBytes := sh_ValueBytes s + n, sh_ValueSamples := samples,
             sh_MinValue := (if sh_MinValue s = 0 \<or> n < sh_MinValue s then n else sh_MinValue s),
             sh_MaxValue := (if sh_MaxValue s < n then n else sh_MaxValue s),
             sh_values := (if length (sh_values s) < maxValueSamples then sh_values s @ [v] else (sh_values s)[samples mod maxValueSamples := v]) \<rparr>)"

text \<open>A set of strings, without repetition in the order of insertion.\<close>

definition add_key :: "string list \<Rightarrow> string \<Rightarrow> string list" where
  "add_key ks k = (if k \<in> set ks then ks else ks @ [k])"

definition unaryShape :: "Decoder \<Rightarrow> Entry \<Rightarrow> error + string \<times> string \<times> bytes list" where
  "unaryShape dc e =
     (if en_Method e = ''/etcdserverpb.KV/Range''
      then case dc_Range dc (en_Request e) of Inl err \<Rightarrow> Inl err | Inr (req, ser) \<Rightarrow> Inr (rangeShape req ser, string_of (the_bytes (rr_Key req)), [])
      else if en_Method e = ''/etcdserverpb.KV/Put''
      then case dc_Put dc (en_Request e) of
             Inl err \<Rightarrow> Inl err
           | Inr req \<Rightarrow> Inr (''put '' @ keyPattern (string_of (the_bytes (pr_Key req))) @ (if pr_Lease req \<noteq> 0 then '' lease'' else []),
                            string_of (the_bytes (pr_Key req)), [pr_Value req])
      else if en_Method e = ''/etcdserverpb.KV/DeleteRange''
      then case dc_DeleteRange dc (en_Request e) of
             Inl err \<Rightarrow> Inl err
           | Inr req \<Rightarrow> Inr (''delete '' @ keyPattern (string_of (the_bytes (dr_Key req))), string_of (the_bytes (dr_Key req)), [])
      else if en_Method e = ''/etcdserverpb.KV/Txn''
      then case dc_Txn dc (en_Request e) of Inl err \<Rightarrow> Inl err | Inr req \<Rightarrow> Inr (txnShape req)
      else if en_Method e = ''/etcdserverpb.Lease/LeaseGrant''
      then case dc_LeaseGrant dc (en_Request e) of Inl err \<Rightarrow> Inl err | Inr req \<Rightarrow> Inr (''lease grant ttl='' @ decimal (gr_TTL req) @ ''s'', [], [])
      else Inr (if prefix ''/etcdserverpb.'' (en_Method e) then drop 14 (en_Method e) else en_Method e, [], []))"

definition analyze_unary :: "Decoder \<Rightarrow> Analysis \<Rightarrow> Entry \<Rightarrow> error + Analysis" where
  "analyze_unary dc a e =
     (case unaryShape dc e of
        Inl err \<Rightarrow> Inl err
      | Inr (name, key, values) \<Rightarrow>
          let s = shape a name;
              s1 = s \<lparr> sh_Count := sh_Count s + 1, sh_Errors := sh_Errors s + (if en_Error e \<noteq> [] then 1 else 0),
                       sh_Keys := (if key \<noteq> [] then add_key (sh_Keys s) key else sh_Keys s) \<rparr>
          in Inr (a \<lparr> an_Shapes := AList.update name (foldl addValue s1 values) (an_Shapes a),
                      an_nodes := (if key \<noteq> [] \<and> prefix ''/registry/minions/'' key then add_key (an_nodes a) key else an_nodes a) \<rparr>))"

definition watch_shape :: "Analysis \<Rightarrow> string \<Rightarrow> WatchShape" where
  "watch_shape a pattern = (case map_of (an_Watches a) pattern of
     Some w \<Rightarrow> w | None \<Rightarrow> \<lparr> wh_Created = 0, wh_Events = 0, wh_Responses = 0, wh_PrevKV = 0, wh_Progress = 0 \<rparr>)"

definition watch_method :: string where
  "watch_method = ''/etcdserverpb.Watch/Watch''"

definition analyze_recv :: "Decoder \<Rightarrow> Analysis \<Rightarrow> Entry \<Rightarrow> error + Analysis" where
  "analyze_recv dc a e =
     (if en_Method e = watch_method
      then case dc_WatchRequest dc (en_Request e) of
             Inl err \<Rightarrow> Inl err
           | Inr (MessageCreate r) \<Rightarrow>
               let pattern = keyPattern (string_of (the_bytes (wk_Key r))); w = watch_shape a pattern;
                   w' = w \<lparr> wh_Created := wh_Created w + 1, wh_PrevKV := wh_PrevKV w + (if wk_PrevKv r then 1 else 0),
                            wh_Progress := wh_Progress w + (if wk_ProgressNotify r then 1 else 0) \<rparr>
               in Inr (a \<lparr> an_Watches := AList.update pattern w' (an_Watches a),
                           an_pending := (an_pending a)(en_Stream e := an_pending a (en_Stream e) @ [pattern]) \<rparr>)
           | Inr MessageProgress \<Rightarrow> Inr (a \<lparr> an_ProgressRequests := an_ProgressRequests a + 1 \<rparr>)
           | Inr MessageOther \<Rightarrow> Inr a
      else if en_Method e = ''/etcdserverpb.Lease/LeaseKeepAlive'' then Inr (a \<lparr> an_KeepAlives := an_KeepAlives a + 1 \<rparr>)
      else Inr a)"

definition analyze_send :: "Decoder \<Rightarrow> Analysis \<Rightarrow> Entry \<Rightarrow> error + Analysis" where
  "analyze_send dc a e =
     (if en_Method e \<noteq> watch_method then Inr a
      else case dc_WatchResponse dc (en_Response e) of
             Inl err \<Rightarrow> Inl err
           | Inr resp \<Rightarrow>
               if wr_Created resp
               then (case an_pending a (en_Stream e) of
                       [] \<Rightarrow> Inr a
                     | q # qs \<Rightarrow> Inr (a \<lparr> an_watchByID := (an_watchByID a)((en_Stream e, wr_WatchId resp) \<mapsto> q), an_pending := (an_pending a)(en_Stream e := qs) \<rparr>))
               else case an_watchByID a (en_Stream e, wr_WatchId resp) of
                      None \<Rightarrow> Inr a
                    | Some pattern \<Rightarrow>
                        let w = watch_shape a pattern
                        in Inr (a \<lparr> an_Watches := AList.update pattern (w \<lparr> wh_Responses := wh_Responses w + 1, wh_Events := wh_Events w + wr_Events resp \<rparr>) (an_Watches a) \<rparr>))"

definition analyze_entry :: "Decoder \<Rightarrow> Analysis \<Rightarrow> Entry \<Rightarrow> error + Analysis" where
  "analyze_entry dc a e =
     (let a1 = a \<lparr> an_Entries := an_Entries a + 1,
                   an_Start := (case an_Start a of None \<Rightarrow> Some (en_Time e) | Some t \<Rightarrow> if en_Time e < t then Some (en_Time e) else Some t),
                   an_End := (case an_End a of None \<Rightarrow> Some (en_Time e) | Some t \<Rightarrow> if t < en_Time e then Some (en_Time e) else Some t) \<rparr>
      in case en_Kind e of
           KindUnary \<Rightarrow> analyze_unary dc a1 e
         | KindStreamOpen \<Rightarrow>
             Inr (a1 \<lparr> an_Streams := AList.update (en_Method e) ((case map_of (an_Streams a1) (en_Method e) of None \<Rightarrow> 0 | Some n \<Rightarrow> n) + 1) (an_Streams a1) \<rparr>)
         | KindStreamRecv \<Rightarrow> analyze_recv dc a1 e
         | KindStreamSend \<Rightarrow> analyze_send dc a1 e
         | KindStreamClose \<Rightarrow> Inr a1)"

text \<open>The entries of the recording, in order, and the number of nodes.\<close>

fun analyze_entries :: "Decoder \<Rightarrow> Analysis \<Rightarrow> Entry list \<Rightarrow> error + Analysis" where
  "analyze_entries dc a [] = Inr a"
| "analyze_entries dc a (e # es) = (case analyze_entry dc a e of Inl err \<Rightarrow> Inl err | Inr a' \<Rightarrow> analyze_entries dc a' es)"

definition Analyze :: "Decoder \<Rightarrow> Entry list \<Rightarrow> error + Analysis \<times> nat" where
  "Analyze dc es = (case analyze_entries dc new_Analysis es of Inl err \<Rightarrow> Inl err | Inr a \<Rightarrow> Inr (a, length (an_nodes a)))"

subsection \<open>What an analysis counts\<close>

text \<open>A set kept in a list has each key once.\<close>

lemma distinct_add_key: "distinct ks \<Longrightarrow> distinct (add_key ks k)" "set (add_key ks k) = insert k (set ks)"
  by (auto simp: add_key_def)

lemma addValue_bound: "length (sh_values s) \<le> maxValueSamples \<Longrightarrow> length (sh_values (addValue s v)) \<le> maxValueSamples"
  by (simp add: addValue_def Let_def)

text \<open>The shapes' counts add up to the number of unary entries.\<close>

definition unary_count :: "Analysis \<Rightarrow> nat" where
  "unary_count a = sum_list (map (\<lambda>x. sh_Count (snd x)) (an_Shapes a))"

lemma sum_update:
  assumes "distinct (map fst xs)"
  shows "sum_list (map (\<lambda>x. f (snd x)) (AList.update k v xs)) + (case map_of xs k of None \<Rightarrow> 0 | Some u \<Rightarrow> f u) = sum_list (map (\<lambda>x. f (snd x)) xs) + (f v :: nat)"
  using assms
proof (induction xs)
  case (Cons x xs)
  have "map_of xs (fst x) = None" using Cons.prems by (simp add: map_of_eq_None_iff)
  then show ?case using Cons by (cases x) (auto split: option.splits)
qed simp

lemma foldl_addValue_Count: "sh_Count (foldl addValue s vs) = sh_Count s"
  by (induction vs arbitrary: s) (simp_all add: addValue_def Let_def)

lemma analyze_unary_count:
  assumes "analyze_unary dc a e = Inr a'" and "distinct (map fst (an_Shapes a))"
  shows "unary_count a' = Suc (unary_count a)" and "distinct (map fst (an_Shapes a'))"
proof -
  obtain name key vs where u: "unaryShape dc e = Inr (name, key, vs)" using assms(1) by (auto simp: analyze_unary_def split: sum.splits)
  define s where "s = foldl addValue ((shape a name) \<lparr> sh_Count := sh_Count (shape a name) + 1, sh_Errors := sh_Errors (shape a name) + (if en_Error e \<noteq> [] then 1 else 0),
                       sh_Keys := (if key \<noteq> [] then add_key (sh_Keys (shape a name)) key else sh_Keys (shape a name)) \<rparr>) vs"
  have sh: "an_Shapes a' = AList.update name s (an_Shapes a)" using assms(1) u by (auto simp: analyze_unary_def Let_def s_def)
  then show "distinct (map fst (an_Shapes a'))" using assms(2) by (simp add: distinct_update)
  have "sh_Count s = Suc (case map_of (an_Shapes a) name of None \<Rightarrow> 0 | Some u \<Rightarrow> sh_Count u)"
    by (simp add: s_def foldl_addValue_Count shape_def split: option.split)
  then show "unary_count a' = Suc (unary_count a)" using sum_update[OF assms(2), of sh_Count name s] by (simp add: unary_count_def sh)
qed

definition is_unary :: "Entry \<Rightarrow> bool" where
  "is_unary e \<longleftrightarrow> en_Kind e = KindUnary"

definition node_keys :: "Decoder \<Rightarrow> Entry list \<Rightarrow> string set" where
  "node_keys dc es = {key. prefix ''/registry/minions/'' key \<and> (\<exists>e \<in> set es. is_unary e \<and> (\<exists>name values. unaryShape dc e = Inr (name, key, values)))}"

lemma analyze_unary_nodes:
  assumes "analyze_unary dc a e = Inr a'" and "is_unary e" and "distinct (an_nodes a)"
  shows "set (an_nodes a') = set (an_nodes a) \<union> node_keys dc [e]" and "distinct (an_nodes a')" and "an_Entries a' = an_Entries a"
proof -
  obtain name key vs where u: "unaryShape dc e = Inr (name, key, vs)" using assms(1) by (auto simp: analyze_unary_def split: sum.splits)
  have n: "an_nodes a' = (if key \<noteq> [] \<and> prefix ''/registry/minions/'' key then add_key (an_nodes a) key else an_nodes a)"
    and "an_Entries a' = an_Entries a" using assms(1) u by (auto simp: analyze_unary_def Let_def)
  then show "distinct (an_nodes a')" "an_Entries a' = an_Entries a" using assms(3) distinct_add_key(1) by auto
  have "node_keys dc [e] = (if prefix ''/registry/minions/'' key then {key} else {})" using assms(2) u by (auto simp: node_keys_def)
  then show "set (an_nodes a') = set (an_nodes a) \<union> node_keys dc [e]" unfolding n by (auto simp: distinct_add_key(2))
qed

lemma analyze_stream:
  assumes "analyze_recv dc a e = Inr a' \<or> analyze_send dc a e = Inr a'"
  shows "an_Shapes a' = an_Shapes a" and "an_nodes a' = an_nodes a" and "an_Entries a' = an_Entries a"
  using assms by (auto simp: analyze_recv_def analyze_send_def Let_def split: if_splits sum.splits WatchMessage.splits list.splits option.splits)

lemma analyze_entry_counts:
  assumes "analyze_entry dc a e = Inr a'" and "distinct (map fst (an_Shapes a))" and "distinct (an_nodes a)"
  shows "an_Entries a' = Suc (an_Entries a) \<and> unary_count a' = unary_count a + (if is_unary e then 1 else 0) \<and> distinct (map fst (an_Shapes a'))
    \<and> set (an_nodes a') = set (an_nodes a) \<union> node_keys dc [e] \<and> distinct (an_nodes a')"
proof -
  define a1 where "a1 = a \<lparr> an_Entries := an_Entries a + 1,
                   an_Start := (case an_Start a of None \<Rightarrow> Some (en_Time e) | Some t \<Rightarrow> if en_Time e < t then Some (en_Time e) else Some t),
                   an_End := (case an_End a of None \<Rightarrow> Some (en_Time e) | Some t \<Rightarrow> if t < en_Time e then Some (en_Time e) else Some t) \<rparr>"
  have a1: "an_Shapes a1 = an_Shapes a" "an_nodes a1 = an_nodes a" "an_Entries a1 = Suc (an_Entries a)" by (simp_all add: a1_def)
  note step = assms(1)[unfolded analyze_entry_def Let_def, folded a1_def]
  show ?thesis
  proof (cases "is_unary e")
    case True
    then have u: "analyze_unary dc a1 e = Inr a'" using step by (simp add: is_unary_def)
    show ?thesis using analyze_unary_count[OF u] analyze_unary_nodes[OF u True] assms(2,3) True by (simp add: a1 unary_count_def)
  next
    case False
    then have "node_keys dc [e] = {}" by (simp add: node_keys_def)
    moreover have "an_Shapes a' = an_Shapes a1 \<and> an_nodes a' = an_nodes a1 \<and> an_Entries a' = an_Entries a1"
      using step False analyze_stream[of dc a1 e a'] by (cases "en_Kind e") (auto simp: is_unary_def)
    ultimately show ?thesis using False assms(2,3) by (simp add: a1 unary_count_def)
  qed
qed

lemma node_keys_Cons: "node_keys dc (e # es) = node_keys dc [e] \<union> node_keys dc es"
  by (auto simp: node_keys_def)

lemma analyze_entries_counts:
  "analyze_entries dc a es = Inr a' \<Longrightarrow> distinct (map fst (an_Shapes a)) \<Longrightarrow> distinct (an_nodes a) \<Longrightarrow>
   an_Entries a' = an_Entries a + length es \<and> unary_count a' = unary_count a + length (filter is_unary es)
   \<and> set (an_nodes a') = set (an_nodes a) \<union> node_keys dc es \<and> distinct (an_nodes a')"
proof (induction es arbitrary: a)
  case Nil
  then show ?case by (simp add: node_keys_def)
next
  case (Cons e es)
  obtain a1 where a1: "analyze_entry dc a e = Inr a1" "analyze_entries dc a1 es = Inr a'" using Cons.prems(1) by (auto split: sum.splits)
  note c = analyze_entry_counts[OF a1(1) Cons.prems(2,3)]
  show ?case using Cons.IH[OF a1(2)] c unfolding node_keys_Cons[of dc e es] by (auto simp: Un_assoc)
qed

text \<open>An entry whose message can be decoded, where the analysis decodes it.\<close>

definition decodes :: "Decoder \<Rightarrow> Entry \<Rightarrow> bool" where
  "decodes dc e = (case en_Kind e of
     KindUnary \<Rightarrow> \<not> isl (unaryShape dc e)
   | KindStreamRecv \<Rightarrow> en_Method e = watch_method \<longrightarrow> \<not> isl (dc_WatchRequest dc (en_Request e))
   | KindStreamSend \<Rightarrow> en_Method e = watch_method \<longrightarrow> \<not> isl (dc_WatchResponse dc (en_Response e))
   | _ \<Rightarrow> True)"

lemma analyze_decodes:
  "isl (analyze_unary dc a e) \<longleftrightarrow> isl (unaryShape dc e)"
  "isl (analyze_recv dc a e) \<longleftrightarrow> en_Method e = watch_method \<and> isl (dc_WatchRequest dc (en_Request e))"
  "isl (analyze_send dc a e) \<longleftrightarrow> en_Method e = watch_method \<and> isl (dc_WatchResponse dc (en_Response e))"
proof -
  show "isl (analyze_unary dc a e) \<longleftrightarrow> isl (unaryShape dc e)"
    by (cases "unaryShape dc e") (simp_all add: analyze_unary_def Let_def split: prod.split)
  show "isl (analyze_recv dc a e) \<longleftrightarrow> en_Method e = watch_method \<and> isl (dc_WatchRequest dc (en_Request e))"
    by (cases "en_Method e = watch_method"; cases "dc_WatchRequest dc (en_Request e)") (simp_all add: analyze_recv_def Let_def split: WatchMessage.split)
  show "isl (analyze_send dc a e) \<longleftrightarrow> en_Method e = watch_method \<and> isl (dc_WatchResponse dc (en_Response e))"
    by (cases "en_Method e = watch_method"; cases "dc_WatchResponse dc (en_Response e)") (simp_all add: analyze_send_def Let_def split: list.split option.split)
qed

lemma analyze_entry_decodes: "isl (analyze_entry dc a e) \<longleftrightarrow> \<not> decodes dc e"
  by (cases "en_Kind e") (simp_all add: analyze_entry_def decodes_def analyze_decodes Let_def)

lemma analyze_entries_decodes: "isl (analyze_entries dc a es) \<longleftrightarrow> \<not> list_all (decodes dc) es"
proof (induction es arbitrary: a)
  case (Cons e es)
  then show ?case using analyze_entry_decodes[of dc a e] by (cases "analyze_entry dc a e") simp_all
qed simp

text \<open>C40: The analysis of a recording accounts for every entry.  It fails exactly when a message it reads cannot be decoded.  Otherwise
  it has as many entries as the recording, each unary request is counted in exactly one shape, and the number of nodes is the number
  of different keys under \<^verbatim>\<open>/registry/minions/\<close> that unary requests are about.\<close>

theorem Analyze_counts:
  "case Analyze dc es of
     Inl err \<Rightarrow> \<not> list_all (decodes dc) es
   | Inr (a, nodes) \<Rightarrow> list_all (decodes dc) es \<and> an_Entries a = length es
       \<and> sum_list (map (\<lambda>x. sh_Count (snd x)) (an_Shapes a)) = length (filter is_unary es) \<and> nodes = card (node_keys dc es)"
proof (cases "analyze_entries dc new_Analysis es")
  case (Inl err)
  then show ?thesis using analyze_entries_decodes[of dc new_Analysis es] by (simp add: Analyze_def)
next
  case (Inr a)
  have "an_Entries a = length es \<and> unary_count a = length (filter is_unary es) \<and> set (an_nodes a) = node_keys dc es \<and> distinct (an_nodes a)"
    using analyze_entries_counts[OF Inr] by (simp add: new_Analysis_def unary_count_def)
  then show ?thesis using Inr analyze_entries_decodes[of dc new_Analysis es] distinct_card[of "an_nodes a"]
    by (simp add: Analyze_def unary_count_def)
qed

end
