(* ===== verification/Spec2Isabelle.thy ===== *)
theory Spec2Isabelle
  imports Archive_Spec Server Watch_Spec Lease_Spec Workload_Spec Workload_Analyze
begin

text \<open>
  A verification development for cloud-etcd, a server of the etcd API whose state is an index in memory over a log of
  records in files, archived to Cloud Storage.

  \<^bold>\<open>The program.\<close>  A gRPC request reaches \<^verbatim>\<open>pkg/api\<close>, which calls the storage (\<^verbatim>\<open>pkg/storage/memorystorage\<close>) or the lease
  manager (\<^verbatim>\<open>pkg/lease\<close>).  A transaction is evaluated on a snapshot of the index (\<^verbatim>\<open>pkg/bptree\<close>), its events and what it read
  and wrote are handed to the log, and group commit (\<^verbatim>\<open>pkg/persistence/batch\<close>) validates it against what was committed since
  and writes a batch of records to the active file (\<^verbatim>\<open>pkg/persistence/filesystemlog\<close>, encoded by \<^verbatim>\<open>pkg/persistence/logcodec\<close>).
  The storage then applies the records to the index and the lease table, and wakes the watchers, which read the records back through
  a cache (\<^verbatim>\<open>pkg/persistence/recordcache\<close>).  Closed files are compacted and uploaded (\<^verbatim>\<open>pkg/persistence/gcsarchive\<close>).
  \<^verbatim>\<open>pkg/workload\<close> generates and analyses the traffic of a Kubernetes cluster.

  \<^bold>\<open>Theories and sources\<close> (paths under \<^verbatim>\<open>src/pkg\<close>):

  \<^item> \<^verbatim>\<open>Prelude\<close>: Go's integers, byte strings and \<^verbatim>\<open>sort.Search\<close>, with the facts on lists and words that the components share.
  \<^item> \<^verbatim>\<open>Mvcc\<close>, \<^verbatim>\<open>Etcdserverpb\<close>: the messages of etcd and the errors, \<^verbatim>\<open>persistence/log.go\<close>, \<^verbatim>\<open>persistence/txn_meta.go\<close>, \<^verbatim>\<open>storage/keys.go\<close>.
  \<^item> \<^verbatim>\<open>Bptree\<close>: the radix tree of \<^verbatim>\<open>bptree/bptree.go\<close>.
  \<^item> \<^verbatim>\<open>Batch\<close>: \<^verbatim>\<open>persistence/batch\<close>, with the interleavings of its goroutines as a step relation.
  \<^item> \<^verbatim>\<open>Record_Cache\<close>, \<^verbatim>\<open>Logcodec\<close>, \<^verbatim>\<open>Gcs_Archive\<close>: the packages of these names.
  \<^item> \<^verbatim>\<open>Log_Files\<close>, \<^verbatim>\<open>Filesystem_Log\<close>, \<^verbatim>\<open>Log_Recovery\<close>: \<^verbatim>\<open>persistence/filesystemlog\<close>: names and listing of files; commit,
    rotation and reads; opening, compaction, archiving and closing.  A directory is a list of names with contents.
  \<^item> \<^verbatim>\<open>Memory_Storage\<close>, \<^verbatim>\<open>Watch\<close>: \<^verbatim>\<open>storage/memorystorage/memory.go\<close> and \<^verbatim>\<open>watch.go\<close>, over a log that is the record of
    the operations of the \<^verbatim>\<open>Log\<close> interface.  \<^verbatim>\<open>File_Storage\<close> has the file log with its batching as that record.
  \<^item> \<^verbatim>\<open>Lease_Queue\<close>, \<^verbatim>\<open>Lease\<close>, \<^verbatim>\<open>Lease_Manager\<close>: \<^verbatim>\<open>lease/lease.go\<close>: the deletion queue, the table, and the operations that
    write through the storage.
  \<^item> \<^verbatim>\<open>Server\<close>: the handlers of \<^verbatim>\<open>api/server.go\<close> and \<^verbatim>\<open>server_maintenance.go\<close>, with the streams of watches.
  \<^item> \<^verbatim>\<open>Workload\<close>, \<^verbatim>\<open>Workload_Analyze\<close>: keys, remembered state and requests of the load generator; the analysis of recordings.
  \<^item> \<^verbatim>\<open>Storage_Spec\<close>, \<^verbatim>\<open>Log_Compaction\<close>, \<^verbatim>\<open>Restart\<close>, \<^verbatim>\<open>Range_Spec\<close>, \<^verbatim>\<open>Watch_Spec\<close>, \<^verbatim>\<open>Lease_Spec\<close>, \<^verbatim>\<open>Archive_Spec\<close>,
    \<^verbatim>\<open>Workload_Spec\<close>: no code, only what the components promise together.

  A mutable object is a record that operations take and return; a mutex is the atomicity of an operation; a goroutine is a
  function for one of its rounds, interleaved by the caller or by a step relation.  Revisions are 64-bit words.  A Go error is a
  value of type \<^verbatim>\<open>error\<close>, in which a panic and a fatal log message are constructors.

  \<^bold>\<open>What is shown.\<close>  The specification is the history, the list of records ever committed; \<^verbatim>\<open>kv_at h n k\<close> is the pair of a
  key as of revision \<^verbatim>\<open>n\<close>.

  \<^item> Group commit: in every interleaving, acknowledged transactions are serializable and have one outcome each; validation is exact
    for transactions that read single keys, and a range read is not validated within a batch.
  \<^item> Index: the radix tree refines a finite map from keys to revisions.
  \<^item> Log: encoding round trips, the two decoders agree, a torn file is cut at its last complete record, opening after a crash recovers
    every acknowledged record, commits append, reads return what was written, compaction keeps every live record.  The cache is never stale.
  \<^item> Storage: puts, gets and listings do what the history says; compaction and restart keep the answers, with the cases in which they do
    not stated as theorems: a deleted key can come back, a compacted key cannot be created, a second delete is fatal, a listing returns
    keys outside its range after a transaction with several puts.
  \<^item> Watches: a watcher receives exactly the visible events, in order, once; its rounds end.
  \<^item> Leases: every key with a lease is accounted for in every run; lease records round trip; a lease is lost with its last key.
  \<^item> Archive: compaction can make the archiver panic, or wait for ever.
  \<^item> Load generator: a list in pages sees each key of a prefix once, at one revision; an analysis counts every entry.

  Interfaces are locales with the laws a client relies on, each interpreted on the definitions here: \<^verbatim>\<open>revision_index\<close> (radix tree),
  \<^verbatim>\<open>commit_log\<close> (file log under group commit), \<^verbatim>\<open>record_cache\<close>, \<^verbatim>\<open>fifo\<close> (lease queue), \<^verbatim>\<open>storage_log\<close>, \<^verbatim>\<open>compacting_log\<close> and
  \<^verbatim>\<open>replayable_log\<close> (file log under the storage), \<^verbatim>\<open>range_server\<close> (server under the load generator).  \<^verbatim>\<open>wire_format\<close> and
  \<^verbatim>\<open>proto_codec\<close> state the documented behaviour of the protobuf library, which is a parameter; a concrete codec satisfies them.

  \<^bold>\<open>Bounds and fuel.\<close>  Histories are shorter than \<^verbatim>\<open>2 ^ 63\<close> records, as revisions are 64-bit integers.  Loops are structural or have
  a termination proof, apart from these: an \<^verbatim>\<open>Append\<close> that waits is the flusher's rounds, of which one for each waiting batch is
  enough; a watcher's rounds need at most one for each revision; a list in pages needs at most two pages more than there are
  revisions; the archiver's retries are unbounded in the code, and a theorem shows that no number of them is enough.

  \<^bold>\<open>Not modelled.\<close>  Timers and tickers (their effects are steps at a given time), context cancellation, system calls that fail,
  memory mapping, logging and metrics; the protobuf, gRPC, JSON and Cloud Storage libraries, which are parameters; the scheduler,
  statistics and reports of the load generator, and its floating-point rates; the recorder; the commands; the construction of a log from a URL.
\<close>

end
